(* ===== verification/Torrent_Prelude.thy ===== *)
theory Torrent_Prelude
  imports Main "HOL-Library.Word"
begin

text \<open>
  Shared vocabulary of the development: the machine types of the Go sources, big-endian byte
  encodings (\<^verbatim>\<open>encoding/binary\<close>), the reading primitives of \<^verbatim>\<open>io\<close>, the binary search of
  \<^verbatim>\<open>sort.Search\<close> with its correctness, and generic list and option lemmas.  The collections
  \<open>wire_simps\<close> (encodings) and \<open>geom_simps\<close> (lengths and offsets) carry the component proofs.
\<close>

named_theorems wire_simps \<open>facts about encoded bytes\<close>
named_theorems geom_simps \<open>facts about lengths, offsets and extents\<close>

section \<open>Machine types\<close>

type_synonym byte = "8 word"
type_synonym u16 = "16 word"
type_synonym u32 = "32 word"
type_synonym u64 = "64 word"
type_synonym bytes = "byte list"

text \<open>The bytes of a string constant.\<close>

definition str_bytes :: "string \<Rightarrow> bytes" where
  "str_bytes s = map (\<lambda>c. word_of_nat (of_char c)) s"

text \<open>A 64 bit signed integer: what \<^verbatim>\<open>int\<close> arithmetic gives.\<close>

definition int64 :: "int \<Rightarrow> int" where
  "int64 n = sint (word_of_int n :: 64 word)"

lemma int64_small: "0 \<le> n \<Longrightarrow> n < 2 ^ 63 \<Longrightarrow> int64 n = n"
  by (simp add: int64_def sint_sbintrunc' signed_take_bit_int_eq_self)

section \<open>Big-endian encodings\<close>

primrec be_bytes :: "nat \<Rightarrow> nat \<Rightarrow> bytes" where
  "be_bytes 0 n = []"
| "be_bytes (Suc k) n = be_bytes k (n div 256) @ [word_of_nat (n mod 256)]"

definition be_nat :: "bytes \<Rightarrow> nat" where
  "be_nat bs = foldl (\<lambda>acc b. 256 * acc + unat b) 0 bs"

lemma length_be_bytes [simp, wire_simps]: "length (be_bytes k n) = k"
  by (induction k arbitrary: n) auto

lemma be_nat_Nil [simp]: "be_nat [] = 0"
  by (simp add: be_nat_def)

lemma be_nat_snoc [simp]: "be_nat (bs @ [b]) = 256 * be_nat bs + unat b"
  by (simp add: be_nat_def)

lemma unat_byte_less [simp]: "unat (b :: byte) < 256"
  using unsigned_less [where w = b and 'a = nat] by simp

lemma unat_byte_of_nat [simp]: "unat (word_of_nat (n mod 256) :: byte) = n mod 256"
  by (simp add: unat_of_nat)

lemma be_nat_be_bytes [wire_simps]: "be_nat (be_bytes k n) = n mod 256 ^ k"
proof (induction k arbitrary: n)
  case (Suc k)
  have "be_nat (be_bytes (Suc k) n) = 256 * (n div 256 mod 256 ^ k) + n mod 256"
    by (simp add: Suc.IH)
  also have "\<dots> = n mod (256 * 256 ^ k)"
    by (simp add: mod_mult2_eq)
  finally show ?case by simp
qed simp

lemma be_bytes_be_nat [wire_simps]: "be_bytes (length bs) (be_nat bs) = bs"
proof (induction bs rule: rev_induct)
  case (snoc b bs)
  have "(256 * be_nat bs + unat b) div 256 = be_nat bs"
    by simp
  moreover have "(256 * be_nat bs + unat b) mod 256 = unat b"
    by simp
  ultimately show ?case using snoc by simp
qed simp

lemma be_nat_less: "be_nat bs < 256 ^ length bs"
proof (induction bs rule: rev_induct)
  case (snoc b bs)
  have "256 * be_nat bs + unat b < 256 * (be_nat bs + 1)"
    by simp
  also have "\<dots> \<le> 256 * 256 ^ length bs"
    using snoc by (simp only: mult_le_mono2 Suc_leI flip: Suc_eq_plus1)
  finally show ?case by simp
qed simp

definition be16 :: "u16 \<Rightarrow> bytes" where "be16 w = be_bytes 2 (unat w)"
definition be32 :: "u32 \<Rightarrow> bytes" where "be32 w = be_bytes 4 (unat w)"
definition be64 :: "u64 \<Rightarrow> bytes" where "be64 w = be_bytes 8 (unat w)"

definition u16_of :: "bytes \<Rightarrow> u16" where "u16_of bs = word_of_nat (be_nat bs)"
definition u32_of :: "bytes \<Rightarrow> u32" where "u32_of bs = word_of_nat (be_nat bs)"
definition u64_of :: "bytes \<Rightarrow> u64" where "u64_of bs = word_of_nat (be_nat bs)"

lemma length_be_words [simp, wire_simps]:
  "length (be16 w) = 2" "length (be32 v) = 4" "length (be64 x) = 8"
  by (simp_all add: be16_def be32_def be64_def)

lemma u16_of_be16 [simp, wire_simps]: "u16_of (be16 w) = w"
  using unsigned_less [where w = w and 'a = nat] by (simp add: u16_of_def be16_def be_nat_be_bytes)

lemma u32_of_be32 [simp, wire_simps]: "u32_of (be32 w) = w"
  using unsigned_less [where w = w and 'a = nat] by (simp add: u32_of_def be32_def be_nat_be_bytes)

lemma u64_of_be64 [simp, wire_simps]: "u64_of (be64 w) = w"
  using unsigned_less [where w = w and 'a = nat] by (simp add: u64_of_def be64_def be_nat_be_bytes)

lemma be32_u32_of [wire_simps]: "length bs = 4 \<Longrightarrow> be32 (u32_of bs) = bs"
  using be_nat_less [of bs] be_bytes_be_nat [of bs]
  by (simp add: be32_def u32_of_def unat_of_nat)

lemma be16_u16_of [wire_simps]: "length bs = 2 \<Longrightarrow> be16 (u16_of bs) = bs"
  using be_nat_less [of bs] be_bytes_be_nat [of bs]
  by (simp add: be16_def u16_of_def unat_of_nat)

section \<open>Reading from a byte source\<close>

text \<open>
  A reader over bytes already received is its remaining input.  \<^verbatim>\<open>io.ReadFull\<close> of \<open>n\<close> bytes
  gives \<^verbatim>\<open>io.EOF\<close> if nothing could be read and \<^verbatim>\<open>io.ErrUnexpectedEOF\<close> on a short read; a read
  of no bytes succeeds.
\<close>

datatype io_error = EOF | ErrUnexpectedEOF

definition read_full :: "nat \<Rightarrow> bytes \<Rightarrow> io_error + (bytes \<times> bytes)" where
  "read_full n inp =
     (if n \<le> length inp then Inr (take n inp, drop n inp)
      else if inp = [] then Inl EOF else Inl ErrUnexpectedEOF)"

lemma read_full_append [simp, wire_simps]:
  "length bs = n \<Longrightarrow> read_full n (bs @ rest) = Inr (bs, rest)"
  by (simp add: read_full_def)

lemma read_full_Inr:
  "read_full n inp = Inr (bs, rest) \<Longrightarrow> inp = bs @ rest \<and> length bs = n"
  by (auto simp: read_full_def split: if_splits)

section \<open>Slices\<close>

text \<open>\<open>b[i:j]\<close>; \<open>None\<close> is the panic when it is out of range.\<close>

definition go_slice :: "bytes \<Rightarrow> int \<Rightarrow> int \<Rightarrow> bytes option" where
  "go_slice b i j =
     (if 0 \<le> i \<and> i \<le> j \<and> j \<le> int (length b) then Some (take (nat (j - i)) (drop (nat i) b)) else None)"

lemma go_slice_mid:
  "length a = nat i \<Longrightarrow> 0 \<le> i \<Longrightarrow> i + int (length x) = j \<Longrightarrow> go_slice (a @ x @ c) i j = Some x"
  by (auto simp: go_slice_def)

section \<open>Binary search: sort.Search\<close>

text \<open>
  \<^verbatim>\<open>sort.Search(n, f)\<close> of the Go library halves \<open>[i, j)\<close> until it is empty and returns \<open>i\<close>.
\<close>

function search_loop :: "(nat \<Rightarrow> bool) \<Rightarrow> nat \<Rightarrow> nat \<Rightarrow> nat" where
  "search_loop f i j =
     (if i < j then
        let h = (i + j) div 2 in
        if \<not> f h then search_loop f (h + 1) j else search_loop f i h
      else i)"
  by pat_completeness auto
termination
  by (relation "measure (\<lambda>(f, i, j). j - i)") auto

declare search_loop.simps [simp del]

definition sort_search :: "nat \<Rightarrow> (nat \<Rightarrow> bool) \<Rightarrow> nat" where
  "sort_search n f = search_loop f 0 n"

definition splits_at :: "(nat \<Rightarrow> bool) \<Rightarrow> nat \<Rightarrow> nat \<Rightarrow> bool" where
  "splits_at f n m \<longleftrightarrow> m \<le> n \<and> (\<forall>k < m. \<not> f k) \<and> (\<forall>k. m \<le> k \<longrightarrow> k < n \<longrightarrow> f k)"

lemma search_loop_splits:
  assumes mono: "\<And>k l. k \<le> l \<Longrightarrow> l < n \<Longrightarrow> f k \<Longrightarrow> f l"
    and "i \<le> j" "j \<le> n" "\<forall>k < i. \<not> f k" "\<forall>k. j \<le> k \<longrightarrow> k < n \<longrightarrow> f k"
  shows "splits_at f n (search_loop f i j)"
  using assms(2-)
proof (induction "j - i" arbitrary: i j rule: less_induct)
  case less
  let ?h = "(i + j) div 2"
  consider "i = j" | "i < j" "f ?h" | "i < j" "\<not> f ?h"
    using less.prems(1) by linarith
  then show ?case
  proof cases
    case 1
    then show ?thesis
      using less.prems by (simp add: search_loop.simps [of f j j] splits_at_def)
  next
    case 2
    have "\<forall>k. ?h \<le> k \<longrightarrow> k < n \<longrightarrow> f k" using mono 2(2) by blast
    then have "splits_at f n (search_loop f i ?h)"
      using 2(1) less.prems(1,2) by (intro less.hyps less.prems(3)) linarith+
    with 2 show ?thesis by (simp add: search_loop.simps [of f i j] Let_def)
  next
    case 3
    have "\<forall>k < ?h + 1. \<not> f k"
    proof (intro allI impI notI)
      fix k assume "k < ?h + 1" "f k"
      moreover have "?h < n" using 3(1) less.prems(2) by linarith
      ultimately show False using mono [of k ?h] 3(2) by linarith
    qed
    then have "splits_at f n (search_loop f (?h + 1) j)"
      using 3(1) less.prems(1,2) by (intro less.hyps less.prems(4)) linarith+
    with 3 show ?thesis by (simp add: search_loop.simps [of f i j] Let_def)
  qed
qed

lemma sort_search_splits:
  assumes "\<And>k l. k \<le> l \<Longrightarrow> l < n \<Longrightarrow> f k \<Longrightarrow> f l"
  shows "splits_at f n (sort_search n f)"
  unfolding sort_search_def by (rule search_loop_splits [OF assms]) simp_all

lemma splits_atD:
  assumes "splits_at f n m"
  shows "m \<le> n" and "k < m \<Longrightarrow> \<not> f k" and "m \<le> k \<Longrightarrow> k < n \<Longrightarrow> f k"
  using assms by (simp_all add: splits_at_def)

end
