(* ===== verification/Segments.thy ===== *)
theory Segments
  imports Torrent_Prelude
begin

text \<open>
  Package \<^verbatim>\<open>segments\<close> (\<^verbatim>\<open>segments/segments.go\<close>, \<^verbatim>\<open>segments/index.go\<close>): a torrent is one byte
  string laid over consecutive segments (its files, or the memory maps of \<^verbatim>\<open>mmap_span\<close>).
  \<open>Scan\<close> walks the segment lengths and hands every piece of a wanted extent to a callback,
  \<open>Locate\<close> does the same from an index with a binary search.  An \<^verbatim>\<open>int64\<close> is an \<open>int\<close>.  The
  callback's captured variables are an explicit state.
\<close>

record extent =
  Start :: int
  Length :: int

definition End :: "extent \<Rightarrow> int" where
  "End e = Start e + Length e"

type_synonym 's callback = "'s \<Rightarrow> nat \<Rightarrow> extent \<Rightarrow> 's \<times> bool"

text \<open>
  The loop of \<open>Scan\<close>: \<open>i\<close> is its counter and the list is what the iterator \<open>haystack\<close> has
  left.  The result is the callback's final state and what \<open>Scan\<close> returns.
\<close>

fun Scan_from :: "nat \<Rightarrow> int list \<Rightarrow> extent \<Rightarrow> 's callback \<Rightarrow> 's \<Rightarrow> 's \<times> bool" where
  "Scan_from i haystack needle cb s =
     (if Length needle = 0 then (s, True)
      else case haystack of
        [] \<Rightarrow> (s, False)
      | l # rest \<Rightarrow>
          if Start needle < l \<or> (Start needle = l \<and> l = 0) then
            let e1 = \<lparr>Start = Start needle, Length = min l (End needle) - Start needle\<rparr> in
            if Length e1 \<ge> 0 then
              (case cb s i e1 of (s', cont) \<Rightarrow>
                 if \<not> cont then (s', True)
                 else Scan_from (i + 1) rest
                        \<lparr>Start = 0, Length = Length needle - Length e1\<rparr> cb s')
            else Scan_from (i + 1) rest needle cb s
          else Scan_from (i + 1) rest (needle\<lparr>Start := Start needle - l\<rparr>) cb s)"

declare Scan_from.simps [simp del]

definition Scan :: "int list \<Rightarrow> extent \<Rightarrow> 's callback \<Rightarrow> 's \<Rightarrow> 's \<times> bool" where
  "Scan haystack needle cb s = Scan_from 0 haystack needle cb s"

definition LocaterFromLengthIter :: "int list \<Rightarrow> extent \<Rightarrow> 's callback \<Rightarrow> 's \<Rightarrow> 's \<times> bool" where
  "LocaterFromLengthIter li e c s = Scan li e c s"

text \<open>The index: the running offset of every segment.\<close>

fun NewIndex_from :: "int \<Rightarrow> int list \<Rightarrow> extent list" where
  "NewIndex_from start [] = []"
| "NewIndex_from start (l # ls) = \<lparr>Start = start, Length = l\<rparr> # NewIndex_from (start + l) ls"

definition NewIndex :: "int list \<Rightarrow> extent list" where
  "NewIndex ls = NewIndex_from 0 ls"

definition iterSegments :: "extent list \<Rightarrow> int list" where
  "iterSegments segs = map Length segs"

definition Locate :: "extent list \<Rightarrow> extent \<Rightarrow> 's callback \<Rightarrow> 's \<Rightarrow> 's \<times> bool" where
  "Locate segs e cb s =
     (let first = sort_search (length segs) (\<lambda>i. End (segs ! i) > Start e) in
      if first = length segs then (s, False)
      else Scan (iterSegments (drop first segs))
             (e\<lparr>Start := Start e - Start (segs ! first)\<rparr>)
             (\<lambda>s i e'. cb s (i + first) e') s)"

text \<open>The callback that collects what it is called with, as the tests and the storage do.\<close>

definition collect :: "(nat \<times> extent) list callback" where
  "collect acc i e = (acc @ [(i, e)], True)"

section \<open>The bytes an extent denotes\<close>

text \<open>
  A byte of the torrent is a segment number and an offset in that segment; the torrent is the
  list of all of them in order.  This is what a scan has to cover.
\<close>

definition seg_bytes :: "nat \<Rightarrow> int \<Rightarrow> (nat \<times> int) list" where
  "seg_bytes i l = map (\<lambda>k. (i, int k)) [0..<nat l]"

fun layout_from :: "nat \<Rightarrow> int list \<Rightarrow> (nat \<times> int) list" where
  "layout_from i [] = []"
| "layout_from i (l # ls) = seg_bytes i l @ layout_from (i + 1) ls"

definition extent_bytes :: "nat \<times> extent \<Rightarrow> (nat \<times> int) list" where
  "extent_bytes p = map (\<lambda>k. (fst p, Start (snd p) + int k)) [0..<nat (Length (snd p))]"

definition covered :: "(nat \<times> extent) list \<Rightarrow> (nat \<times> int) list" where
  "covered es = concat (map extent_bytes es)"

lemma covered_simps [simp]:
  "covered [] = []" "covered (x # xs) = extent_bytes x @ covered xs"
  "covered (xs @ ys) = covered xs @ covered ys"
  by (simp_all add: covered_def)

lemma length_seg_bytes [simp, geom_simps]: "length (seg_bytes i l) = nat l"
  by (simp add: seg_bytes_def)

lemma length_layout_from [geom_simps]:
  "\<forall>l \<in> set ls. 0 \<le> l \<Longrightarrow> int (length (layout_from i ls)) = sum_list ls"
  by (induction ls arbitrary: i) auto

lemma seg_bytes_slice [geom_simps]:
  assumes "0 \<le> a" "0 \<le> n" "a + n \<le> l"
  shows "take (nat n) (drop (nat a) (seg_bytes i l)) = extent_bytes (i, \<lparr>Start = a, Length = n\<rparr>)"
proof (rule nth_equalityI)
  show "length (take (nat n) (drop (nat a) (seg_bytes i l))) =
        length (extent_bytes (i, \<lparr>Start = a, Length = n\<rparr>))"
    using assms by (simp add: extent_bytes_def)
next
  fix k assume "k < length (take (nat n) (drop (nat a) (seg_bytes i l)))"
  then have k: "k < nat n" and "nat a + k < nat l" using assms by auto
  then have "[0..<nat l] ! (nat a + k) = nat a + k" by simp
  with k show "take (nat n) (drop (nat a) (seg_bytes i l)) ! k =
        extent_bytes (i, \<lparr>Start = a, Length = n\<rparr>) ! k"
    using assms by (simp add: seg_bytes_def extent_bytes_def)
qed

section \<open>What a scan covers\<close>

definition scan_ok :: "int list \<Rightarrow> extent \<Rightarrow> bool" where
  "scan_ok ls n \<longleftrightarrow> (\<forall>l \<in> set ls. 0 \<le> l) \<and> 0 \<le> Start n \<and> 0 \<le> Length n"

lemma scan_ok_Cons:
  "scan_ok (l # ls) n \<Longrightarrow> 0 \<le> l \<and> 0 \<le> Start n \<and> 0 \<le> Length n \<and> (\<forall>l \<in> set ls. 0 \<le> l)"
  by (simp add: scan_ok_def)

lemma slice_here:
  assumes "0 \<le> st" "st \<le> l" "0 \<le> len" "e = min l (st + len) - st"
  shows "take (nat len) (drop (nat st) (seg_bytes i l @ xs)) =
    extent_bytes (i, \<lparr>Start = st, Length = e\<rparr>) @ take (nat (len - e)) xs"
proof -
  have e: "0 \<le> e" "st + e \<le> l" "e \<le> len" using assms by auto
  have "take (nat len) (drop (nat st) (seg_bytes i l @ xs)) =
    take (nat len) (drop (nat st) (seg_bytes i l)) @ take (nat len - (nat l - nat st)) xs"
    using assms(1,2) by simp
  also have "take (nat len) (drop (nat st) (seg_bytes i l)) =
      take (nat e) (drop (nat st) (seg_bytes i l))"
    using assms by (cases "st + len \<le> l") auto
  also have "\<dots> = extent_bytes (i, \<lparr>Start = st, Length = e\<rparr>)"
    using assms(1) e by (intro seg_bytes_slice)
  also have "nat len - (nat l - nat st) = nat (len - e)"
    using assms by auto
  finally show ?thesis .
qed

lemma slice_later:
  "0 \<le> l \<Longrightarrow> l \<le> st \<Longrightarrow>
    take n (drop (nat st) (seg_bytes i l @ xs)) = take n (drop (nat (st - l)) xs)"
  by (simp add: nat_diff_distrib)

lemma Scan_from_Nil: "Scan_from i [] n cb s = (s, Length n = 0)"
  by (simp add: Scan_from.simps)

lemma Scan_from_done: "Length n = 0 \<Longrightarrow> Scan_from i ls n cb s = (s, True)"
  by (simp add: Scan_from.simps)

lemma Scan_from_hit:
  assumes "Length n \<noteq> 0" "Start n < l \<or> (Start n = l \<and> l = 0)"
    "e = \<lparr>Start = Start n, Length = min l (End n) - Start n\<rparr>" "0 \<le> Length e"
  shows "Scan_from i (l # ls) n cb s =
    (if snd (cb s i e)
     then Scan_from (i + 1) ls \<lparr>Start = 0, Length = Length n - Length e\<rparr> cb (fst (cb s i e))
     else (fst (cb s i e), True))"
  using assms by (cases "cb s i e") (simp add: Scan_from.simps [of i "l # ls"] Let_def)

lemma Scan_from_miss:
  assumes "Length n \<noteq> 0"
    "\<not> ((Start n < l \<or> (Start n = l \<and> l = 0)) \<and> 0 \<le> min l (End n) - Start n)"
  shows "Scan_from i (l # ls) n cb s = Scan_from (i + 1) ls
    (if Start n < l \<or> (Start n = l \<and> l = 0) then n else n\<lparr>Start := Start n - l\<rparr>) cb s"
  using assms
  by (auto simp: Scan_from.simps [of i "l # ls"] Let_def)

lemma Scan_cases:
  fixes n :: extent
  obtains (empty) "Length n = 0"
  | (hit) e where "Length n \<noteq> 0" "Start n < l \<or> (Start n = l \<and> l = 0)"
      "e = \<lparr>Start = Start n, Length = min l (End n) - Start n\<rparr>" "0 \<le> Length e"
  | (miss) "Length n \<noteq> 0"
      "\<not> ((Start n < l \<or> (Start n = l \<and> l = 0)) \<and> 0 \<le> min l (End n) - Start n)"
  by fastforce

lemma collect_simps [simp]:
  "fst (collect acc i e) = acc @ [(i, e)]" "snd (collect acc i e) = True"
  by (simp_all add: collect_def)

text \<open>The extents a scan reports, and whether it got to the end of the needle.\<close>

lemma Scan_from_collect:
  assumes "scan_ok ls n"
  shows "\<exists>es. Scan_from i ls n collect acc =
      (acc @ es, Length n = 0 \<or> Start n + Length n \<le> sum_list ls) \<and>
    covered es = take (nat (Length n)) (drop (nat (Start n)) (layout_from i ls))"
  using assms
proof (induction ls arbitrary: i n acc)
  case Nil
  then show ?case by (auto simp: Scan_from.simps [of i "[]"] scan_ok_def)
next
  case (Cons l ls)
  note ok = scan_ok_Cons [OF Cons.prems]
  have nonneg: "0 \<le> sum_list ls" using ok by (auto intro: sum_list_nonneg)
  let ?e = "min l (End n) - Start n"
  consider "Length n = 0" | "Length n \<noteq> 0" "Start n < l \<or> Start n = l \<and> l = 0"
    | "Length n \<noteq> 0" "l \<le> Start n" "\<not> (Start n = l \<and> l = 0)" by linarith
  then show ?case
  proof cases
    case 1
    then show ?thesis by (simp add: Scan_from.simps [of i "l # ls"])
  next
    case 2
    let ?n' = "\<lparr>Start = 0, Length = Length n - ?e\<rparr>"
    have sl: "Start n \<le> l" using 2 by auto
    have e: "0 \<le> ?e" "?e \<le> Length n" using 2 ok by (auto simp: End_def)
    then have "scan_ok ls ?n'" using ok by (simp add: scan_ok_def)
    from Cons.IH [OF this, of "i + 1" "acc @ [(i, \<lparr>Start = Start n, Length = ?e\<rparr>)]"]
    obtain es where es: "Scan_from (i + 1) ls ?n' collect (acc @ [(i, \<lparr>Start = Start n, Length = ?e\<rparr>)]) =
        (acc @ [(i, \<lparr>Start = Start n, Length = ?e\<rparr>)] @ es, Length n - ?e = 0 \<or> Length n - ?e \<le> sum_list ls)"
      "covered es = take (nat (Length n - ?e)) (layout_from (i + 1) ls)" by auto
    have "Scan_from i (l # ls) n collect acc =
        (acc @ (i, \<lparr>Start = Start n, Length = ?e\<rparr>) # es, Length n - ?e = 0 \<or> Length n - ?e \<le> sum_list ls)"
      using 2 e es(1) by (simp add: Scan_from.simps [of i "l # ls"] Let_def collect_def)
    moreover have "(Length n - ?e = 0 \<or> Length n - ?e \<le> sum_list ls) =
        (Length n = 0 \<or> Start n + Length n \<le> sum_list (l # ls))"
      using 2(1) sl nonneg unfolding End_def sum_list.Cons by linarith
    moreover have "covered ((i, \<lparr>Start = Start n, Length = ?e\<rparr>) # es) =
        take (nat (Length n)) (drop (nat (Start n)) (layout_from i (l # ls)))"
      using slice_here [of "Start n" l "Length n" ?e i "layout_from (i + 1) ls"] sl ok
      by (simp add: End_def es(2) del: drop_append take_append)
    ultimately show ?thesis by (intro exI [of _ "(i, \<lparr>Start = Start n, Length = ?e\<rparr>) # es"]) simp
  next
    case 3
    let ?n' = "n\<lparr>Start := Start n - l\<rparr>"
    have "scan_ok ls ?n'" using 3 ok by (simp add: scan_ok_def)
    from Cons.IH [OF this, of "i + 1" acc]
    obtain es where es: "Scan_from (i + 1) ls ?n' collect acc =
        (acc @ es, Length n = 0 \<or> Start n - l + Length n \<le> sum_list ls)"
      "covered es = take (nat (Length n)) (drop (nat (Start n - l)) (layout_from (i + 1) ls))"
      by auto
    moreover have "Scan_from i (l # ls) n collect acc = Scan_from (i + 1) ls ?n' collect acc"
      using 3 by (subst Scan_from_miss) auto
    ultimately show ?thesis
      using slice_later [of l "Start n"] 3(2) ok by (intro exI [of _ es]) (simp, linarith)
  qed
qed

text \<open>
  A callback that may stop the scan sees a prefix of the same extents: \<open>feed\<close> runs it over
  them, the flag telling whether it asked to go on.
\<close>

fun feed :: "'s callback \<Rightarrow> 's \<Rightarrow> (nat \<times> extent) list \<Rightarrow> 's \<times> bool" where
  "feed cb s [] = (s, True)"
| "feed cb s ((i, e) # es) = (case cb s i e of (s', cont) \<Rightarrow> if cont then feed cb s' es else (s', False))"

definition finish :: "bool \<Rightarrow> 's \<times> bool \<Rightarrow> 's \<times> bool" where
  "finish b r = (fst r, \<not> snd r \<or> b)"

lemma Scan_from_collect_acc:
  "Scan_from i ls n collect acc =
    (acc @ fst (Scan_from i ls n collect []), snd (Scan_from i ls n collect []))"
proof (induction ls arbitrary: i n acc)
  case (Cons l ls)
  show ?case
  proof (cases rule: Scan_cases [where n = n and l = l])
    case (hit e)
    show ?thesis
      using Cons.IH [of "i + 1" _ "acc @ [(i, e)]"] Cons.IH [of "i + 1" _ "[(i, e)]"]
      by (simp add: Scan_from_hit [OF hit])
  next
    case miss
    show ?thesis unfolding Scan_from_miss [OF miss] by (rule Cons.IH)
  qed (simp add: Scan_from_done)
qed (simp add: Scan_from_Nil)

lemma Scan_from_feed:
  "Scan_from i ls n cb s =
    finish (snd (Scan_from i ls n collect [])) (feed cb s (fst (Scan_from i ls n collect [])))"
proof (induction ls arbitrary: i n s)
  case (Cons l ls)
  show ?case
  proof (cases rule: Scan_cases [where n = n and l = l])
    case (hit e)
    let ?n' = "\<lparr>Start = 0, Length = Length n - Length e\<rparr>"
    have "Scan_from (i + 1) ls ?n' collect [(i, e)] =
        ((i, e) # fst (Scan_from (i + 1) ls ?n' collect []), snd (Scan_from (i + 1) ls ?n' collect []))"
      using Scan_from_collect_acc [of "i + 1" ls ?n' "[(i, e)]"] by simp
    then show ?thesis
      using Cons.IH [of "i + 1" ?n' "fst (cb s i e)"]
      by (cases "cb s i e") (simp add: Scan_from_hit [OF hit] finish_def)
  next
    case miss
    show ?thesis unfolding Scan_from_miss [OF miss] by (rule Cons.IH)
  qed (simp add: Scan_from_done finish_def)
qed (simp add: Scan_from_Nil finish_def)

section \<open>The index\<close>

lemma length_NewIndex_from [simp]: "length (NewIndex_from a ls) = length ls"
  by (induction ls arbitrary: a) auto

lemma NewIndex_from_nth:
  "i < length ls \<Longrightarrow>
    NewIndex_from a ls ! i = \<lparr>Start = a + sum_list (take i ls), Length = ls ! i\<rparr>"
  by (induction ls arbitrary: a i) (auto simp: nth_Cons' take_Cons' split: if_splits)

lemma iterSegments_NewIndex_from: "iterSegments (drop k (NewIndex_from a ls)) = drop k ls"
proof -
  have "map Length (NewIndex_from a ls) = ls" by (induction ls arbitrary: a) auto
  then show ?thesis unfolding iterSegments_def by (simp flip: drop_map)
qed

lemma End_NewIndex_nth:
  "i < length ls \<Longrightarrow> End (NewIndex ls ! i) = sum_list (take (Suc i) ls)"
  by (simp add: NewIndex_def NewIndex_from_nth End_def take_Suc_conv_app_nth)

lemma sum_list_take_mono:
  "\<forall>l \<in> set ls. (0::int) \<le> l \<Longrightarrow> i \<le> j \<Longrightarrow> sum_list (take i ls) \<le> sum_list (take j ls)"
proof (induction ls arbitrary: i j)
  case (Cons l ls)
  then show ?case
    by (cases i; cases j) (auto intro!: add_nonneg_nonneg sum_list_nonneg dest: in_set_takeD)
qed simp

lemma Scan_from_shift:
  "Scan_from (i + k) ls n cb s = Scan_from i ls n (\<lambda>s j e. cb s (j + k) e) s"
proof (induction ls arbitrary: i n s)
  case (Cons l ls)
  show ?case
  proof (cases rule: Scan_cases [where n = n and l = l])
    case (hit e)
    show ?thesis
      using Cons.IH [of "i + 1"] by (simp add: Scan_from_hit [OF hit])
  next
    case miss
    show ?thesis using Cons.IH [of "i + 1"] by (simp add: Scan_from_miss [OF miss])
  qed (simp add: Scan_from_done)
qed (simp add: Scan_from_Nil)

lemma drop_layout_from:
  assumes "\<forall>l \<in> set ls. 0 \<le> l" "k \<le> length ls" "sum_list (take k ls) \<le> st"
  shows "drop (nat st) (layout_from i ls) =
    drop (nat (st - sum_list (take k ls))) (layout_from (i + k) (drop k ls))"
  using assms
proof (induction ls arbitrary: i k st)
  case (Cons l ls)
  show ?case
  proof (cases k)
    case (Suc k')
    have st: "l + sum_list (take k' ls) \<le> st" using Cons.prems Suc by simp
    moreover have "0 \<le> sum_list (take k' ls)"
      using Cons.prems(1) by (auto intro!: sum_list_nonneg dest: in_set_takeD)
    ultimately have "nat st - nat l = nat (st - l)" "nat st \<ge> nat l" using Cons.prems(1) by auto
    then show ?thesis
      using Cons.IH [of k' "st - l" "i + 1"] Cons.prems Suc st by (simp add: algebra_simps)
  qed simp
qed simp

lemma sort_search_End:
  assumes "scan_ok ls n"
  shows "splits_at (\<lambda>i. End (NewIndex ls ! i) > Start n) (length ls)
    (sort_search (length ls) (\<lambda>i. End (NewIndex ls ! i) > Start n))"
proof (rule sort_search_splits)
  fix k l assume "k \<le> l" "l < length ls" "End (NewIndex ls ! k) > Start n"
  moreover from this have "sum_list (take (Suc k) ls) \<le> sum_list (take (Suc l) ls)"
    using assms by (intro sum_list_take_mono) (auto simp: scan_ok_def)
  ultimately show "End (NewIndex ls ! l) > Start n" by (simp add: End_NewIndex_nth)
qed

lemma search_End_prefix:
  assumes "scan_ok ls n" "k \<le> length ls" "\<forall>i < k. \<not> End (NewIndex ls ! i) > Start n"
  shows "sum_list (take k ls) \<le> Start n"
proof (cases k)
  case 0
  then show ?thesis using assms(1) by (simp add: scan_ok_def)
next
  case (Suc j)
  then have "\<not> End (NewIndex ls ! j) > Start n" using assms(3) by blast
  then show ?thesis using Suc assms(2) by (simp add: End_NewIndex_nth)
qed

lemma Scan_collect:
  assumes "scan_ok ls n"
  shows "covered (fst (Scan ls n collect [])) = take (nat (Length n)) (drop (nat (Start n)) (layout_from 0 ls))"
    and "snd (Scan ls n collect []) \<longleftrightarrow> Length n = 0 \<or> Start n + Length n \<le> sum_list ls"
  using Scan_from_collect [OF assms, of 0 "[]"] by (auto simp: Scan_def)

lemma Locate_miss:
  assumes "scan_ok ls n" "Locate (NewIndex ls) n cb s = r"
    "sort_search (length ls) (\<lambda>i. End (NewIndex ls ! i) > Start n) = length ls"
  shows "r = (s, False)" and "sum_list ls \<le> Start n"
proof -
  show "r = (s, False)"
    using assms(2,3) by (simp add: Locate_def NewIndex_def)
  show "sum_list ls \<le> Start n"
    using search_End_prefix [OF assms(1), of "length ls"] splits_atD(2) [OF sort_search_End [OF assms(1)]]
    by (simp add: assms(3))
qed

lemma Locate_hit:
  assumes "scan_ok ls n" "k < length ls"
    "sort_search (length ls) (\<lambda>i. End (NewIndex ls ! i) > Start n) = k"
  shows "Locate (NewIndex ls) n cb s =
      Scan_from k (drop k ls) (n\<lparr>Start := Start n - sum_list (take k ls)\<rparr>) cb s"
    and "sum_list (take k ls) \<le> Start n"
proof -
  show "Locate (NewIndex ls) n cb s =
      Scan_from k (drop k ls) (n\<lparr>Start := Start n - sum_list (take k ls)\<rparr>) cb s"
    using assms(2,3) Scan_from_shift [of 0 k _ _ cb s, symmetric]
    by (simp add: Locate_def NewIndex_def NewIndex_from_nth iterSegments_NewIndex_from Scan_def)
  show "sum_list (take k ls) \<le> Start n"
    using search_End_prefix [OF assms(1), of k] splits_atD(2) [OF sort_search_End [OF assms(1)]]
      assms(2) by (simp add: assms(3))
qed

lemma layout_beyond:
  assumes "scan_ok ls n" "sum_list ls \<le> Start n"
  shows "drop (nat (Start n)) (layout_from i ls) = []"
  using assms length_layout_from [of ls i] by (simp add: scan_ok_def)

lemma Locate_collect:
  assumes "scan_ok ls n"
  shows "covered (fst (Locate (NewIndex ls) n collect [])) =
      take (nat (Length n)) (drop (nat (Start n)) (layout_from 0 ls))"
    and "0 < Length n \<Longrightarrow> snd (Locate (NewIndex ls) n collect []) \<longleftrightarrow> Start n + Length n \<le> sum_list ls"
proof -
  define k where "k = sort_search (length ls) (\<lambda>i. End (NewIndex ls ! i) > Start n)"
  have "k \<le> length ls" using splits_atD(1) [OF sort_search_End [OF assms]] by (simp add: k_def)
  then have "covered (fst (Locate (NewIndex ls) n collect [])) =
      take (nat (Length n)) (drop (nat (Start n)) (layout_from 0 ls)) \<and>
    (0 < Length n \<longrightarrow> snd (Locate (NewIndex ls) n collect []) = (Start n + Length n \<le> sum_list ls))"
  proof (cases "k = length ls")
    case True
    note miss = Locate_miss [OF assms refl True [unfolded k_def]]
    show ?thesis using layout_beyond [OF assms miss(2)] miss(2) by (simp add: miss(1))
  next
    case False
    with \<open>k \<le> length ls\<close> have k: "k < length ls" by simp
    let ?n = "n\<lparr>Start := Start n - sum_list (take k ls)\<rparr>"
    note hit = Locate_hit [OF assms k k_def [symmetric]]
    have "scan_ok (drop k ls) ?n" using assms hit(2) by (auto simp: scan_ok_def dest: in_set_dropD)
    from Scan_from_collect [OF this, of k "[]"]
    have *: "covered (fst (Locate (NewIndex ls) n collect [])) =
        take (nat (Length n)) (drop (nat (Start ?n)) (layout_from k (drop k ls)))"
      "snd (Locate (NewIndex ls) n collect []) =
        (Length n = 0 \<or> Start ?n + Length n \<le> sum_list (drop k ls))"
      unfolding hit(1) by (elim exE conjE, simp)+
    have "sum_list ls = sum_list (take k ls) + sum_list (drop k ls)"
      by (metis append_take_drop_id sum_list_append)
    moreover have "drop (nat (Start n)) (layout_from 0 ls) = drop (nat (Start ?n)) (layout_from k (drop k ls))"
      using drop_layout_from [of ls k "Start n" 0] assms k hit(2) by (simp add: scan_ok_def)
    ultimately show ?thesis using * by simp linarith
  qed
  then show "covered (fst (Locate (NewIndex ls) n collect [])) =
      take (nat (Length n)) (drop (nat (Start n)) (layout_from 0 ls))"
    "0 < Length n \<Longrightarrow> snd (Locate (NewIndex ls) n collect []) \<longleftrightarrow> Start n + Length n \<le> sum_list ls"
    by blast+
qed

section \<open>The contract of a locater\<close>

text \<open>
  \<^verbatim>\<open>segments.Locater\<close> is the interface the storages use: given the lengths of the segments and
  an extent, the segment extents it names.  What a client reads through it is the extent of the
  concatenated data.
\<close>

definition read_extents :: "'a list list \<Rightarrow> (nat \<times> extent) list \<Rightarrow> 'a list" where
  "read_extents data es =
     concat (map (\<lambda>(i, e). take (nat (Length e)) (drop (nat (Start e)) (data ! i))) es)"

definition byte_at :: "'a list list \<Rightarrow> nat \<times> int \<Rightarrow> 'a" where
  "byte_at data p = data ! fst p ! nat (snd p)"

lemma layout_bytes:
  "map (byte_at (pre @ data)) (layout_from (length pre) (map (\<lambda>d. int (length d)) data)) = concat data"
proof (induction data arbitrary: pre)
  case (Cons d ds)
  have "map (byte_at (pre @ d # ds)) (seg_bytes (length pre) (int (length d))) = d"
    by (rule nth_equalityI) (simp_all add: seg_bytes_def byte_at_def)
  moreover have "map (byte_at (pre @ d # ds)) (layout_from (Suc (length pre)) (map (\<lambda>d. int (length d)) ds)) =
      concat ds"
    using Cons.IH [of "pre @ [d]"] by simp
  ultimately show ?case by simp
qed simp

lemma set_seg_bytes: "(p, j) \<in> set (seg_bytes i l) \<longleftrightarrow> p = i \<and> 0 \<le> j \<and> j < l"
  by (auto simp: seg_bytes_def image_iff intro!: bexI [of _ "nat j"])

lemma set_layout_from:
  "(p, j) \<in> set (layout_from i ls) \<longleftrightarrow> i \<le> p \<and> p - i < length ls \<and> 0 \<le> j \<and> j < ls ! (p - i)"
proof (induction ls arbitrary: i p)
  case (Cons l ls)
  show ?case
    by (cases "p = i") (auto simp: Cons.IH set_seg_bytes nth_Cons' Suc_le_eq le_less)
qed simp

lemma extent_bytes_in_range:
  assumes "set (extent_bytes (i, e)) \<subseteq> set (layout_from 0 ls)" "0 < Length e"
  shows "i < length ls" "0 \<le> Start e" "End e \<le> ls ! i"
proof -
  have "(i, Start e + int k) \<in> set (layout_from 0 ls)" if "k < nat (Length e)" for k
    using assms(1) that by (auto simp: extent_bytes_def)
  from this [of 0] this [of "nat (Length e) - 1"] assms(2)
  show "i < length ls" "0 \<le> Start e" "End e \<le> ls ! i"
    by (auto simp: set_layout_from End_def)
qed

lemma read_one_extent:
  assumes "set (extent_bytes (i, e)) \<subseteq> set (layout_from 0 (map (\<lambda>d. int (length d)) data))"
  shows "take (nat (Length e)) (drop (nat (Start e)) (data ! i)) = map (byte_at data) (extent_bytes (i, e))"
proof (cases "0 < Length e")
  case True
  note r = extent_bytes_in_range [OF assms True]
  then have "End e \<le> int (length (data ! i))" by simp
  with r(2) True show ?thesis
    by (intro nth_equalityI) (auto simp: extent_bytes_def byte_at_def End_def nat_add_distrib)
qed (simp add: extent_bytes_def)

lemma read_extents_covered:
  assumes "set (covered es) \<subseteq> set (layout_from 0 (map (\<lambda>d. int (length d)) data))"
  shows "read_extents data es = map (byte_at data) (covered es)"
  using assms
  by (induction es) (auto simp: read_extents_def read_one_extent)

lemma int_length_concat: "int (length (concat xss)) = sum_list (map (\<lambda>d. int (length d)) xss)"
  by (induction xss) auto

locale locater =
  fixes locate :: "int list \<Rightarrow> extent \<Rightarrow> (nat \<times> extent) list \<times> bool"
  assumes locate_covers: "scan_ok ls e \<Longrightarrow>
      covered (fst (locate ls e)) = take (nat (Length e)) (drop (nat (Start e)) (layout_from 0 ls))"
    and locate_all: "scan_ok ls e \<Longrightarrow> 0 < Length e \<Longrightarrow>
      snd (locate ls e) \<longleftrightarrow> Start e + Length e \<le> sum_list ls"
begin

lemma locate_reads:
  assumes "0 \<le> Start e" "0 \<le> Length e"
  shows "read_extents data (fst (locate (map (\<lambda>d. int (length d)) data) e)) =
    take (nat (Length e)) (drop (nat (Start e)) (concat data))"
proof -
  let ?ls = "map (\<lambda>d. int (length d)) data"
  have ok: "scan_ok ?ls e" using assms by (auto simp: scan_ok_def)
  have "set (covered (fst (locate ?ls e))) \<subseteq> set (layout_from 0 ?ls)"
    unfolding locate_covers [OF ok] by (meson order_trans set_drop_subset set_take_subset)
  then have "read_extents data (fst (locate ?ls e)) =
      map (byte_at data) (take (nat (Length e)) (drop (nat (Start e)) (layout_from 0 ?ls)))"
    by (simp add: read_extents_covered locate_covers [OF ok])
  also have "\<dots> = take (nat (Length e)) (drop (nat (Start e)) (concat data))"
    using layout_bytes [of "[]" data] by (simp flip: take_map drop_map)
  finally show ?thesis .
qed

lemma locate_reads_all:
  assumes "0 \<le> Start e" "0 < Length e"
    "snd (locate (map (\<lambda>d. int (length d)) data) e)"
  shows "int (length (read_extents data (fst (locate (map (\<lambda>d. int (length d)) data) e)))) = Length e"
proof -
  have "scan_ok (map (\<lambda>d. int (length d)) data) e" using assms by (auto simp: scan_ok_def)
  then have "Start e + Length e \<le> int (length (concat data))"
    using locate_all assms(2,3) by (simp add: int_length_concat)
  then show ?thesis using locate_reads [of e data] assms by simp
qed

end

interpretation scan: locater "\<lambda>ls e. Scan ls e collect []"
  by unfold_locales (simp_all add: Scan_collect)

interpretation index: locater "\<lambda>ls e. Locate (NewIndex ls) e collect []"
  by unfold_locales (simp_all add: Locate_collect)

section \<open>Properties\<close>





end
