(* ===== verification/PeerProtocol.thy ===== *)
theory PeerProtocol
  imports Torrent_Prelude
begin

text \<open>
  Package \<^verbatim>\<open>peer_protocol\<close>: the wire format of peer messages (\<^verbatim>\<open>msg.go\<close>, \<^verbatim>\<open>decoder.go\<close>,
  \<^verbatim>\<open>int.go\<close>, \<^verbatim>\<open>protocol.go\<close>), the extension bits and the handshake (\<^verbatim>\<open>handshake.go\<close>), request
  specs and the sizes of metadata pieces.  \<^verbatim>\<open>pp.Integer\<close> is a 32 bit word, so that every
  \<^verbatim>\<open>length -= k\<close> of the decoder wraps as it does in the code.
\<close>

unbundle bit_operations_syntax

section \<open>Message types\<close>

abbreviation (input) mtChoke :: byte where "mtChoke \<equiv> 0"
abbreviation (input) mtUnchoke :: byte where "mtUnchoke \<equiv> 1"
abbreviation (input) mtInterested :: byte where "mtInterested \<equiv> 2"
abbreviation (input) mtNotInterested :: byte where "mtNotInterested \<equiv> 3"
abbreviation (input) mtHave :: byte where "mtHave \<equiv> 4"
abbreviation (input) mtBitfield :: byte where "mtBitfield \<equiv> 5"
abbreviation (input) mtRequest :: byte where "mtRequest \<equiv> 6"
abbreviation (input) mtPiece :: byte where "mtPiece \<equiv> 7"
abbreviation (input) mtCancel :: byte where "mtCancel \<equiv> 8"
abbreviation (input) mtPort :: byte where "mtPort \<equiv> 9"
abbreviation (input) mtSuggest :: byte where "mtSuggest \<equiv> 13"
abbreviation (input) mtHaveAll :: byte where "mtHaveAll \<equiv> 14"
abbreviation (input) mtHaveNone :: byte where "mtHaveNone \<equiv> 15"
abbreviation (input) mtReject :: byte where "mtReject \<equiv> 16"
abbreviation (input) mtAllowedFast :: byte where "mtAllowedFast \<equiv> 17"
abbreviation (input) mtExtended :: byte where "mtExtended \<equiv> 20"

definition FastExtension :: "byte \<Rightarrow> bool" where
  "FastExtension mt \<longleftrightarrow> mtSuggest \<le> mt \<and> mt \<le> mtAllowedFast"

text \<open>The lazy union \<^verbatim>\<open>Message\<close>; \<open>zero_message\<close> is Go's zero value.\<close>

record message =
  Keepalive :: bool
  MType :: byte
  Index :: u32
  Begin :: u32
  MLength :: u32
  MPiece :: bytes
  MBitfield :: "bool list"
  ExtendedID :: int
  ExtendedPayload :: bytes
  MPort :: u16

definition zero_message :: message where
  "zero_message = \<lparr>Keepalive = False, MType = 0, Index = 0, Begin = 0, MLength = 0, MPiece = [],
     MBitfield = [], ExtendedID = 0, ExtendedPayload = [], MPort = 0\<rparr>"

definition typed_message :: "byte \<Rightarrow> message" where
  "typed_message t = zero_message\<lparr>MType := t\<rparr>"

definition MakeCancelMessage :: "u32 \<Rightarrow> u32 \<Rightarrow> u32 \<Rightarrow> message" where
  "MakeCancelMessage piece offset len =
     zero_message\<lparr>MType := mtCancel, Index := piece, Begin := offset, MLength := len\<rparr>"

record request_spec =
  RIndex :: u32
  RBegin :: u32
  RLength :: u32

definition RequestSpec :: "message \<Rightarrow> request_spec" where
  "RequestSpec msg = \<lparr>RIndex = Index msg, RBegin = Begin msg,
     RLength = (if MType msg = mtPiece then word_of_nat (length (MPiece msg)) else MLength msg)\<rparr>"

section \<open>Bitfields\<close>

fun marshalBitfield_loop :: "nat \<Rightarrow> bool list \<Rightarrow> bytes \<Rightarrow> bytes" where
  "marshalBitfield_loop i [] b = b"
| "marshalBitfield_loop i (have # bf) b =
     (if \<not> have then marshalBitfield_loop (i + 1) bf b
      else let c = b ! (i div 8);
               c = c OR push_bit (7 - i mod 8) 1
           in marshalBitfield_loop (i + 1) bf (b[i div 8 := c]))"

definition marshalBitfield :: "bool list \<Rightarrow> bytes" where
  "marshalBitfield bf = marshalBitfield_loop 0 bf (replicate ((length bf + 7) div 8) 0)"

definition byte_bits :: "byte \<Rightarrow> bool list" where
  "byte_bits c = map (\<lambda>i. (drop_bit i c) AND 1 = 1) [7, 6, 5, 4, 3, 2, 1, 0]"

definition unmarshalBitfield :: "bytes \<Rightarrow> bool list" where
  "unmarshalBitfield b = concat (map byte_bits b)"

section \<open>Encoding\<close>

text \<open>
  \<open>MarshalBinary\<close> returns data and an error; for an unknown type it returns both (the data is
  the type byte alone).
\<close>

datatype marshal_error = UnknownMessageType byte

definition message_body :: "message \<Rightarrow> bytes \<times> marshal_error option" where
  "message_body msg =
     (let t = MType msg in
      if t \<in> {mtChoke, mtUnchoke, mtInterested, mtNotInterested, mtHaveAll, mtHaveNone} then ([t], None)
      else if t = mtHave then (t # be32 (Index msg), None)
      else if t \<in> {mtRequest, mtCancel, mtReject} then
        (t # be32 (Index msg) @ be32 (Begin msg) @ be32 (MLength msg), None)
      else if t = mtBitfield then (t # marshalBitfield (MBitfield msg), None)
      else if t = mtPiece then (t # be32 (Index msg) @ be32 (Begin msg) @ MPiece msg, None)
      else if t = mtExtended then (t # word_of_int (ExtendedID msg) # ExtendedPayload msg, None)
      else if t = mtPort then (t # be16 (MPort msg), None)
      else ([t], Some (UnknownMessageType t)))"

definition MarshalBinary :: "message \<Rightarrow> bytes \<times> marshal_error option" where
  "MarshalBinary msg =
     (let (buf, err) = (if Keepalive msg then ([], None) else message_body msg) in
      (be32 (word_of_nat (length buf)) @ buf, err))"

text \<open>\<open>MustMarshalBinary\<close> panics (\<open>None\<close>) on an error.\<close>

definition MustMarshalBinary :: "message \<Rightarrow> bytes option" where
  "MustMarshalBinary msg =
     (case MarshalBinary msg of (b, None) \<Rightarrow> Some b | (b, Some e) \<Rightarrow> None)"

section \<open>Decoding\<close>

datatype decode_error =
    ReadingLength io_error
  | MessageTooLong
  | ReadErr io_error
  | PieceTooLong
  | ReadingPieceData io_error
  | UnknownType byte
  | UnusedBytes u32 byte
  | NilPool

text \<open>
  The decoder: its pool hands out buffers of a capacity, \<open>None\<close> standing for a nil pool.
\<close>

record decoder =
  PoolCap :: "nat option"
  MaxLength :: u32

fun ReadInteger :: "bytes \<Rightarrow> io_error + (u32 \<times> bytes)" where
  "ReadInteger inp = (case read_full 4 inp of
     Inl e \<Rightarrow> Inl e
   | Inr (b, rest) \<Rightarrow> Inr (u32_of b, rest))"

definition ReadByte :: "bytes \<Rightarrow> io_error + (byte \<times> bytes)" where
  "ReadByte inp = (case inp of [] \<Rightarrow> Inl EOF | c # rest \<Rightarrow> Inr (c, rest))"

text \<open>
  The end of \<open>Decode\<close>: bytes the message has left are an error.
\<close>

definition check_unused :: "u32 \<Rightarrow> message \<Rightarrow> bytes \<Rightarrow> decode_error + (message \<times> bytes)" where
  "check_unused len msg rest =
     (if len \<noteq> 0 then Inl (UnusedBytes len (MType msg)) else Inr (msg, rest))"

definition decode_three :: "u32 \<Rightarrow> message \<Rightarrow> bytes \<Rightarrow> decode_error + (message \<times> bytes)" where
  "decode_three len msg inp =
     (case ReadInteger inp of Inl e \<Rightarrow> Inl (ReadErr e) | Inr (i, inp) \<Rightarrow>
      case ReadInteger inp of Inl e \<Rightarrow> Inl (ReadErr e) | Inr (b, inp) \<Rightarrow>
      case ReadInteger inp of Inl e \<Rightarrow> Inl (ReadErr e) | Inr (l, inp) \<Rightarrow>
        check_unused (len - 12) (msg\<lparr>Index := i, Begin := b, MLength := l\<rparr>) inp)"

definition decode_piece :: "decoder \<Rightarrow> u32 \<Rightarrow> message \<Rightarrow> bytes \<Rightarrow> decode_error + (message \<times> bytes)" where
  "decode_piece d len msg inp =
     (case ReadInteger inp of Inl e \<Rightarrow> Inl (ReadErr e) | Inr (i, inp) \<Rightarrow>
      case ReadInteger inp of Inl e \<Rightarrow> Inl (ReadErr e) | Inr (b, inp) \<Rightarrow>
      let dataLen = unat (len - 8) in
      case PoolCap d of None \<Rightarrow> Inl NilPool | Some cap \<Rightarrow>
        if cap < dataLen then Inl PieceTooLong
        else case read_full dataLen inp of
          Inl e \<Rightarrow> Inl (ReadingPieceData e)
        | Inr (p, inp) \<Rightarrow> Inr (msg\<lparr>Index := i, Begin := b, MPiece := p\<rparr>, inp))"

definition decode_extended :: "u32 \<Rightarrow> message \<Rightarrow> bytes \<Rightarrow> decode_error + (message \<times> bytes)" where
  "decode_extended len msg inp =
     (case ReadByte inp of Inl e \<Rightarrow> Inl (ReadErr e) | Inr (b, inp) \<Rightarrow>
      case read_full (unat (len - 1)) inp of
        Inl e \<Rightarrow> Inl (ReadErr ErrUnexpectedEOF)
      | Inr (p, inp) \<Rightarrow> Inr (msg\<lparr>ExtendedID := uint b, ExtendedPayload := p\<rparr>, inp))"

text \<open>The switch of \<open>Decode\<close>; \<open>len\<close> is what the frame has left after the type byte.\<close>

definition decode_body :: "decoder \<Rightarrow> u32 \<Rightarrow> message \<Rightarrow> bytes \<Rightarrow> decode_error + (message \<times> bytes)" where
  "decode_body d len msg inp =
     (let t = MType msg in
      if t \<in> {mtChoke, mtUnchoke, mtInterested, mtNotInterested, mtHaveAll, mtHaveNone} then
        check_unused len msg inp
      else if t \<in> {mtHave, mtAllowedFast, mtSuggest} then
        (case ReadInteger inp of Inl e \<Rightarrow> Inl (ReadErr e)
         | Inr (i, inp) \<Rightarrow> check_unused (len - 4) (msg\<lparr>Index := i\<rparr>) inp)
      else if t \<in> {mtRequest, mtCancel, mtReject} then decode_three len msg inp
      else if t = mtBitfield then
        (case read_full (unat len) inp of Inl e \<Rightarrow> Inl (ReadErr e)
         | Inr (b, inp) \<Rightarrow> Inr (msg\<lparr>MBitfield := unmarshalBitfield b\<rparr>, inp))
      else if t = mtPiece then decode_piece d len msg inp
      else if t = mtExtended then decode_extended len msg inp
      else if t = mtPort then
        (case read_full 2 inp of Inl e \<Rightarrow> Inl (ReadErr e)
         | Inr (b, inp) \<Rightarrow> check_unused (len - 2) (msg\<lparr>MPort := u16_of b\<rparr>) inp)
      else Inl (UnknownType t))"

definition Decode :: "decoder \<Rightarrow> message \<Rightarrow> bytes \<Rightarrow> decode_error + (message \<times> bytes)" where
  "Decode d msg inp =
     (case ReadInteger inp of Inl e \<Rightarrow> Inl (ReadingLength e) | Inr (len, inp) \<Rightarrow>
      if len > MaxLength d then Inl MessageTooLong
      else if len = 0 then Inr (msg\<lparr>Keepalive := True\<rparr>, inp)
      else case ReadByte inp of Inl e \<Rightarrow> Inl (ReadErr e) | Inr (c, inp) \<Rightarrow>
        decode_body d (len - 1) (msg\<lparr>MType := c\<rparr>) inp)"

datatype unmarshal_error = DecodeErr decode_error | TrailingBytes

definition UnmarshalBinary :: "message \<Rightarrow> bytes \<Rightarrow> unmarshal_error + message" where
  "UnmarshalBinary me b =
     (case Decode \<lparr>PoolCap = None, MaxLength = 0\<rparr> me b of
        Inl e \<Rightarrow> Inl (DecodeErr e)
      | Inr (msg, rest) \<Rightarrow> if rest \<noteq> [] then Inl TrailingBytes else Inr msg)"

section \<open>The bitfield codec\<close>

lemma length_marshalBitfield_loop [simp]: "length (marshalBitfield_loop i bf b) = length b"
  by (induction i bf b rule: marshalBitfield_loop.induct) (auto simp: Let_def)

lemma length_marshalBitfield [simp]: "length (marshalBitfield bf) = (length bf + 7) div 8"
  by (simp add: marshalBitfield_def)

lemma bit_marshalBitfield_loop:
  assumes "(i + length bf + 7) div 8 \<le> length b" "k < length b" "n < 8"
  shows "bit (marshalBitfield_loop i bf b ! k) n \<longleftrightarrow>
    bit (b ! k) n \<or> (\<exists>j < length bf. bf ! j \<and> i + j = 8 * k + (7 - n))"
  using assms
proof (induction i bf b rule: marshalBitfield_loop.induct)
  case (2 i hv bf b)
  have shift: "(\<exists>j < length (hv # bf). (hv # bf) ! j \<and> i + j = 8 * k + (7 - n)) \<longleftrightarrow>
      (hv \<and> i = 8 * k + (7 - n)) \<or> (\<exists>j < length bf. bf ! j \<and> i + 1 + j = 8 * k + (7 - n))"
    by (simp add: Ex_less_Suc2)
  show ?case
  proof (cases hv)
    case False
    with "2.IH"(1) "2.prems" show ?thesis unfolding shift by simp
  next
    case True
    let ?b = "b[i div 8 := b ! (i div 8) OR push_bit (7 - i mod 8) 1]"
    have "bit (?b ! k) n \<longleftrightarrow> bit (b ! k) n \<or> i = 8 * k + (7 - n)"
    proof (cases "i div 8 = k")
      case True
      have "n = 7 - i mod 8 \<longleftrightarrow> i = 8 * k + (7 - n)"
        using div_mult_mod_eq [of i 8] mod_less_divisor [of 8 i] True \<open>n < 8\<close> by linarith
      then show ?thesis using True "2.prems"
        by (auto simp: bit_or_iff bit_exp_iff possible_bit_word)
    next
      case False
      then have "i \<noteq> 8 * k + (7 - n)" by auto
      with False show ?thesis by simp
    qed
    moreover have "bit (marshalBitfield_loop (i + 1) bf ?b ! k) n \<longleftrightarrow>
        bit (?b ! k) n \<or> (\<exists>j < length bf. bf ! j \<and> i + 1 + j = 8 * k + (7 - n))"
      using "2.prems" True by (intro "2.IH"(2)) simp_all
    ultimately show ?thesis unfolding shift using True by (simp add: Let_def)
  qed
qed simp

lemma length_byte_bits [simp]: "length (byte_bits c) = 8"
  by (simp add: byte_bits_def)

lemma and_one_bit: "drop_bit i (c :: byte) AND 1 = 1 \<longleftrightarrow> bit c i"
  by (metis and_one_eq bit_iff_odd_drop_bit mod_2_eq_odd of_bool_eq_1_iff)

lemma byte_bits_nth:
  assumes "j < 8"
  shows "byte_bits c ! j = bit c (7 - j)"
proof -
  have "[7, 6, 5, 4, 3, 2, 1, 0] = map (\<lambda>j. 7 - j) [0..<8]" by (simp add: upt_rec)
  then show ?thesis using assms unfolding byte_bits_def by (simp add: and_one_bit)
qed

lemma length_unmarshalBitfield [simp]: "length (unmarshalBitfield b) = 8 * length b"
  by (induction b) (simp_all add: unmarshalBitfield_def)

lemma unmarshalBitfield_nth:
  "j < 8 * length b \<Longrightarrow> unmarshalBitfield b ! j = bit (b ! (j div 8)) (7 - j mod 8)"
proof (induction b arbitrary: j)
  case (Cons c b)
  have cons: "unmarshalBitfield (c # b) = byte_bits c @ unmarshalBitfield b"
    by (simp add: unmarshalBitfield_def)
  show ?case
  proof (cases "j < 8")
    case True
    then show ?thesis by (simp add: cons nth_append byte_bits_nth)
  next
    case False
    then have "j div 8 = Suc ((j - 8) div 8)" "j mod 8 = (j - 8) mod 8"
      by (simp_all add: le_div_geq le_mod_geq)
    then show ?thesis using Cons.IH [of "j - 8"] Cons.prems False by (simp add: cons nth_append)
  qed
qed simp

definition pad8 :: "bool list \<Rightarrow> bool list" where
  "pad8 bf = bf @ replicate (8 * ((length bf + 7) div 8) - length bf) False"

lemma length_pad8: "length (pad8 bf) = 8 * ((length bf + 7) div 8)"
  by (simp add: pad8_def)

lemma pad8_nth: "j < length (pad8 bf) \<Longrightarrow> pad8 bf ! j \<longleftrightarrow> j < length bf \<and> bf ! j"
  by (auto simp: pad8_def nth_append)

lemma unmarshal_marshalBitfield [wire_simps]: "unmarshalBitfield (marshalBitfield bf) = pad8 bf"
proof (rule nth_equalityI)
  show len: "length (unmarshalBitfield (marshalBitfield bf)) = length (pad8 bf)"
    by (simp add: length_pad8)
  fix j assume "j < length (unmarshalBitfield (marshalBitfield bf))"
  then have j: "j < 8 * ((length bf + 7) div 8)" by simp
  then have k: "j div 8 < (length bf + 7) div 8" by (simp add: div_less_iff_less_mult mult.commute)
  have "unmarshalBitfield (marshalBitfield bf) ! j \<longleftrightarrow> bit (marshalBitfield bf ! (j div 8)) (7 - j mod 8)"
    using j by (simp add: unmarshalBitfield_nth)
  also have "\<dots> \<longleftrightarrow> (\<exists>i < length bf. bf ! i \<and> i = 8 * (j div 8) + (7 - (7 - j mod 8)))"
    unfolding marshalBitfield_def using k by (subst bit_marshalBitfield_loop) (auto simp: less_Suc_eq_le)
  also have "\<dots> \<longleftrightarrow> pad8 bf ! j"
    using j by (simp add: pad8_nth length_pad8)
  finally show "unmarshalBitfield (marshalBitfield bf) ! j = pad8 bf ! j" .
qed

section \<open>The message codec\<close>

text \<open>
  What a receiver gets of a message: the fields its type carries, a bitfield padded to whole
  bytes, an extension number cut to a byte.
\<close>

definition canon :: "message \<Rightarrow> message" where
  "canon m =
     (if Keepalive m then zero_message\<lparr>Keepalive := True\<rparr>
      else let t = MType m; z = typed_message t in
      if t = mtHave then z\<lparr>Index := Index m\<rparr>
      else if t \<in> {mtRequest, mtCancel, mtReject} then
        z\<lparr>Index := Index m, Begin := Begin m, MLength := MLength m\<rparr>
      else if t = mtBitfield then z\<lparr>MBitfield := pad8 (MBitfield m)\<rparr>
      else if t = mtPiece then z\<lparr>Index := Index m, Begin := Begin m, MPiece := MPiece m\<rparr>
      else if t = mtExtended then
        z\<lparr>ExtendedID := ExtendedID m mod 256, ExtendedPayload := ExtendedPayload m\<rparr>
      else if t = mtPort then z\<lparr>MPort := MPort m\<rparr>
      else z)"

lemma ReadInteger_be32 [simp, wire_simps]: "ReadInteger (be32 w @ rest) = Inr (w, rest)"
  by simp

declare ReadInteger.simps [simp del]

lemma ReadByte_Cons [simp, wire_simps]: "ReadByte (c # rest) = Inr (c, rest)"
  by (simp add: ReadByte_def)

lemma read_full_be16 [simp, wire_simps]: "read_full 2 (be16 w @ rest) = Inr (be16 w, rest)"
  by simp

lemma message_body_len:
  "message_body m = (buf, None) \<Longrightarrow> \<exists>body. buf = MType m # body"
  by (auto simp: message_body_def Let_def split: if_splits)

text \<open>The payload a type has on the wire, and that decoding it gives the fields back.\<close>

lemma decode_body_message_body:
  assumes "\<not> Keepalive m" "message_body m = (MType m # body, None)" "length body < 2 ^ 32"
    "MType m = mtPiece \<Longrightarrow> \<exists>cap. PoolCap d = Some cap \<and> length (MPiece m) \<le> cap"
  shows "decode_body d (word_of_nat (length body)) (typed_message (MType m)) (body @ rest) =
    Inr (canon m, rest)"
proof -
  have unat_len: "unat (word_of_nat (length body) :: u32) = length body"
    using assms(3) by (simp add: unat_of_nat)
  consider "MType m \<in> {mtChoke, mtUnchoke, mtInterested, mtNotInterested, mtHaveAll, mtHaveNone}"
    | "MType m = mtHave" | "MType m \<in> {mtRequest, mtCancel, mtReject}" | "MType m = mtBitfield"
    | "MType m = mtPiece" | "MType m = mtExtended" | "MType m = mtPort"
    using assms(2) by (auto simp: message_body_def Let_def split: if_splits)
  then show ?thesis
  proof cases
    case 1
    then show ?thesis using assms(1,2)
      by (auto simp: message_body_def decode_body_def canon_def typed_message_def check_unused_def)
  next
    case 2
    then show ?thesis using assms(1,2)
      by (auto simp: message_body_def decode_body_def canon_def typed_message_def check_unused_def)
  next
    case 3
    then show ?thesis using assms(1,2)
      by (auto simp: message_body_def decode_body_def canon_def typed_message_def check_unused_def
            decode_three_def)
  next
    case 4
    then show ?thesis using assms(1,2) unat_len
      by (auto simp: message_body_def decode_body_def canon_def typed_message_def wire_simps)
  next
    case 5
    then obtain cap where cap: "PoolCap d = Some cap" "length (MPiece m) \<le> cap" using assms(4) by blast
    have body: "body = be32 (Index m) @ be32 (Begin m) @ MPiece m"
      using 5 assms(2) by (auto simp: message_body_def)
    have "unat (word_of_nat (length body) - 8 :: u32) = length (MPiece m)"
      using unat_len assms(3) by (subst unat_sub) (auto simp: body word_le_nat_alt)
    then show ?thesis using 5 assms(1) cap
      by (simp add: decode_body_def canon_def typed_message_def decode_piece_def body Let_def)
  next
    case 6
    have body: "body = word_of_int (ExtendedID m) # ExtendedPayload m"
      using 6 assms(2) by (auto simp: message_body_def)
    have "unat (word_of_nat (length body) - 1 :: u32) = length (ExtendedPayload m)"
      using unat_len assms(3) by (subst unat_sub) (auto simp: body word_le_nat_alt)
    then show ?thesis using 6 assms(1)
      by (simp add: decode_body_def canon_def typed_message_def decode_extended_def body
            uint_word_of_int take_bit_eq_mod)
  next
    case 7
    then show ?thesis using assms(1,2)
      by (auto simp: message_body_def decode_body_def canon_def typed_message_def check_unused_def)
  qed
qed

lemma Decode_frame:
  assumes "length body < 2 ^ 32 - 1" "Suc (length body) \<le> unat (MaxLength d)"
  shows "Decode d msg (be32 (word_of_nat (Suc (length body))) @ t # body @ rest) =
    decode_body d (word_of_nat (length body)) (msg\<lparr>MType := t\<rparr>) (body @ rest)"
proof -
  have "unat (word_of_nat (Suc (length body)) :: u32) = Suc (length body)"
    using assms(1) by (simp add: unat_of_nat del: of_nat_Suc)
  then have "\<not> MaxLength d < (word_of_nat (Suc (length body)) :: u32)"
      "(word_of_nat (Suc (length body)) :: u32) \<noteq> 0"
    using assms(2) by (auto simp: word_less_nat_alt)
  moreover have "word_of_nat (Suc (length body)) - 1 = (word_of_nat (length body) :: u32)" by simp
  ultimately show ?thesis
    unfolding Decode_def by (simp only: ReadInteger_be32 sum.case prod.case ReadByte_Cons) (simp del: of_nat_Suc)
qed

text \<open>
  C9. Encode and decode: for every message \<open>MarshalBinary\<close> accepts whose frame is within the
  decoder's maximum length (and, for a piece, within the pool's buffers), decoding its bytes
  gives back the fields the message type carries and leaves exactly the bytes that follow it.
\<close>
theorem Decode_MarshalBinary:
  assumes "MarshalBinary m = (data, None)" "length data \<le> 4 + unat (MaxLength d)"
    "MType m = mtPiece \<Longrightarrow> \<exists>cap. PoolCap d = Some cap \<and> length (MPiece m) \<le> cap"
  shows "Decode d zero_message (data @ rest) = Inr (canon m, rest)"
proof (cases "Keepalive m")
  case True
  then show ?thesis
    using assms(1) by (auto simp: MarshalBinary_def Decode_def canon_def)
next
  case False
  then obtain buf where buf: "message_body m = (buf, None)" "data = be32 (word_of_nat (length buf)) @ buf"
    using assms(1) by (auto simp: MarshalBinary_def split: prod.splits)
  from message_body_len [OF buf(1)] obtain body where body: "buf = MType m # body" by blast
  have fits: "Suc (length body) \<le> unat (MaxLength d)" using assms(2) buf(2) body by simp
  moreover have "unat (MaxLength d) < 2 ^ 32" using unsigned_less [where w = "MaxLength d" and 'a = nat] by simp
  ultimately have len: "length body < 2 ^ 32 - 1" by simp
  have "Decode d zero_message (data @ rest) =
      decode_body d (word_of_nat (length body)) (typed_message (MType m)) (body @ rest)"
    using Decode_frame [OF len fits, of zero_message "MType m" rest]
    by (simp add: buf(2) body typed_message_def del: of_nat_Suc)
  also have "\<dots> = Inr (canon m, rest)"
    using False buf(1) body len assms(3) by (intro decode_body_message_body) simp_all
  finally show ?thesis .
qed

theorem Decode_MarshalBinary_witness:
  "Decode \<lparr>PoolCap = Some 16, MaxLength = 100\<rparr> zero_message
     (fst (MarshalBinary (zero_message\<lparr>MType := mtPiece, Index := 3, Begin := 5, MPiece := [1, 2]\<rparr>)) @ [7]) =
   Inr (zero_message\<lparr>MType := mtPiece, Index := 3, Begin := 5, MPiece := [1, 2]\<rparr>, [7])"
proof -
  let ?m = "zero_message\<lparr>MType := mtPiece, Index := 3, Begin := 5, MPiece := [1, 2]\<rparr>"
  have "MarshalBinary ?m = (fst (MarshalBinary ?m), None)"
    "length (fst (MarshalBinary ?m)) = 15" "canon ?m = ?m"
    by (simp_all add: MarshalBinary_def message_body_def zero_message_def canon_def typed_message_def)
  then show ?thesis
    using Decode_MarshalBinary [of ?m "fst (MarshalBinary ?m)" "\<lparr>PoolCap = Some 16, MaxLength = 100\<rparr>" "[7]"]
    by (simp add: zero_message_def)
qed

section \<open>Frames\<close>

lemma ReadInteger_Inr: "ReadInteger inp = Inr (w, rest) \<Longrightarrow> inp = be32 w @ rest"
  using read_full_Inr [of 4 inp]
  by (auto simp: ReadInteger.simps be32_u32_of split: sum.splits prod.splits)

lemma ReadByte_Inr: "ReadByte inp = Inr (c, rest) \<longleftrightarrow> inp = c # rest"
  by (auto simp: ReadByte_def split: list.splits)

lemma check_unused_Inr [simp]:
  "check_unused len msg rest = Inr r \<longleftrightarrow> len = 0 \<and> r = (msg, rest)"
  by (auto simp: check_unused_def)

definition reads :: "nat \<Rightarrow> bytes \<Rightarrow> decode_error + (message \<times> bytes) \<Rightarrow> bool" where
  "reads n inp r \<longleftrightarrow> (\<forall>m rest. r = Inr (m, rest) \<longrightarrow> (\<exists>body. inp = body @ rest \<and> length body = n))"

lemma reads_Inl [simp]: "reads n inp (Inl e)"
  by (simp add: reads_def)

lemma reads_ReadInteger:
  assumes "\<And>w rest. ReadInteger inp = Inr (w, rest) \<Longrightarrow> \<exists>k. n = 4 + k \<and> reads k rest (f w rest)"
  shows "reads n inp (case ReadInteger inp of Inl e \<Rightarrow> Inl (g e) | Inr (w, rest) \<Rightarrow> f w rest)"
proof (cases "ReadInteger inp")
  case (Inr p)
  obtain w rest where p: "p = (w, rest)" by (cases p)
  with Inr have inp: "inp = be32 w @ rest" by (simp add: ReadInteger_Inr)
  from assms Inr p obtain k where k: "n = 4 + k" "reads k rest (f w rest)" by blast
  have "\<exists>body. inp = body @ rest' \<and> length body = n" if "f w rest = Inr (m, rest')" for m rest'
  proof -
    from k(2) that obtain body where "rest = body @ rest'" "length body = k"
      unfolding reads_def by blast
    then show ?thesis using inp k(1) by (intro exI [of _ "be32 w @ body"]) simp
  qed
  then show ?thesis unfolding Inr p reads_def by auto
qed simp

lemma reads_read_full:
  "reads n inp (case read_full n inp of Inl e \<Rightarrow> Inl (g e) | Inr (b, rest) \<Rightarrow> Inr (f b, rest))"
  using read_full_Inr [of n inp] by (auto simp: reads_def split: sum.splits)

lemma reads_check_unused: "reads (unat len) inp (check_unused len msg inp)"
  by (auto simp: reads_def)

lemma frame_prefix:
  "(\<exists>body. a @ rest = body @ rest \<and> length body = n) \<longleftrightarrow> length a = n"
  "(\<exists>body. a @ b @ c @ rest = body @ rest \<and> length body = n) \<longleftrightarrow> length a + length b + length c = n"
  by (metis append_same_eq, metis append.assoc append_same_eq length_append)

lemma reads_decode_three: "reads (unat len) inp (decode_three len msg inp)"
  unfolding reads_def decode_three_def
  by (auto simp: frame_prefix dest!: ReadInteger_Inr split: sum.splits prod.splits)

lemma reads_one_Integer:
  "reads (unat len) inp (case ReadInteger inp of Inl e \<Rightarrow> Inl (ReadErr e)
     | Inr (i, inp) \<Rightarrow> check_unused (len - 4) (f i) inp)"
  unfolding reads_def
  by (auto simp: frame_prefix dest!: ReadInteger_Inr split: sum.splits prod.splits)

lemma reads_decode_piece:
  assumes "\<And>cap. PoolCap d = Some cap \<Longrightarrow> cap < 2 ^ 32 - 8"
  shows "reads (unat len) inp (decode_piece d len msg inp)"
proof (cases "8 \<le> unat len")
  case True
  then have "unat len = 4 + (4 + (unat len - 8))" "unat (len - 8) = unat len - 8"
    by (auto simp: unat_sub word_le_nat_alt)
  moreover have "reads k inp2 (case read_full k inp2 of Inl e \<Rightarrow> Inl (ReadingPieceData e)
      | Inr (p, inp) \<Rightarrow> Inr (msg\<lparr>Index := i, Begin := b, MPiece := p\<rparr>, inp))" for k inp2 i b
    by (rule reads_read_full)
  ultimately show ?thesis unfolding decode_piece_def Let_def
    by (intro reads_ReadInteger exI [of _ "4 + (unat len - 8)"] exI [of _ "unat len - 8"] conjI)
       (auto split: option.splits)
next
  case False
  then have "unat len \<in> {0, 1, 2, 3, 4, 5, 6, 7}" by auto
  then have "len \<in> {0, 1, 2, 3, 4, 5, 6, 7}" by (auto simp: word_unat_eq_iff)
  then have "2 ^ 32 - 8 \<le> unat (len - 8)"
    by (auto simp: unsigned_minus_1_eq_mask mask_eq_exp_minus_1)
  then show ?thesis using assms
    by (fastforce simp: decode_piece_def Let_def reads_def split: sum.splits prod.splits option.splits if_splits)
qed

lemma reads_decode_extended:
  assumes "len \<noteq> 0"
  shows "reads (unat len) inp (decode_extended len msg inp)"
proof -
  have len: "unat len = Suc (unat (len - 1))"
    using assms by (simp add: unat_minus_one unat_gt_0)
  show ?thesis unfolding reads_def decode_extended_def
  proof (intro allI impI)
    fix m rest
    assume "(case ReadByte inp of Inl e \<Rightarrow> Inl (ReadErr e) | Inr (b, inp) \<Rightarrow>
      case read_full (unat (len - 1)) inp of Inl e \<Rightarrow> Inl (ReadErr ErrUnexpectedEOF)
      | Inr (p, inp) \<Rightarrow> Inr (msg\<lparr>ExtendedID := uint b, ExtendedPayload := p\<rparr>, inp)) = Inr (m, rest)"
    then obtain b inp' p where "inp = b # inp'" "read_full (unat (len - 1)) inp' = Inr (p, rest)"
      by (auto simp: ReadByte_Inr split: sum.splits prod.splits)
    with read_full_Inr [of "unat (len - 1)" inp' p rest] len
    show "\<exists>body. inp = body @ rest \<and> length body = unat len"
      by (intro exI [of _ "b # p"]) simp
  qed
qed

lemma reads_decode_port:
  "reads (unat len) inp (case read_full 2 inp of Inl e \<Rightarrow> Inl (ReadErr e)
     | Inr (b, inp) \<Rightarrow> check_unused (len - 2) (f b) inp)"
  using read_full_Inr [of 2 inp]
  by (auto simp: reads_def split: sum.splits prod.splits)

lemma reads_decode_body:
  assumes "\<And>cap. PoolCap d = Some cap \<Longrightarrow> cap < 2 ^ 32 - 8" "MType msg = mtExtended \<Longrightarrow> len \<noteq> 0"
  shows "reads (unat len) inp (decode_body d len msg inp)"
proof -
  have "reads (unat len) inp (case read_full (unat len) inp of Inl e \<Rightarrow> Inl (ReadErr e)
      | Inr (b, inp) \<Rightarrow> Inr (msg\<lparr>MBitfield := unmarshalBitfield b\<rparr>, inp))"
    by (rule reads_read_full)
  then show ?thesis
    unfolding decode_body_def Let_def
    using assms reads_check_unused reads_one_Integer reads_decode_three reads_decode_piece
      reads_decode_extended reads_decode_port
    by auto
qed

text \<open>
  C31. The decoder stays in its frame: whenever \<open>Decode\<close> succeeds, it has consumed the four length
  bytes and exactly the number of bytes they announce, which is at most the maximum length.
  The one exception is an extended message announcing a length of one, excluded here.
\<close>
theorem Decode_stays_in_frame:
  assumes "Decode d msg inp = Inr (m, rest)" "\<And>cap. PoolCap d = Some cap \<Longrightarrow> cap < 2 ^ 32 - 8"
    "take 5 inp \<noteq> be32 1 @ [mtExtended]"
  shows "\<exists>len frame. inp = be32 len @ frame @ rest \<and> length frame = unat len \<and> len \<le> MaxLength d"
proof -
  obtain len inp1 where len: "ReadInteger inp = Inr (len, inp1)" "len \<le> MaxLength d"
    using assms(1) by (auto simp: Decode_def not_less split: sum.splits prod.splits if_splits)
  have inp: "inp = be32 len @ inp1" by (rule ReadInteger_Inr [OF len(1)])
  show ?thesis
  proof (cases "len = 0")
    case True
    with assms(1) len have "rest = inp1" by (auto simp: Decode_def)
    with True inp len(2) show ?thesis by (intro exI [of _ len] exI [of _ "[]"]) simp
  next
    case False
    with assms(1) len obtain c inp2 where c: "inp1 = c # inp2"
        "decode_body d (len - 1) (msg\<lparr>MType := c\<rparr>) inp2 = Inr (m, rest)"
      by (auto simp: Decode_def ReadByte_Inr split: sum.splits prod.splits if_splits)
    have "len - 1 \<noteq> 0" if "c = mtExtended"
      using assms(3) that by (auto simp: inp c(1))
    then have "reads (unat (len - 1)) inp2 (decode_body d (len - 1) (msg\<lparr>MType := c\<rparr>) inp2)"
      using assms(2) by (intro reads_decode_body) auto
    with c(2) obtain body where "inp2 = body @ rest" "length body = unat (len - 1)"
      by (auto simp: reads_def)
    moreover have "Suc (unat (len - 1)) = unat len" using False by (simp add: unat_minus_one unat_gt_0)
    ultimately show ?thesis using inp c(1) len(2)
      by (intro exI [of _ len] exI [of _ "c # body"]) simp
  qed
qed

theorem Decode_stays_in_frame_witness:
  "\<exists>len frame. [0, 0, 0, 5, 4, 0, 0, 0, 9, 42] = be32 len @ frame @ [42] \<and> length frame = unat len \<and>
    len \<le> MaxLength \<lparr>PoolCap = Some 16, MaxLength = 100\<rparr>"
proof -
  have a: "Decode \<lparr>PoolCap = Some 16, MaxLength = 100\<rparr> zero_message [0, 0, 0, 5, 4, 0, 0, 0, 9, 42] =
      Inr (zero_message\<lparr>MType := 4, Index := 9\<rparr>, [42])"
    by code_simp
  show ?thesis by (rule Decode_stays_in_frame [OF a]) simp_all
qed

text \<open>
  C39. An extended message that announces a length of one makes the remaining length wrap: the
  decoder takes the byte after the frame as the extension number and then asks for 4294967295
  further bytes, so it fails on every input shorter than that.
\<close>
theorem Decode_extended_underflow:
  assumes "1 \<le> MaxLength d" "length inp < 2 ^ 32 - 1"
  shows "Decode d msg (be32 1 @ mtExtended # b # inp) = Inl (ReadErr ErrUnexpectedEOF)"
proof -
  have "unat ((0 :: u32) - 1) = 2 ^ 32 - 1"
    by (simp add: unsigned_minus_1_eq_mask mask_eq_exp_minus_1)
  moreover have "\<not> MaxLength d < 1" using assms(1) by (simp only: not_less)
  ultimately show ?thesis
    using assms(2) unfolding Decode_def
    by (simp add: decode_body_def decode_extended_def read_full_def)
qed

theorem Decode_extended_underflow_witness:
  "Decode \<lparr>PoolCap = None, MaxLength = 8\<rparr> zero_message (be32 1 @ [20, 0] @ be32 0) =
    Inl (ReadErr ErrUnexpectedEOF)"
  using Decode_extended_underflow [of "\<lparr>PoolCap = None, MaxLength = 8\<rparr>" "be32 0" zero_message 0]
  by simp

text \<open>
  \<open>Message.UnmarshalBinary\<close> builds its decoder without a maximum length, so it refuses every
  message except a keep-alive, although \<open>MarshalBinary\<close> produced the bytes.
\<close>
theorem UnmarshalBinary_rejects:
  assumes "MarshalBinary m = (data, None)" "length data < 2 ^ 32"
  shows "UnmarshalBinary me data =
    (if Keepalive m then Inr (me\<lparr>Keepalive := True\<rparr>) else Inl (DecodeErr MessageTooLong))"
proof (cases "Keepalive m")
  case True
  with assms(1) have "data = be32 0 @ []" by (simp add: MarshalBinary_def)
  then have "Decode \<lparr>PoolCap = None, MaxLength = 0\<rparr> me data = Inr (me\<lparr>Keepalive := True\<rparr>, [])"
    by (simp only: Decode_def ReadInteger_be32) simp
  with True show ?thesis by (simp add: UnmarshalBinary_def)
next
  case False
  then obtain buf where buf: "message_body m = (buf, None)" "data = be32 (word_of_nat (length buf)) @ buf"
    using assms(1) by (auto simp: MarshalBinary_def split: prod.splits)
  from message_body_len [OF buf(1)] have "0 < length buf" by auto
  then have "unat (word_of_nat (length buf) :: u32) \<noteq> 0"
    using assms(2) buf(2) by (simp add: unat_of_nat)
  then have "0 < (word_of_nat (length buf) :: u32)" by (simp add: word_less_nat_alt)
  with False show ?thesis by (simp add: UnmarshalBinary_def Decode_def buf(2))
qed

theorem UnmarshalBinary_rejects_witness:
  "UnmarshalBinary zero_message (fst (MarshalBinary (typed_message mtChoke))) = Inl (DecodeErr MessageTooLong)"
  using UnmarshalBinary_rejects [of "typed_message mtChoke" "fst (MarshalBinary (typed_message mtChoke))" zero_message]
  by (simp add: MarshalBinary_def message_body_def typed_message_def zero_message_def)

section \<open>Extension bits\<close>

text \<open>
  \<^verbatim>\<open>PeerExtensionBits\<close> is an array of eight bytes; an index outside it panics (\<open>None\<close>).
\<close>

abbreviation (input) ExtensionBitDHT :: nat where "ExtensionBitDHT \<equiv> 0"
abbreviation (input) ExtensionBitExtended :: nat where "ExtensionBitExtended \<equiv> 20"
abbreviation (input) ExtensionBitFast :: nat where "ExtensionBitFast \<equiv> 2"

definition SetBit :: "bytes \<Rightarrow> nat \<Rightarrow> bool \<Rightarrow> bytes option" where
  "SetBit pex eb on =
     (if eb div 8 > 7 then None
      else let i = 7 - eb div 8 in
        if on then Some (pex[i := pex ! i OR push_bit (eb mod 8) 1])
        else Some (pex[i := pex ! i AND NOT (push_bit (eb mod 8) 1)]))"

definition GetBit :: "bytes \<Rightarrow> nat \<Rightarrow> bool option" where
  "GetBit pex eb =
     (if eb div 8 > 7 then None
      else Some (pex ! (7 - eb div 8) AND push_bit (eb mod 8) 1 \<noteq> 0))"

fun NewPeerExtensionBytes_loop :: "nat list \<Rightarrow> bytes \<Rightarrow> bytes option" where
  "NewPeerExtensionBytes_loop [] ret = Some ret"
| "NewPeerExtensionBytes_loop (b # bits) ret =
     (case SetBit ret b True of None \<Rightarrow> None | Some ret \<Rightarrow> NewPeerExtensionBytes_loop bits ret)"

definition NewPeerExtensionBytes :: "nat list \<Rightarrow> bytes option" where
  "NewPeerExtensionBytes bits = NewPeerExtensionBytes_loop bits (replicate 8 0)"

definition SupportsExtended :: "bytes \<Rightarrow> bool option" where
  "SupportsExtended pex = GetBit pex ExtensionBitExtended"

definition SupportsDHT :: "bytes \<Rightarrow> bool option" where
  "SupportsDHT pex = GetBit pex ExtensionBitDHT"

definition SupportsFast :: "bytes \<Rightarrow> bool option" where
  "SupportsFast pex = GetBit pex ExtensionBitFast"

lemma and_push_bit_eq_0: "n < 8 \<Longrightarrow> (c :: byte) AND 2 ^ n = 0 \<longleftrightarrow> \<not> bit c n"
proof -
  assume n: "n < 8"
  have "bit (c AND 2 ^ n) k \<longleftrightarrow> bit c n \<and> k = n" for k
    using n by (auto simp: bit_and_iff bit_exp_iff possible_bit_word)
  then show ?thesis by (metis bit_0_eq bot_apply bot_bool_def bit_eqI)
qed

lemma GetBit_bit: "b < 64 \<Longrightarrow> GetBit pex b = Some (bit (pex ! (7 - b div 8)) (b mod 8))"
  by (auto simp: GetBit_def and_push_bit_eq_0)

lemma GetBit_SetBit:
  assumes "length pex = 8" "b < 64" "b' < 64" "SetBit pex b on = Some pex'"
  shows "length pex' = 8 \<and> GetBit pex' b' = (if b' = b then Some on else GetBit pex b')"
proof -
  let ?i = "7 - b div 8"
  have i: "?i < 8" "b mod 8 < 8" using assms(2) by auto
  have pex': "pex' = pex[?i := (if on then pex ! ?i OR push_bit (b mod 8) 1
      else pex ! ?i AND NOT (push_bit (b mod 8) 1))]"
    using assms(4) by (auto simp: SetBit_def Let_def split: if_splits)
  have same: "7 - b' div 8 = ?i \<and> b' mod 8 = b mod 8 \<longleftrightarrow> b' = b"
  proof
    assume "7 - b' div 8 = ?i \<and> b' mod 8 = b mod 8"
    moreover have "b' div 8 \<le> 7" "b div 8 \<le> 7" using assms(2,3) by auto
    ultimately show "b' = b" by (metis diff_diff_cancel div_mult_mod_eq)
  qed simp
  show ?thesis
  proof (cases "7 - b' div 8 = ?i")
    case True
    then show ?thesis using i assms(1,3) same
      by (auto simp: pex' GetBit_bit bit_or_iff bit_and_iff bit_not_iff bit_exp_iff possible_bit_word)
  next
    case False
    then show ?thesis using i assms(1,2,3) same by (auto simp: pex' GetBit_bit)
  qed
qed

text \<open>
  Extension bits: setting a bit changes that bit only, and the bytes a client builds from a
  list of bits report exactly the bits of the list.
\<close>
theorem NewPeerExtensionBytes_bits:
  assumes "\<forall>b \<in> set bits. b < 64"
  shows "\<exists>ret. NewPeerExtensionBytes bits = Some ret \<and> length ret = 8 \<and>
    (\<forall>b < 64. GetBit ret b = Some (b \<in> set bits))"
proof -
  have "\<exists>ret'. NewPeerExtensionBytes_loop bits ret = Some ret' \<and> length ret' = 8 \<and>
      (\<forall>b < 64. GetBit ret' b = (if b \<in> set bits then Some True else GetBit ret b))"
    if "length ret = 8" for ret
    using assms that
  proof (induction bits arbitrary: ret)
    case (Cons b bits)
    then have "\<exists>r. SetBit ret b True = Some r" by (auto simp: SetBit_def Let_def)
    then obtain r where r: "SetBit ret b True = Some r" by blast
    have "length r = 8" and get: "\<forall>b' < 64. GetBit r b' = (if b' = b then Some True else GetBit ret b')"
      using GetBit_SetBit [OF Cons.prems(2) _ _ r] Cons.prems(1) by auto
    with Cons.IH [of r] Cons.prems(1) obtain ret' where
      "NewPeerExtensionBytes_loop bits r = Some ret'" "length ret' = 8"
      "\<forall>b < 64. GetBit ret' b = (if b \<in> set bits then Some True else GetBit r b)" by auto
    with get r show ?case by auto
  qed simp
  moreover have "GetBit (replicate 8 0) b = Some False" if "b < 64" for b
    using that by (simp add: GetBit_bit)
  ultimately show ?thesis
    unfolding NewPeerExtensionBytes_def by (metis (full_types) length_replicate)
qed

theorem NewPeerExtensionBytes_bits_witness:
  "\<exists>ret. NewPeerExtensionBytes [0, 20, 2] = Some ret \<and> length ret = 8 \<and>
    (\<forall>b < 64. GetBit ret b = Some (b \<in> set [0, 20, 2]))"
  by (rule NewPeerExtensionBytes_bits) simp

section \<open>The handshake\<close>

text \<open>
  \<open>Handshake\<close> posts to a channel of capacity four, drained by a writer goroutine, and reads 68
  bytes.  The model returns the posts in order; \<open>post\<close> panics where the channel could be full if
  the writer had not run at all.  \<open>werr\<close> is whether the writer failed.
\<close>

definition Protocol :: bytes where
  "Protocol = [0x13, 0x42, 0x69, 0x74, 0x54, 0x6f, 0x72, 0x72, 0x65, 0x6e, 0x74, 0x20,
     0x70, 0x72, 0x6f, 0x74, 0x6f, 0x63, 0x6f, 0x6c]"

record handshake_result =
  HExtensionBits :: bytes
  HPeerID :: bytes
  HHash :: bytes

datatype handshake_error = HWhileReading io_error | HUnexpectedProtocol | HWriting | HPanicPost

definition post :: "bytes list \<Rightarrow> bytes \<Rightarrow> bytes list option" where
  "post q bb = (if length q < 4 then Some (q @ [bb]) else None)"

fun posts :: "bytes list \<Rightarrow> bytes list \<Rightarrow> bytes list option" where
  "posts q [] = Some q"
| "posts q (bb # bbs) = (case post q bb of None \<Rightarrow> None | Some q \<Rightarrow> posts q bbs)"

definition handshake_parse :: "bytes \<Rightarrow> handshake_error + handshake_result" where
  "handshake_parse b =
     (if take 20 b \<noteq> Protocol then Inl HUnexpectedProtocol
      else Inr \<lparr>HExtensionBits = take 8 (drop 20 b), HPeerID = take 20 (drop 48 b),
                HHash = take 20 (drop 28 b)\<rparr>)"

definition Handshake ::
  "bytes option \<Rightarrow> bytes \<Rightarrow> bytes \<Rightarrow> bool \<Rightarrow> bytes \<Rightarrow>
    (handshake_error + handshake_result) \<times> bytes list \<times> bytes" where
  "Handshake ih peerID extensions werr inp =
     (case posts [] ([Protocol, extensions] @ (case ih of None \<Rightarrow> [] | Some h \<Rightarrow> [h, peerID])) of
        None \<Rightarrow> (Inl HPanicPost, [], inp)
      | Some q \<Rightarrow>
        (case read_full 68 inp of
           Inl e \<Rightarrow> (Inl (HWhileReading e), q, [])
         | Inr (b, rest) \<Rightarrow>
           (case handshake_parse b of
              Inl e \<Rightarrow> (Inl e, q, rest)
            | Inr res \<Rightarrow>
              (case posts q (if ih = None then [HHash res, peerID] else []) of
                 None \<Rightarrow> (Inl HPanicPost, q, rest)
               | Some q \<Rightarrow> (if werr then Inl HWriting else Inr res, q, rest)))))"

definition handshake_bytes :: "bytes \<Rightarrow> bytes \<Rightarrow> bytes \<Rightarrow> bytes" where
  "handshake_bytes ext ih pid = Protocol @ ext @ ih @ pid"

lemma length_Protocol [simp]: "length Protocol = 20"
  by (simp add: Protocol_def)

lemma handshake_parse_bytes:
  assumes "length ext = 8" "length ih = 20" "length pid = 20"
  shows "handshake_parse (handshake_bytes ext ih pid) =
    Inr \<lparr>HExtensionBits = ext, HPeerID = pid, HHash = ih\<rparr>"
  using assms by (simp add: handshake_parse_def handshake_bytes_def)

lemma Handshake_reads:
  assumes "length ext = 8" "length h = 20" "length pid = 20"
  shows "Handshake ih peerID extensions False (handshake_bytes ext h pid @ rest) =
    (Inr \<lparr>HExtensionBits = ext, HPeerID = pid, HHash = h\<rparr>,
     [Protocol, extensions, (case ih of None \<Rightarrow> h | Some i \<Rightarrow> i), peerID], rest)"
proof -
  have "read_full 68 (handshake_bytes ext h pid @ rest) = Inr (handshake_bytes ext h pid, rest)"
    by (rule read_full_append) (simp add: handshake_bytes_def assms)
  then show ?thesis
    by (simp add: Handshake_def handshake_parse_bytes [OF assms] post_def split: option.splits)
qed

text \<open>
  C30. A dialling side that knows the info hash and a listening side that waits for it complete the
  handshake on each other's bytes: the listener learns the hash, each learns the other's peer id
  and extension bits, no byte after the handshake is consumed, and neither post ever blocks.
\<close>
theorem Handshake_agrees:
  assumes "length ih = 20" "length idA = 20" "length idB = 20" "length extA = 8" "length extB = 8"
  shows "\<exists>outA outB.
    Handshake None idB extB False (concat outA @ restA) =
      (Inr \<lparr>HExtensionBits = extA, HPeerID = idA, HHash = ih\<rparr>, outB, restA) \<and>
    Handshake (Some ih) idA extA False (concat outB @ restB) =
      (Inr \<lparr>HExtensionBits = extB, HPeerID = idB, HHash = ih\<rparr>, outA, restB)"
proof (intro exI conjI)
  let ?A = "[Protocol, extA, ih, idA]" and ?B = "[Protocol, extB, ih, idB]"
  have "concat ?A = handshake_bytes extA ih idA" "concat ?B = handshake_bytes extB ih idB"
    by (simp_all add: handshake_bytes_def)
  then show "Handshake None idB extB False (concat ?A @ restA) =
      (Inr \<lparr>HExtensionBits = extA, HPeerID = idA, HHash = ih\<rparr>, ?B, restA)"
    "Handshake (Some ih) idA extA False (concat ?B @ restB) =
      (Inr \<lparr>HExtensionBits = extB, HPeerID = idB, HHash = ih\<rparr>, ?A, restB)"
    using assms by (simp_all only: Handshake_reads option.case)
qed

theorem Handshake_agrees_witness:
  "\<exists>outA outB.
    Handshake None (replicate 20 2) (replicate 8 0) False (concat outA @ []) =
      (Inr \<lparr>HExtensionBits = replicate 8 1, HPeerID = replicate 20 1, HHash = replicate 20 9\<rparr>, outB, []) \<and>
    Handshake (Some (replicate 20 9)) (replicate 20 1) (replicate 8 1) False (concat outB @ [5]) =
      (Inr \<lparr>HExtensionBits = replicate 8 0, HPeerID = replicate 20 2, HHash = replicate 20 9\<rparr>, outA, [5])"
  by (rule Handshake_agrees) simp_all

section \<open>Metadata pieces\<close>

record metadata_msg =
  MdPiece :: int
  MdTotalSize :: int
  MdType :: int

definition PieceSize :: "metadata_msg \<Rightarrow> int" where
  "PieceSize me = (let ret = MdTotalSize me - MdPiece me * 2 ^ 14 in if ret > 2 ^ 14 then 2 ^ 14 else ret)"

text \<open>PEX flags (\<^verbatim>\<open>pex.go\<close>).\<close>

definition PexFlagsGet :: "byte \<Rightarrow> byte \<Rightarrow> bool" where
  "PexFlagsGet me f \<longleftrightarrow> me AND f = f"

end
