(* ===== verification/Geometry.thy ===== *)
theory Geometry
  imports PeerProtocol
begin

text \<open>
  The arithmetic of pieces, chunks and requests: the free functions of \<^verbatim>\<open>misc.go\<close>, the size and
  index methods of \<^verbatim>\<open>Torrent\<close> and \<^verbatim>\<open>Piece\<close> (\<^verbatim>\<open>torrent.go\<close>, \<^verbatim>\<open>piece.go\<close>) and the file regions of
  \<^verbatim>\<open>file.go\<close>.  Offsets and lengths (\<^verbatim>\<open>int64\<close>, \<^verbatim>\<open>int\<close>) are \<open>int\<close>; \<^verbatim>\<open>pp.Integer\<close>, \<^verbatim>\<open>RequestIndex\<close> and
  \<^verbatim>\<open>chunkIndexType\<close> are 32 bit words and wrap.  A bitmap is a set of naturals.
\<close>

section \<open>Torrents, chunks and requests\<close>

text \<open>What the arithmetic needs of a torrent whose info is known.\<close>

record geom =
  PieceLength :: int
  TotalLength :: int
  NumPieces :: nat
  chunkSize :: u32

type_synonym chunk_spec = "u32 \<times> u32"

definition newRequest :: "u32 \<Rightarrow> u32 \<Rightarrow> u32 \<Rightarrow> request_spec" where
  "newRequest index begin len = \<lparr>RIndex = index, RBegin = begin, RLength = len\<rparr>"

text \<open>\<open>None\<close> is the panic on any other message type.\<close>

definition newRequestFromMessage :: "message \<Rightarrow> request_spec option" where
  "newRequestFromMessage msg =
     (if MType msg \<in> {mtRequest, mtCancel, mtReject} then
        Some (newRequest (Index msg) (Begin msg) (MLength msg))
      else if MType msg = mtPiece then
        Some (newRequest (Index msg) (Begin msg) (word_of_nat (length (MPiece msg))))
      else None)"

definition ToMsg :: "request_spec \<Rightarrow> byte \<Rightarrow> message" where
  "ToMsg r mt = zero_message\<lparr>MType := mt, Index := RIndex r, Begin := RBegin r, MLength := RLength r\<rparr>"

definition metadataPieceSize :: "int \<Rightarrow> int \<Rightarrow> int" where
  "metadataPieceSize totalSize piece =
     (let ret = totalSize - piece * 2 ^ 14 in if ret > 2 ^ 14 then 2 ^ 14 else ret)"

definition torrentOffsetRequest :: "int \<Rightarrow> int \<Rightarrow> int \<Rightarrow> int \<Rightarrow> request_spec option" where
  "torrentOffsetRequest torrentLength pieceSize csize offset =
     (if offset < 0 \<or> offset \<ge> torrentLength then None
      else
        let index = word_of_int (offset div pieceSize) :: u32;
            begin = word_of_int (offset mod pieceSize div csize * csize) :: u32;
            len = word_of_int csize :: u32;
            pieceLeft = word_of_int (pieceSize - uint begin) :: u32;
            len = (if len > pieceLeft then pieceLeft else len);
            torrentLeft = torrentLength - uint index * pieceSize - uint begin;
            len = (if uint len > torrentLeft then word_of_int torrentLeft else len)
        in Some (newRequest index begin len))"

definition torrentRequestOffset :: "int \<Rightarrow> int \<Rightarrow> request_spec \<Rightarrow> int option" where
  "torrentRequestOffset torrentLength pieceSize r =
     (let off = uint (RIndex r) * pieceSize + uint (RBegin r) in
      if off < 0 \<or> off \<ge> torrentLength then None else Some off)"

definition chunkIndexSpec :: "u32 \<Rightarrow> u32 \<Rightarrow> u32 \<Rightarrow> chunk_spec" where
  "chunkIndexSpec index plen csize =
     (let begin = index * csize in
      if begin + csize > plen then (begin, plen - begin) else (begin, csize))"

definition clamp :: "int \<Rightarrow> int \<Rightarrow> int \<Rightarrow> int option" where
  "clamp mn value mx =
     (if mn > mx then None
      else let value = (if value < mn then mn else value);
               value = (if value > mx then mx else value)
           in Some value)"

fun maxInt_loop :: "int \<Rightarrow> int list \<Rightarrow> int" where
  "maxInt_loop ret [] = ret"
| "maxInt_loop ret (a # as) = maxInt_loop (if a > ret then a else ret) as"

fun minInt_loop :: "int \<Rightarrow> int list \<Rightarrow> int" where
  "minInt_loop ret [] = ret"
| "minInt_loop ret (a # as) = minInt_loop (if a < ret then a else ret) as"

definition maxInt :: "int list \<Rightarrow> int" where "maxInt as = maxInt_loop (hd as) (tl as)"
definition minInt :: "int list \<Rightarrow> int" where "minInt as = minInt_loop (hd as) (tl as)"

text \<open>A bitfield as a bitmap.\<close>

definition boolSliceToBitmap :: "bool list \<Rightarrow> nat set" where
  "boolSliceToBitmap bs = set (filter (\<lambda>i. bs ! i) [0..<length bs])"

text \<open>
  Whether any part of a chunk would lie outside a piece: the sum \<open>begin + len\<close> wraps, which the
  second test catches.
\<close>

definition chunkOverflowsPiece :: "chunk_spec \<Rightarrow> u32 \<Rightarrow> bool" where
  "chunkOverflowsPiece cs plen =
     (fst cs + snd cs > plen \<or> fst cs > 0xFFFFFFFF - snd cs)"

section \<open>Methods of Torrent and Piece\<close>

definition pieceLength :: "geom \<Rightarrow> int \<Rightarrow> u32" where
  "pieceLength t piece =
     (if PieceLength t = 0 then 0
      else let ret = word_of_int (TotalLength t mod PieceLength t) :: u32 in
        if piece = int (NumPieces t) - 1 \<and> ret \<noteq> 0 then ret
        else word_of_int (PieceLength t))"

definition chunksPerRegularPiece :: "geom \<Rightarrow> u32" where
  "chunksPerRegularPiece t = (word_of_int (PieceLength t) + chunkSize t - 1) div chunkSize t"

definition pieceNumChunks :: "geom \<Rightarrow> int \<Rightarrow> u32" where
  "pieceNumChunks t piece = (pieceLength t piece + chunkSize t - 1) div chunkSize t"

definition numChunks :: "geom \<Rightarrow> u32" where
  "numChunks t =
     (if NumPieces t = 0 then 0
      else word_of_int (int (NumPieces t) - 1) * chunksPerRegularPiece t +
           pieceNumChunks t (int (NumPieces t) - 1))"

definition pieceRequestIndexOffset :: "geom \<Rightarrow> int \<Rightarrow> u32" where
  "pieceRequestIndexOffset t piece = word_of_int piece * chunksPerRegularPiece t"

definition pieceIndexOfRequestIndex :: "geom \<Rightarrow> u32 \<Rightarrow> int" where
  "pieceIndexOfRequestIndex t ri = uint (ri div chunksPerRegularPiece t)"

definition requestIndexToRequest :: "geom \<Rightarrow> u32 \<Rightarrow> request_spec" where
  "requestIndexToRequest t ri =
     (let index = pieceIndexOfRequestIndex t ri;
          cs = chunkIndexSpec (ri mod chunksPerRegularPiece t) (pieceLength t index) (chunkSize t)
      in \<lparr>RIndex = word_of_int index, RBegin = fst cs, RLength = snd cs\<rparr>)"

definition requestIndexFromRequest :: "geom \<Rightarrow> request_spec \<Rightarrow> u32" where
  "requestIndexFromRequest t r =
     pieceRequestIndexOffset t (uint (RIndex r)) + RBegin r div chunkSize t"

definition chunkIndexFromChunkSpec :: "chunk_spec \<Rightarrow> u32 \<Rightarrow> u32" where
  "chunkIndexFromChunkSpec cs csize = fst cs div csize"

definition requestOffset :: "geom \<Rightarrow> request_spec \<Rightarrow> int option" where
  "requestOffset t r = torrentRequestOffset (TotalLength t) (PieceLength t) r"

definition offsetRequest :: "geom \<Rightarrow> int \<Rightarrow> request_spec option" where
  "offsetRequest t off =
     torrentOffsetRequest (TotalLength t) (PieceLength t) (uint (chunkSize t)) off"

datatype receive_error = MissingInfo | ChunkIndexTooLarge | ChunkBeginsBeyondPiece

definition checkValidReceiveChunk :: "geom option \<Rightarrow> request_spec \<Rightarrow> receive_error option" where
  "checkValidReceiveChunk info r =
     (case info of None \<Rightarrow> Some MissingInfo
      | Some t \<Rightarrow>
          if uint (RIndex r) \<ge> int (NumPieces t) then Some ChunkIndexTooLarge
          else if RBegin r \<ge> pieceLength t (uint (RIndex r)) then Some ChunkBeginsBeyondPiece
          else None)"

definition byteRegionPieces :: "geom \<Rightarrow> int \<Rightarrow> int \<Rightarrow> int \<times> int" where
  "byteRegionPieces t off sz =
     (if off \<ge> TotalLength t then (0, 0)
      else let sz = (if off < 0 then sz + off else sz);
               off = (if off < 0 then 0 else off)
           in if sz \<le> 0 then (0, 0)
              else let begin = off div PieceLength t;
                       end = (off + sz + PieceLength t - 1) div PieceLength t
                   in (begin, if end > int (NumPieces t) then int (NumPieces t) else end))"

section \<open>Files\<close>

record tfile =
  offset :: int
  flength :: int

fun pieceFirstFileIndex_from :: "nat \<Rightarrow> int \<Rightarrow> tfile list \<Rightarrow> nat" where
  "pieceFirstFileIndex_from i pieceOffset [] = 0"
| "pieceFirstFileIndex_from i pieceOffset (f # files) =
     (if offset f + flength f > pieceOffset then i else pieceFirstFileIndex_from (i + 1) pieceOffset files)"

definition pieceFirstFileIndex :: "int \<Rightarrow> tfile list \<Rightarrow> nat" where
  "pieceFirstFileIndex pieceOffset files = pieceFirstFileIndex_from 0 pieceOffset files"

fun pieceEndFileIndex_from :: "nat \<Rightarrow> int \<Rightarrow> tfile list \<Rightarrow> nat" where
  "pieceEndFileIndex_from i pieceEndOffset [] = 0"
| "pieceEndFileIndex_from i pieceEndOffset (f # files) =
     (if offset f + flength f \<ge> pieceEndOffset then i + 1
      else pieceEndFileIndex_from (i + 1) pieceEndOffset files)"

definition pieceEndFileIndex :: "int \<Rightarrow> tfile list \<Rightarrow> nat" where
  "pieceEndFileIndex pieceEndOffset files = pieceEndFileIndex_from 0 pieceEndOffset files"

definition fileBytesLeft :: "int \<Rightarrow> int \<Rightarrow> int \<Rightarrow> int \<Rightarrow> int \<Rightarrow> nat set \<Rightarrow> int" where
  "fileBytesLeft usual first endp off len completed =
     (let spanned = endp - first in
      if spanned = 0 then 0
      else if spanned = 1 then (if nat first \<notin> completed then len else 0)
      else (if nat first \<notin> completed then usual - off mod usual else 0)
         + (if nat (endp - 1) \<notin> completed then off + len - (endp - 1) * usual else 0)
         + (spanned - 2 - int (card (completed - {0..<nat (first + 1)} - {nat (endp - 1)..}))) * usual)"

definition byteRegionExclusivePieces :: "int \<Rightarrow> int \<Rightarrow> int \<Rightarrow> int \<times> int" where
  "byteRegionExclusivePieces off sz pieceSize =
     ((off + pieceSize - 1) div pieceSize, (off + sz) div pieceSize)"

definition BeginPieceIndex :: "int \<Rightarrow> tfile \<Rightarrow> int" where
  "BeginPieceIndex usual f = (if usual = 0 then 0 else offset f div usual)"

definition EndPieceIndex :: "int \<Rightarrow> tfile \<Rightarrow> int" where
  "EndPieceIndex usual f =
     (if usual = 0 then 0 else (offset f + flength f + usual - 1) div usual)"

definition file_bytesLeft :: "int \<Rightarrow> tfile \<Rightarrow> nat set \<Rightarrow> int" where
  "file_bytesLeft usual f completed =
     fileBytesLeft usual (BeginPieceIndex usual f) (EndPieceIndex usual f) (offset f) (flength f) completed"

section \<open>Words that do not overflow\<close>

lemma u32_bounds: "0 \<le> uint (w :: u32)" "uint (w :: u32) < 2 ^ 32"
  using unsigned_less [where w = w and 'a = int] by simp_all

lemma uint_add32: "uint (a :: u32) + uint b < 2 ^ 32 \<Longrightarrow> uint (a + b) = uint a + uint b"
  using uint_add_lem [of a b] by simp

lemma uint_mult32: "uint (a :: u32) * uint b < 2 ^ 32 \<Longrightarrow> uint (a * b) = uint a * uint b"
  using uint_mult_lem [of a b] by simp

lemma uint_sub32: "uint (b :: u32) \<le> uint a \<Longrightarrow> uint (a - b) = uint a - uint b"
  using uint_sub_lem [of b a] by simp

lemma uint_of_int32: "0 \<le> i \<Longrightarrow> i < 2 ^ 32 \<Longrightarrow> uint (word_of_int i :: u32) = i"
  by (simp add: uint_word_of_int)

lemma uint_ceil_div:
  fixes a c :: u32
  assumes "0 < uint c" "uint a + uint c \<le> 2 ^ 32"
  shows "uint ((a + c - 1) div c) = (uint a + uint c - 1) div uint c"
proof -
  have "a + c - 1 = a + (c - 1)" by simp
  moreover have c: "uint (c - 1) = uint c - 1" using assms(1) by (subst uint_sub32) auto
  moreover have "uint (a + (c - 1)) = uint a + (uint c - 1)"
    using assms c by (subst uint_add32) auto
  ultimately have "uint (a + c - 1) = uint a + uint c - 1" by (simp only:)
  then show ?thesis by (simp add: uint_div)
qed

section \<open>Chunks tile the torrent\<close>

text \<open>
  A valid geometry: what \<^verbatim>\<open>validateInfo\<close> checks of piece count and lengths, with sizes that fit
  the 32 bit arithmetic.
\<close>

definition chunks_of :: "geom \<Rightarrow> int \<Rightarrow> int" where
  "chunks_of t len = (len + uint (chunkSize t) - 1) div uint (chunkSize t)"

definition valid_geom :: "geom \<Rightarrow> bool" where
  "valid_geom t \<longleftrightarrow> 0 < PieceLength t \<and> 0 < uint (chunkSize t) \<and>
     PieceLength t + uint (chunkSize t) \<le> 2 ^ 32 \<and> 0 < TotalLength t \<and>
     int (NumPieces t) = (TotalLength t + PieceLength t - 1) div PieceLength t \<and>
     int (NumPieces t) * chunks_of t (PieceLength t) < 2 ^ 32"

definition piece_len :: "geom \<Rightarrow> int \<Rightarrow> int" where
  "piece_len t i = (if i = int (NumPieces t) - 1 then TotalLength t - i * PieceLength t else PieceLength t)"

lemma ceil_div_bounds:
  fixes a b :: int
  assumes "0 < b"
  shows "a \<le> (a + b - 1) div b * b" "(a + b - 1) div b * b < a + b"
proof -
  have "(a + b - 1) div b * b = a + b - 1 - (a + b - 1) mod b" by (simp add: minus_mod_eq_div_mult)
  moreover have "0 \<le> (a + b - 1) mod b" "(a + b - 1) mod b < b" using assms by auto
  ultimately show "a \<le> (a + b - 1) div b * b" "(a + b - 1) div b * b < a + b" by linarith+
qed

lemma ceil_div_less_iff:
  fixes a b k :: int
  assumes "0 < b"
  shows "k < (a + b - 1) div b \<longleftrightarrow> k * b < a"
proof -
  let ?q = "(a + b - 1) div b"
  have "k * b < a" if "k < ?q"
  proof -
    have "(k + 1) * b \<le> ?q * b" using that assms by (intro mult_right_mono) auto
    then show ?thesis using ceil_div_bounds(2) [OF assms, of a] by (simp add: algebra_simps)
  qed
  moreover have "k < ?q" if "k * b < a"
  proof -
    have "k * b < ?q * b" using that ceil_div_bounds(1) [OF assms, of a] by linarith
    then show ?thesis using assms by (simp add: mult_less_cancel_right)
  qed
  ultimately show ?thesis by blast
qed

lemma valid_geomD:
  assumes "valid_geom t"
  shows "0 < PieceLength t" "0 < uint (chunkSize t)" "PieceLength t + uint (chunkSize t) \<le> 2 ^ 32"
    "0 < TotalLength t" "int (NumPieces t) * chunks_of t (PieceLength t) < 2 ^ 32" "0 < NumPieces t"
    "(int (NumPieces t) - 1) * PieceLength t < TotalLength t"
    "TotalLength t \<le> int (NumPieces t) * PieceLength t"
proof -
  show *: "0 < PieceLength t" "0 < uint (chunkSize t)" "PieceLength t + uint (chunkSize t) \<le> 2 ^ 32"
    "0 < TotalLength t" "int (NumPieces t) * chunks_of t (PieceLength t) < 2 ^ 32"
    using assms unfolding valid_geom_def by blast+
  have n: "int (NumPieces t) = (TotalLength t + PieceLength t - 1) div PieceLength t"
    using assms by (simp add: valid_geom_def)
  show "(int (NumPieces t) - 1) * PieceLength t < TotalLength t"
    "TotalLength t \<le> int (NumPieces t) * PieceLength t"
    using ceil_div_bounds [OF *(1), of "TotalLength t"] by (simp_all add: n algebra_simps)
  then show "0 < NumPieces t" using *(4) by (cases "NumPieces t") auto
qed

lemma piece_len_bounds:
  assumes "valid_geom t"
  shows "0 < piece_len t i" "piece_len t i \<le> PieceLength t"
  using valid_geomD(1,7,8) [OF assms] unfolding piece_len_def by (auto simp: left_diff_distrib)

lemma uint_pieceLength:
  assumes "valid_geom t"
  shows "uint (pieceLength t i) = piece_len t i"
proof -
  note v = valid_geomD [OF assms]
  let ?L = "TotalLength t" and ?P = "PieceLength t" and ?n = "int (NumPieces t)"
  have m: "?L mod ?P = (if ?L = ?n * ?P then 0 else ?L - (?n - 1) * ?P)"
  proof (cases "?L = ?n * ?P")
    case False
    then have "0 \<le> ?L - (?n - 1) * ?P" "?L - (?n - 1) * ?P < ?P"
      using v(7,8) by (auto simp: algebra_simps)
    then have "(?L - (?n - 1) * ?P) mod ?P = ?L - (?n - 1) * ?P" by simp
    then show ?thesis using False by (metis mod_mult_self3 diff_add_cancel add.commute)
  qed simp
  have P: "0 \<le> ?P" "?P < 2 ^ 32" using v(1,2,3) by auto
  have r: "0 \<le> ?L mod ?P" "?L mod ?P < 2 ^ 32" using v(1) P(2) pos_mod_bound [of ?P ?L] pos_mod_sign [of ?P ?L] by linarith+
  have "(word_of_int (?L mod ?P) :: u32) = 0 \<longleftrightarrow> ?L mod ?P = 0"
    using uint_of_int32 [OF r] by (metis uint_0_eq uint_0_iff)
  then have "uint (pieceLength t i) = (if i = ?n - 1 \<and> ?L mod ?P \<noteq> 0 then ?L mod ?P else ?P)"
    using v(1) uint_of_int32 [OF r] uint_of_int32 [OF P] by (simp add: pieceLength_def Let_def)
  also have "\<dots> = piece_len t i"
    using v(7) by (simp add: piece_len_def m left_diff_distrib)
  finally show ?thesis .
qed

lemma uint_chunksPerRegularPiece:
  assumes "valid_geom t"
  shows "uint (chunksPerRegularPiece t) = chunks_of t (PieceLength t)"
proof -
  note v = valid_geomD [OF assms]
  have "uint (word_of_int (PieceLength t) :: u32) = PieceLength t" using v by (intro uint_of_int32) auto
  then show ?thesis using v by (simp add: chunksPerRegularPiece_def chunks_of_def uint_ceil_div)
qed

lemma uint_pieceNumChunks:
  assumes "valid_geom t"
  shows "uint (pieceNumChunks t i) = chunks_of t (piece_len t i)"
  using valid_geomD [OF assms] piece_len_bounds [OF assms, of i] uint_pieceLength [OF assms]
  by (simp add: pieceNumChunks_def chunks_of_def uint_ceil_div)

lemma chunks_of_less_iff:
  "valid_geom t \<Longrightarrow> k < chunks_of t len \<longleftrightarrow> k * uint (chunkSize t) < len"
  unfolding chunks_of_def by (rule ceil_div_less_iff) (rule valid_geomD)

lemma chunks_of_pos: "valid_geom t \<Longrightarrow> 0 < len \<Longrightarrow> 0 < chunks_of t len"
  by (simp add: chunks_of_less_iff)

lemma chunks_of_mono:
  assumes "valid_geom t" "len \<le> len'"
  shows "chunks_of t len \<le> chunks_of t len'"
  unfolding chunks_of_def using assms valid_geomD(2) [OF assms(1)] by (intro zdiv_mono1) auto

text \<open>A request index as its piece and chunk numbers.\<close>

definition is_chunk :: "geom \<Rightarrow> int \<Rightarrow> int \<Rightarrow> bool" where
  "is_chunk t i k \<longleftrightarrow> 0 \<le> i \<and> i < int (NumPieces t) \<and> 0 \<le> k \<and> k < chunks_of t (piece_len t i)"

definition ri_of :: "geom \<Rightarrow> int \<Rightarrow> int \<Rightarrow> u32" where
  "ri_of t i k = word_of_int (i * chunks_of t (PieceLength t) + k)"

lemma is_chunk_regular:
  "valid_geom t \<Longrightarrow> is_chunk t i k \<Longrightarrow> k < chunks_of t (PieceLength t)"
  using chunks_of_mono [of t "piece_len t i" "PieceLength t"] piece_len_bounds(2) [of t i]
  by (simp add: is_chunk_def)

lemma uint_ri_of:
  assumes "valid_geom t" "is_chunk t i k"
  shows "uint (ri_of t i k) = i * chunks_of t (PieceLength t) + k"
proof -
  let ?C = "chunks_of t (PieceLength t)"
  have "0 < ?C" using assms(1) by (intro chunks_of_pos) (auto dest: valid_geomD)
  have "i * ?C + k < (i + 1) * ?C" using is_chunk_regular [OF assms] by (simp add: algebra_simps)
  also have "\<dots> \<le> int (NumPieces t) * ?C"
    using assms(2) \<open>0 < ?C\<close> by (intro mult_right_mono) (auto simp: is_chunk_def)
  finally have "i * ?C + k < 2 ^ 32" using valid_geomD(5) [OF assms(1)] by linarith
  moreover have "0 \<le> i * ?C + k" using assms(2) \<open>0 < ?C\<close> by (simp add: is_chunk_def)
  ultimately show ?thesis unfolding ri_of_def by (intro uint_of_int32)
qed

lemma uint_numChunks:
  assumes "valid_geom t"
  shows "uint (numChunks t) =
    (int (NumPieces t) - 1) * chunks_of t (PieceLength t) + chunks_of t (piece_len t (int (NumPieces t) - 1))"
proof -
  let ?C = "chunks_of t (PieceLength t)" and ?n = "int (NumPieces t)"
  let ?last = "chunks_of t (piece_len t (?n - 1))"
  note v = valid_geomD [OF assms]
  have C: "0 < ?C" using assms v(1) by (rule chunks_of_pos)
  have last: "?last \<le> ?C" by (intro chunks_of_mono piece_len_bounds assms)
  have bound: "(?n - 1) * ?C + ?C < 2 ^ 32" using v(5) by (simp add: algebra_simps)
  have le: "?n - 1 \<le> (?n - 1) * ?C" using mult_left_mono [of 1 ?C "?n - 1"] C v(6) by simp
  define m :: u32 where "m = word_of_int (?n - 1)"
  have "uint m = ?n - 1"
    unfolding m_def using v(6) le bound C by (intro uint_of_int32) linarith+
  then have m: "uint (m * chunksPerRegularPiece t) = (?n - 1) * ?C"
    using bound C by (subst uint_mult32) (simp_all add: uint_chunksPerRegularPiece [OF assms])
  have "uint (m * chunksPerRegularPiece t + pieceNumChunks t (?n - 1)) = (?n - 1) * ?C + ?last"
    using last bound by (subst uint_add32) (simp_all add: m uint_pieceNumChunks [OF assms])
  then show ?thesis using v(6) by (simp add: numChunks_def m_def)
qed

lemma ri_cases:
  assumes "valid_geom t" "ri < numChunks t"
  obtains i k where "is_chunk t i k" "ri = ri_of t i k"
proof -
  let ?C = "chunks_of t (PieceLength t)" and ?n = "int (NumPieces t)"
  let ?i = "uint ri div ?C" and ?k = "uint ri mod ?C"
  note v = valid_geomD [OF assms(1)]
  have C: "0 < ?C" using assms(1) v(1) by (rule chunks_of_pos)
  have split: "?i * ?C + ?k = uint ri" by (rule div_mult_mod_eq)
  have k: "0 \<le> ?k" "?k < ?C" using C by simp_all
  have i: "0 \<le> ?i" using C by (simp add: pos_imp_zdiv_nonneg_iff)
  have less: "uint ri < (?n - 1) * ?C + chunks_of t (piece_len t (?n - 1))"
    using assms(2) uint_numChunks [OF assms(1)] by (simp add: word_less_def)
  have last: "chunks_of t (piece_len t (?n - 1)) \<le> ?C" by (intro chunks_of_mono piece_len_bounds assms)
  have "?i * ?C \<le> uint ri" using k split by linarith
  also have "\<dots> < ?n * ?C" using less last by (simp add: algebra_simps)
  finally have i2: "?i < ?n" using C by (simp add: mult_less_cancel_right)
  have "?k < chunks_of t (piece_len t ?i)"
  proof (cases "?i = ?n - 1")
    case True
    then show ?thesis using less split by simp
  next
    case False
    then show ?thesis using k by (simp add: piece_len_def)
  qed
  then have "is_chunk t ?i ?k" using i i2 k by (simp add: is_chunk_def)
  moreover have "ri = ri_of t ?i ?k" using split by (simp add: ri_of_def)
  ultimately show ?thesis by (rule that)
qed

lemma ri_of_less:
  assumes "valid_geom t" "is_chunk t i k"
  shows "ri_of t i k < numChunks t"
proof -
  let ?C = "chunks_of t (PieceLength t)" and ?n = "int (NumPieces t)"
  have C: "0 < ?C" using assms(1) valid_geomD(1) by (metis chunks_of_pos)
  have "i * ?C + k < (?n - 1) * ?C + chunks_of t (piece_len t (?n - 1))"
  proof (cases "i = ?n - 1")
    case False
    then have "i + 1 \<le> ?n - 1" using assms(2) by (simp add: is_chunk_def)
    then have "(i + 1) * ?C \<le> (?n - 1) * ?C" using C by (intro mult_right_mono) auto
    moreover have "k < ?C" by (rule is_chunk_regular [OF assms])
    moreover have "0 < chunks_of t (piece_len t (?n - 1))"
      by (intro chunks_of_pos piece_len_bounds assms)
    ultimately show ?thesis by (simp add: algebra_simps)
  qed (use assms(2) in \<open>simp add: is_chunk_def\<close>)
  then show ?thesis by (simp add: word_less_def uint_ri_of [OF assms] uint_numChunks [OF assms(1)])
qed

definition chunk_len :: "geom \<Rightarrow> int \<Rightarrow> int \<Rightarrow> int" where
  "chunk_len t i k = min (uint (chunkSize t)) (piece_len t i - k * uint (chunkSize t))"

lemma chunk_begin_less:
  "valid_geom t \<Longrightarrow> is_chunk t i k \<Longrightarrow> 0 \<le> k * uint (chunkSize t) \<and> k * uint (chunkSize t) < piece_len t i"
  by (simp add: is_chunk_def chunks_of_less_iff)

lemma chunk_len_bounds:
  assumes "valid_geom t" "is_chunk t i k"
  shows "0 < chunk_len t i k" "k * uint (chunkSize t) + chunk_len t i k \<le> piece_len t i"
    "chunk_len t i k \<le> uint (chunkSize t)"
  using chunk_begin_less [OF assms] valid_geomD(2) [OF assms(1)] by (auto simp: chunk_len_def)

lemma ri_of_parts:
  assumes "valid_geom t" "is_chunk t i k"
  shows "pieceIndexOfRequestIndex t (ri_of t i k) = i" "uint (ri_of t i k mod chunksPerRegularPiece t) = k"
proof -
  have k: "0 \<le> k" "k < chunks_of t (PieceLength t)"
    using is_chunk_regular [OF assms] assms(2) by (auto simp: is_chunk_def)
  then show "pieceIndexOfRequestIndex t (ri_of t i k) = i"
    "uint (ri_of t i k mod chunksPerRegularPiece t) = k"
    by (simp_all add: pieceIndexOfRequestIndex_def uint_div uint_mod uint_ri_of [OF assms]
        uint_chunksPerRegularPiece [OF assms(1)])
qed

lemma request_of_chunk:
  assumes "valid_geom t" "is_chunk t i k"
  shows "uint (RIndex (requestIndexToRequest t (ri_of t i k))) = i"
    "uint (RBegin (requestIndexToRequest t (ri_of t i k))) = k * uint (chunkSize t)"
    "uint (RLength (requestIndexToRequest t (ri_of t i k))) = chunk_len t i k"
proof -
  note v = valid_geomD [OF assms(1)]
  let ?w = "ri_of t i k mod chunksPerRegularPiece t" and ?cs = "uint (chunkSize t)"
  have cb: "0 \<le> k * ?cs" "k * ?cs < piece_len t i" using chunk_begin_less [OF assms] by auto
  have pl: "piece_len t i \<le> PieceLength t" by (rule piece_len_bounds [OF assms(1)])
  have b: "uint (?w * chunkSize t) = k * ?cs"
    using cb pl v(2,3) by (subst uint_mult32) (auto simp: ri_of_parts [OF assms])
  then have e: "uint (?w * chunkSize t + chunkSize t) = k * ?cs + ?cs"
    using cb pl v(2,3) by (subst uint_add32) auto
  have l: "uint (pieceLength t i - ?w * chunkSize t) = piece_len t i - k * ?cs"
    using cb by (subst uint_sub32) (simp_all add: b uint_pieceLength [OF assms(1)])
  have "0 < chunks_of t (PieceLength t)" using assms(1) v(1) by (rule chunks_of_pos)
  then have "i \<le> uint (ri_of t i k)"
    using assms(2) mult_left_mono [of 1 "chunks_of t (PieceLength t)" i]
    by (simp add: uint_ri_of [OF assms] is_chunk_def)
  then have i: "0 \<le> i" "i < 2 ^ 32"
    using assms(2) u32_bounds(2) [of "ri_of t i k"] by (auto simp: is_chunk_def simp del: uint_word_of_int)
  show "uint (RIndex (requestIndexToRequest t (ri_of t i k))) = i"
    by (simp add: requestIndexToRequest_def Let_def ri_of_parts [OF assms] uint_of_int32 [OF i] del: uint_word_of_int)
  show "uint (RBegin (requestIndexToRequest t (ri_of t i k))) = k * ?cs"
    by (simp add: requestIndexToRequest_def Let_def ri_of_parts(1) [OF assms] chunkIndexSpec_def b)
  show "uint (RLength (requestIndexToRequest t (ri_of t i k))) = chunk_len t i k"
    by (simp add: requestIndexToRequest_def Let_def ri_of_parts(1) [OF assms] chunkIndexSpec_def l
        word_less_def e uint_pieceLength [OF assms(1)] chunk_len_def)
qed

lemma from_request_of_chunk:
  assumes "valid_geom t" "is_chunk t i k"
  shows "requestIndexFromRequest t (requestIndexToRequest t (ri_of t i k)) = ri_of t i k"
proof -
  note r = request_of_chunk [OF assms]
  let ?C = "chunks_of t (PieceLength t)" and ?w = "word_of_int i :: u32"
  have "0 < uint (chunkSize t)" by (rule valid_geomD [OF assms(1)])
  then have k: "uint (RBegin (requestIndexToRequest t (ri_of t i k)) div chunkSize t) = k"
    by (simp add: uint_div r)
  have ik: "i * ?C + k < 2 ^ 32" using uint_ri_of [OF assms] u32_bounds(2) [of "ri_of t i k"] by simp
  have "uint ?w = i" using r(1) u32_bounds [of "RIndex (requestIndexToRequest t (ri_of t i k))"]
    by (intro uint_of_int32) auto
  then have p: "uint (?w * chunksPerRegularPiece t) = i * ?C"
    using ik assms(2) by (subst uint_mult32) (auto simp: uint_chunksPerRegularPiece [OF assms(1)] is_chunk_def)
  have "uint (requestIndexFromRequest t (requestIndexToRequest t (ri_of t i k))) = i * ?C + k"
    unfolding requestIndexFromRequest_def pieceRequestIndexOffset_def r(1)
    using ik by (subst uint_add32) (simp_all add: p k)
  then show ?thesis by (simp add: word_uint_eq_iff uint_ri_of [OF assms])
qed

lemma request_index_valid:
  assumes "valid_geom t" "ri < numChunks t"
  shows "let r = requestIndexToRequest t ri in
    requestIndexFromRequest t r = ri \<and> checkValidReceiveChunk (Some t) r = None \<and>
    \<not> chunkOverflowsPiece (RBegin r, RLength r) (pieceLength t (uint (RIndex r))) \<and>
    0 < RLength r \<and> RLength r \<le> chunkSize t"
proof -
  obtain i k where ik: "is_chunk t i k" "ri = ri_of t i k" by (rule ri_cases [OF assms])
  let ?r = "requestIndexToRequest t ri"
  note r = request_of_chunk [OF assms(1) ik(1), folded ik(2)]
  note b = chunk_len_bounds [OF assms(1) ik(1)] chunk_begin_less [OF assms(1) ik(1)]
  note pl = uint_pieceLength [OF assms(1), of i]
  have "uint (RBegin ?r) + uint (RLength ?r) < 2 ^ 32"
    using b(2) r(2,3) pl u32_bounds(2) [of "pieceLength t i"] by linarith
  then have sum: "uint (RBegin ?r + RLength ?r) = uint (RBegin ?r) + uint (RLength ?r)"
    "uint (0xFFFFFFFF - RLength ?r) = 0xFFFFFFFF - uint (RLength ?r)"
    using u32_bounds [of "RLength ?r"] by (simp_all add: uint_add32 uint_sub32)
  have "requestIndexFromRequest t ?r = ri"
    using from_request_of_chunk [OF assms(1) ik(1)] ik(2) by simp
  moreover have "checkValidReceiveChunk (Some t) ?r = None"
    using b r ik(1) pl by (simp add: checkValidReceiveChunk_def word_le_def is_chunk_def)
  moreover have "\<not> chunkOverflowsPiece (RBegin ?r, RLength ?r) (pieceLength t (uint (RIndex ?r)))"
    using b(2) \<open>_ < 2 ^ 32\<close> unfolding chunkOverflowsPiece_def fst_conv snd_conv word_less_def sum r pl
    by simp
  moreover have "0 < RLength ?r" "RLength ?r \<le> chunkSize t"
    using b r by (simp_all add: word_less_def word_le_def)
  ultimately show ?thesis by (simp add: Let_def)
qed

text \<open>
  C12. Request indexes and requests: every request index of a valid torrent stands for a non-empty
  chunk that lies inside one of its pieces, passes the check on received chunks, does not
  overflow its piece, and maps back to the same index.
\<close>
theorem request_index_roundtrip:
  assumes "valid_geom t" "ri < numChunks t"
  shows "let r = requestIndexToRequest t ri in
    requestIndexFromRequest t r = ri \<and> checkValidReceiveChunk (Some t) r = None \<and>
    \<not> chunkOverflowsPiece (RBegin r, RLength r) (pieceLength t (uint (RIndex r))) \<and>
    0 < RLength r \<and> RLength r \<le> chunkSize t"
  by (rule request_index_valid [OF assms])

definition sample_geom :: geom where
  "sample_geom = \<lparr>PieceLength = 10, TotalLength = 25, NumPieces = 3, chunkSize = 4\<rparr>"

lemma sample_geom_valid: "valid_geom sample_geom"
  by (simp add: sample_geom_def valid_geom_def chunks_of_def)

lemma sample_geom_numChunks: "numChunks sample_geom = 8"
  by code_simp

theorem request_index_roundtrip_witness:
  "let r = requestIndexToRequest sample_geom 7 in
    requestIndexFromRequest sample_geom r = 7 \<and> checkValidReceiveChunk (Some sample_geom) r = None \<and>
    \<not> chunkOverflowsPiece (RBegin r, RLength r) (pieceLength sample_geom (uint (RIndex r))) \<and>
    0 < RLength r \<and> RLength r \<le> chunkSize sample_geom"
  by (rule request_index_roundtrip [OF sample_geom_valid]) (simp add: sample_geom_numChunks)

lemma piece_end_le:
  assumes "valid_geom t" "is_chunk t i k"
  shows "i * PieceLength t + piece_len t i \<le> TotalLength t"
proof (cases "i = int (NumPieces t) - 1")
  case False
  then have "(i + 1) * PieceLength t \<le> (int (NumPieces t) - 1) * PieceLength t"
    using assms valid_geomD(1) by (intro mult_right_mono) (auto simp: is_chunk_def less_imp_le)
  then show ?thesis using False valid_geomD(7) [OF assms(1)] by (simp add: piece_len_def algebra_simps)
qed (simp add: piece_len_def)

lemma requestOffset_of_chunk:
  assumes "valid_geom t" "is_chunk t i k"
  shows "requestOffset t (requestIndexToRequest t (ri_of t i k)) =
      Some (i * PieceLength t + k * uint (chunkSize t))"
    and "i * PieceLength t + k * uint (chunkSize t) + chunk_len t i k \<le> TotalLength t"
proof -
  note v = valid_geomD [OF assms(1)] and b = chunk_len_bounds [OF assms] chunk_begin_less [OF assms]
  have "i * PieceLength t + piece_len t i \<le> TotalLength t" by (rule piece_end_le [OF assms])
  with b show le: "i * PieceLength t + k * uint (chunkSize t) + chunk_len t i k \<le> TotalLength t" by linarith
  have "0 \<le> i * PieceLength t" using assms(2) v(1) by (simp add: is_chunk_def)
  with le b show "requestOffset t (requestIndexToRequest t (ri_of t i k)) =
      Some (i * PieceLength t + k * uint (chunkSize t))"
    by (simp add: requestOffset_def torrentRequestOffset_def request_of_chunk [OF assms])
qed

lemma next_chunk:
  assumes "valid_geom t" "is_chunk t i k"
  shows "k + 1 < chunks_of t (piece_len t i) \<Longrightarrow>
      is_chunk t i (k + 1) \<and> ri_of t i k + 1 = ri_of t i (k + 1) \<and> chunk_len t i k = uint (chunkSize t)"
    and "\<not> k + 1 < chunks_of t (piece_len t i) \<Longrightarrow>
      k * uint (chunkSize t) + chunk_len t i k = piece_len t i"
  using assms(2) chunks_of_less_iff [OF assms(1), of "k + 1" "piece_len t i"]
  by (auto simp: is_chunk_def ri_of_def chunk_len_def algebra_simps)

lemma next_piece:
  assumes "valid_geom t" "is_chunk t i k" "\<not> k + 1 < chunks_of t (piece_len t i)" "i + 1 < int (NumPieces t)"
  shows "is_chunk t (i + 1) 0 \<and> ri_of t i k + 1 = ri_of t (i + 1) 0 \<and> piece_len t i = PieceLength t"
proof -
  have pl: "piece_len t i = PieceLength t" using assms(4) by (simp add: piece_len_def)
  have "k + 1 = chunks_of t (PieceLength t)" using assms(2,3) pl by (simp add: is_chunk_def)
  then have "i * chunks_of t (PieceLength t) + k + 1 = (i + 1) * chunks_of t (PieceLength t) + 0"
    by (simp add: algebra_simps)
  then have "ri_of t i k + 1 = ri_of t (i + 1) 0"
    unfolding ri_of_def by (metis of_int_add of_int_1)
  moreover have "is_chunk t (i + 1) 0"
    using assms by (simp add: is_chunk_def chunks_of_pos piece_len_bounds)
  ultimately show ?thesis using pl by simp
qed

lemma is_chunk_unique:
  assumes "valid_geom t" "is_chunk t i k" "is_chunk t i' k'" "ri_of t i k = ri_of t i' k'"
  shows "i = i' \<and> k = k'"
  using ri_of_parts [OF assms(1,2)] ri_of_parts [OF assms(1,3)] assms(4) by simp

lemma last_chunk:
  assumes "valid_geom t" "is_chunk t i k" "\<not> k + 1 < chunks_of t (piece_len t i)"
    "\<not> i + 1 < int (NumPieces t)"
  shows "\<not> ri_of t i k + 1 < numChunks t"
    and "i * PieceLength t + k * uint (chunkSize t) + chunk_len t i k = TotalLength t"
proof -
  have i: "i = int (NumPieces t) - 1" using assms(2,4) by (simp add: is_chunk_def)
  then show "i * PieceLength t + k * uint (chunkSize t) + chunk_len t i k = TotalLength t"
    using next_chunk(2) [OF assms(1,2,3)] by (simp add: piece_len_def)
  have k: "k + 1 = chunks_of t (piece_len t i)" using assms(2,3) by (simp add: is_chunk_def)
  then have "uint (ri_of t i k) + 1 = uint (numChunks t)"
    using uint_numChunks [OF assms(1)] uint_ri_of [OF assms(1,2)] i by simp
  then have "numChunks t = ri_of t i k + 1"
    by (metis of_int_1 of_int_add word_of_int_uint)
  then show "\<not> ri_of t i k + 1 < numChunks t" by simp
qed

text \<open>
  C27. The chunks of a valid torrent tile it: the first request starts at offset zero, each one
  starts where the one before ends, and the last one ends at the length of the torrent.
\<close>
theorem requests_tile_torrent:
  assumes "valid_geom t" "ri < numChunks t"
  shows "\<exists>off. requestOffset t (requestIndexToRequest t ri) = Some off \<and> (ri = 0 \<longrightarrow> off = 0) \<and>
    (if ri + 1 < numChunks t
     then requestOffset t (requestIndexToRequest t (ri + 1)) =
       Some (off + uint (RLength (requestIndexToRequest t ri)))
     else off + uint (RLength (requestIndexToRequest t ri)) = TotalLength t)"
proof -
  obtain i k where ik: "is_chunk t i k" "ri = ri_of t i k" by (rule ri_cases [OF assms])
  let ?off = "i * PieceLength t + k * uint (chunkSize t)"
  note len = request_of_chunk(3) [OF assms(1) ik(1)]
  have off: "requestOffset t (requestIndexToRequest t ri) = Some ?off"
    unfolding ik(2) by (rule requestOffset_of_chunk(1) [OF assms(1) ik(1)])
  have zero: "ri = 0 \<longrightarrow> ?off = 0"
  proof
    assume "ri = 0"
    moreover have "0 < chunks_of t (PieceLength t)" using assms(1) valid_geomD(1) by (metis chunks_of_pos)
    moreover have "uint ri = i * chunks_of t (PieceLength t) + k" "0 \<le> i" "0 \<le> k"
      using ik uint_ri_of [OF assms(1) ik(1)] by (auto simp: is_chunk_def)
    ultimately show "?off = 0" by (simp add: add_nonneg_eq_0_iff)
  qed
  consider "k + 1 < chunks_of t (piece_len t i)"
    | "\<not> k + 1 < chunks_of t (piece_len t i)" "i + 1 < int (NumPieces t)"
    | "\<not> k + 1 < chunks_of t (piece_len t i)" "\<not> i + 1 < int (NumPieces t)" by blast
  then show ?thesis
  proof cases
    case 1
    note n = next_chunk(1) [OF assms(1) ik(1) 1]
    then have "ri + 1 < numChunks t" using ri_of_less [OF assms(1)] ik(2) by metis
    moreover have "requestOffset t (requestIndexToRequest t (ri + 1)) = Some (?off + uint (chunkSize t))"
      using n requestOffset_of_chunk(1) [OF assms(1), of i "k + 1"] ik(2) by (simp add: algebra_simps)
    ultimately show ?thesis using off zero len n ik(2) by simp
  next
    case 2
    note n = next_piece [OF assms(1) ik(1) 2]
    then have "ri + 1 < numChunks t" using ri_of_less [OF assms(1)] ik(2) by metis
    moreover have "requestOffset t (requestIndexToRequest t (ri + 1)) = Some (?off + chunk_len t i k)"
      using n requestOffset_of_chunk(1) [OF assms(1), of "i + 1" 0] next_chunk(2) [OF assms(1) ik(1) 2(1)]
      by (simp add: ik(2) algebra_simps)
    ultimately show ?thesis using off zero len ik(2) by simp
  next
    case 3
    show ?thesis using last_chunk [OF assms(1) ik(1) 3] off zero len ik(2) by simp
  qed
qed

theorem requests_tile_torrent_witness:
  "\<exists>off. requestOffset sample_geom (requestIndexToRequest sample_geom 7) = Some off \<and> ((7 :: u32) = 0 \<longrightarrow> off = 0) \<and>
    (if 7 + 1 < numChunks sample_geom
     then requestOffset sample_geom (requestIndexToRequest sample_geom (7 + 1)) =
       Some (off + uint (RLength (requestIndexToRequest sample_geom 7)))
     else off + uint (RLength (requestIndexToRequest sample_geom 7)) = TotalLength sample_geom)"
  by (rule requests_tile_torrent [OF sample_geom_valid]) (simp add: sample_geom_numChunks)

text \<open>
  C40. Overflow of a piece: with 32 bit sums that may wrap, \<open>chunkOverflowsPiece\<close> decides exactly
  whether the chunk ends beyond the piece.
\<close>
theorem chunkOverflowsPiece_exact:
  "chunkOverflowsPiece (begin, len) plen \<longleftrightarrow> uint begin + uint len > uint plen"
proof -
  have sub: "uint (0xFFFFFFFF - len) = 0xFFFFFFFF - uint len"
    using u32_bounds [of len] by (simp add: uint_sub32)
  show ?thesis
  proof (cases "uint begin + uint len < 2 ^ 32")
    case True
    then show ?thesis
      unfolding chunkOverflowsPiece_def fst_conv snd_conv word_less_def sub uint_add32 [OF True] by auto
  next
    case False
    then show ?thesis
      using u32_bounds(2) [of plen]
      unfolding chunkOverflowsPiece_def fst_conv snd_conv word_less_def sub by auto
  qed
qed

section \<open>Bytes left of a file\<close>

text \<open>The bytes piece \<open>p\<close> holds of the file \<open>[off, off + len)\<close>.\<close>

definition overlap :: "int \<Rightarrow> int \<Rightarrow> int \<Rightarrow> nat \<Rightarrow> int" where
  "overlap usual off len p = min ((int p + 1) * usual) (off + len) - max (int p * usual) off"

definition missing_pieces :: "int \<Rightarrow> tfile \<Rightarrow> nat set \<Rightarrow> nat set" where
  "missing_pieces usual f completed =
     {p. BeginPieceIndex usual f \<le> int p \<and> int p < EndPieceIndex usual f \<and> p \<notin> completed}"

lemma piece_range:
  assumes "0 < usual" "0 \<le> offset f" "0 \<le> flength f"
  shows "0 \<le> BeginPieceIndex usual f" "BeginPieceIndex usual f \<le> EndPieceIndex usual f"
    "BeginPieceIndex usual f * usual \<le> offset f" "offset f < (BeginPieceIndex usual f + 1) * usual"
    "offset f + flength f \<le> EndPieceIndex usual f * usual"
    "EndPieceIndex usual f * usual < offset f + flength f + usual"
proof -
  have B: "BeginPieceIndex usual f * usual = offset f - offset f mod usual"
    using assms(1) by (simp add: BeginPieceIndex_def minus_mod_eq_div_mult)
  have m: "0 \<le> offset f mod usual" "offset f mod usual < usual" using assms(1) by auto
  show "0 \<le> BeginPieceIndex usual f"
    using assms by (simp add: BeginPieceIndex_def pos_imp_zdiv_nonneg_iff)
  show b: "BeginPieceIndex usual f * usual \<le> offset f" "offset f < (BeginPieceIndex usual f + 1) * usual"
    using B m by (simp_all add: algebra_simps)
  show e: "offset f + flength f \<le> EndPieceIndex usual f * usual"
    "EndPieceIndex usual f * usual < offset f + flength f + usual"
    using ceil_div_bounds [OF assms(1), of "offset f + flength f"] assms(1) by (simp_all add: EndPieceIndex_def)
  have "BeginPieceIndex usual f * usual \<le> EndPieceIndex usual f * usual" using b(1) e(1) assms(3) by linarith
  then show "BeginPieceIndex usual f \<le> EndPieceIndex usual f" using assms(1) by (simp add: mult_le_cancel_right)
qed

lemma overlap_first:
  assumes "0 < usual" "int p * usual \<le> off" "(int p + 1) * usual \<le> off + len" "off < (int p + 1) * usual"
  shows "overlap usual off len p = usual - off mod usual"
proof -
  have "(off - int p * usual) mod usual = off - int p * usual"
    using assms by (intro mod_pos_pos_trivial) (auto simp: algebra_simps)
  then have "off mod usual = off - int p * usual"
    by (metis add.commute diff_add_cancel mod_mult_self3)
  then show ?thesis using assms by (simp add: overlap_def algebra_simps)
qed

lemma overlap_last:
  "off \<le> int p * usual \<Longrightarrow> off + len \<le> (int p + 1) * usual \<Longrightarrow> overlap usual off len p = off + len - int p * usual"
  by (simp add: overlap_def)

lemma overlap_middle:
  "off \<le> int p * usual \<Longrightarrow> (int p + 1) * usual \<le> off + len \<Longrightarrow> overlap usual off len p = usual"
  by (simp add: overlap_def algebra_simps)

lemma middle_count:
  assumes "f + 1 < e"
  shows "int (card ({f + 1..<e - 1} - completed)) =
    int e - int f - 2 - int (card (completed - {0..<f + 1} - {e - 1..}))"
proof -
  have eq: "completed - {0..<f + 1} - {e - 1..} = {f + 1..<e - 1} \<inter> completed"
    using assms by auto
  have "card {f + 1..<e - 1} = card ({f + 1..<e - 1} \<inter> completed) + card ({f + 1..<e - 1} - completed)"
    by (subst card_Int_Diff [symmetric]) auto
  moreover have "int (card {f + 1..<e - 1}) = int e - int f - 2" using assms by simp
  ultimately show ?thesis unfolding eq by linarith
qed

lemma missing_pieces_split:
  assumes "BeginPieceIndex usual f = int b" "EndPieceIndex usual f = int e" "b + 1 < e"
  shows "missing_pieces usual f completed =
    ({b} - completed) \<union> ({e - 1} - completed) \<union> ({b + 1..<e - 1} - completed)"
  using assms by (auto simp: missing_pieces_def)



section \<open>The request at an offset\<close>

lemma chunk_at_offset:
  assumes "valid_geom t" "0 \<le> off" "off < TotalLength t"
  shows "is_chunk t (off div PieceLength t) (off mod PieceLength t div uint (chunkSize t))"
proof -
  note v = valid_geomD [OF assms(1)]
  let ?i = "off div PieceLength t" and ?o = "off mod PieceLength t"
  have d: "?i * PieceLength t + ?o = off" by (rule div_mult_mod_eq)
  have o: "0 \<le> ?o" "?o < PieceLength t" using v(1) by auto
  have "?i * PieceLength t < int (NumPieces t) * PieceLength t" using d o(1) assms(3) v(8) by linarith
  then have i: "?i < int (NumPieces t)" using v(1) by (simp add: mult_less_cancel_right)
  have "?o < TotalLength t - ?i * PieceLength t" using d assms(3) by linarith
  then have "?o < piece_len t ?i" using o(2) by (metis piece_len_def)
  moreover have "?o div uint (chunkSize t) * uint (chunkSize t) \<le> ?o"
    using v(2) pos_mod_sign [of "uint (chunkSize t)" ?o] by (simp add: minus_mod_eq_div_mult [symmetric])
  ultimately have "?o div uint (chunkSize t) < chunks_of t (piece_len t ?i)"
    using chunks_of_less_iff [OF assms(1)] by (meson le_less_trans)
  moreover have "0 \<le> ?o div uint (chunkSize t)" "0 \<le> ?i"
    using o v assms(2) by (simp_all add: pos_imp_zdiv_nonneg_iff)
  ultimately show ?thesis using i by (simp add: is_chunk_def)
qed

lemma offsetRequest_chunk:
  assumes "valid_geom t" "0 \<le> off" "off < TotalLength t"
    "i = off div PieceLength t" "k = off mod PieceLength t div uint (chunkSize t)"
  shows "offsetRequest t off = Some (requestIndexToRequest t (ri_of t i k))"
proof -
  note v = valid_geomD [OF assms(1)]
  let ?cs = "uint (chunkSize t)" and ?r = "requestIndexToRequest t (ri_of t i k)"
  have c: "is_chunk t i k" unfolding assms(4,5) by (rule chunk_at_offset [OF assms(1-3)])
  note r = request_of_chunk [OF assms(1) c] and b = chunk_begin_less [OF assms(1) c]
  have pl: "piece_len t i \<le> PieceLength t" by (rule piece_len_bounds [OF assms(1)])
  have wi: "word_of_int i = RIndex ?r" using r(1) by (metis word_of_int_uint)
  have wb: "word_of_int (k * ?cs) = RBegin ?r" using r(2) by (metis word_of_int_uint)
  define w :: u32 where "w = word_of_int (PieceLength t - k * ?cs)"
  have left: "uint w = PieceLength t - k * ?cs"
    unfolding w_def using b pl v(2,3) by (intro uint_of_int32) linarith+
  define len1 where "len1 = (if chunkSize t > w then w else chunkSize t)"
  have len1: "uint len1 = min ?cs (PieceLength t - k * ?cs)"
    by (simp add: len1_def word_less_def left)
  define tl where "tl = TotalLength t - i * PieceLength t - k * ?cs"
  have tl: "piece_len t i - k * ?cs \<le> tl" "piece_len t i = PieceLength t \<or> piece_len t i - k * ?cs = tl"
    using piece_end_le [OF assms(1) c] by (auto simp: piece_len_def tl_def)
  define len2 where "len2 = (if uint len1 > tl then word_of_int tl else len1)"
  have "uint (word_of_int tl :: u32) = tl" if "uint len1 > tl"
    using that tl(1) b u32_bounds(2) [of len1] by (intro uint_of_int32) linarith+
  then have "uint len2 = min (uint len1) tl" by (simp add: len2_def)
  also have "\<dots> = chunk_len t i k" unfolding len1 chunk_len_def using tl pl by linarith
  finally have "len2 = RLength ?r" using r(3) by (simp add: word_uint_eq_iff)
  have dom: "(off < 0 \<or> TotalLength t \<le> off) = False" using assms(2,3) by simp
  have "offsetRequest t off = Some (newRequest (RIndex ?r) (RBegin ?r) len2)"
    unfolding offsetRequest_def torrentOffsetRequest_def Let_def dom if_False assms(4,5) [symmetric]
      wi wb r(1,2) word_of_int_uint w_def [symmetric] len1_def [symmetric] tl_def [symmetric]
      len2_def [symmetric] by (rule refl)
  then show ?thesis by (simp add: \<open>len2 = RLength ?r\<close> newRequest_def)
qed

text \<open>
  The request at an offset: for every offset inside a valid torrent \<open>offsetRequest\<close> gives one
  of the torrent's chunk requests, and that chunk contains the offset; outside the torrent it
  gives none.
\<close>
theorem offsetRequest_contains:
  assumes "valid_geom t"
  shows "case offsetRequest t off of
      None \<Rightarrow> off < 0 \<or> off \<ge> TotalLength t
    | Some r \<Rightarrow> (\<exists>ri start. ri < numChunks t \<and> r = requestIndexToRequest t ri \<and>
        requestOffset t r = Some start \<and> start \<le> off \<and> off < start + uint (RLength r))"
proof (cases "0 \<le> off \<and> off < TotalLength t")
  case True
  let ?i = "off div PieceLength t" and ?cs = "uint (chunkSize t)"
  let ?o = "off mod PieceLength t"
  let ?k = "?o div ?cs"
  note v = valid_geomD [OF assms]
  have c: "is_chunk t ?i ?k" using chunk_at_offset [OF assms] True by blast
  have o: "?i * PieceLength t + ?o = off" "?k * ?cs + ?o mod ?cs = ?o" by (rule div_mult_mod_eq)+
  have m: "0 \<le> ?o mod ?cs" "?o mod ?cs < ?cs" using v(2) by auto
  have "?o < TotalLength t - ?i * PieceLength t" using o(1) True by linarith
  then have "?o < piece_len t ?i" using pos_mod_bound [OF v(1), of off] by (metis piece_len_def)
  then have "off < ?i * PieceLength t + ?k * ?cs + chunk_len t ?i ?k"
    unfolding chunk_len_def using o m by linarith
  moreover have "?i * PieceLength t + ?k * ?cs \<le> off" using o m by linarith
  ultimately show ?thesis
    using offsetRequest_chunk [OF assms _ _ refl refl, of off] True ri_of_less [OF assms c]
      requestOffset_of_chunk(1) [OF assms c] request_of_chunk(3) [OF assms c] by auto
next
  case False
  then show ?thesis by (auto simp: offsetRequest_def torrentOffsetRequest_def)
qed

theorem offsetRequest_contains_witness:
  "case offsetRequest sample_geom 17 of
      None \<Rightarrow> 17 < (0 :: int) \<or> 17 \<ge> TotalLength sample_geom
    | Some r \<Rightarrow> (\<exists>ri start. ri < numChunks sample_geom \<and> r = requestIndexToRequest sample_geom ri \<and>
        requestOffset sample_geom r = Some start \<and> start \<le> 17 \<and> 17 < start + uint (RLength r))"
  by (rule offsetRequest_contains [OF sample_geom_valid])

lemma int_div_eq_iff:
  fixes x b p :: int
  assumes "0 < b"
  shows "x div b = p \<longleftrightarrow> p * b \<le> x \<and> x < (p + 1) * b"
proof
  assume "x div b = p"
  then show "p * b \<le> x \<and> x < (p + 1) * b"
    using div_mult_mod_eq [of x b] pos_mod_sign [OF assms, of x] pos_mod_bound [OF assms, of x]
    by (auto simp: algebra_simps)
next
  assume "p * b \<le> x \<and> x < (p + 1) * b"
  then show "x div b = p"
    by (intro int_div_pos_eq [of x b p "x - p * b"]) (auto simp: algebra_simps)
qed

lemma int_div_le_iff:
  fixes x b p :: int
  assumes "0 < b"
  shows "x div b \<le> p \<longleftrightarrow> x < (p + 1) * b"
proof
  assume "x div b \<le> p"
  then have "(x div b + 1) * b \<le> (p + 1) * b" using assms by (intro mult_right_mono) auto
  then show "x < (p + 1) * b" using int_div_eq_iff [OF assms, of x "x div b"] by linarith
next
  assume "x < (p + 1) * b"
  moreover have "x div b * b \<le> x" using int_div_eq_iff [OF assms, of x "x div b"] by blast
  ultimately have "x div b * b < (p + 1) * b" by linarith
  then show "x div b \<le> p" using assms by (simp add: mult_less_cancel_right)
qed



end
