(* ===== verification/Bitmaps.thy ===== *)
theory Bitmaps
  imports Torrent_Prelude "HOL-Library.Monad_Syntax"
begin

text \<open>
  The bitmaps of the client: \<^verbatim>\<open>orderedBitmap\<close> (\<^verbatim>\<open>ordered-bitmap.go\<close>), which implements the interface
  \<^verbatim>\<open>PeerRequests\<close> of \<^verbatim>\<open>request-strategy/peer.go\<close>, the cardinality of a range (\<^verbatim>\<open>roaring.go\<close>) and the
  iteration over the bits not set in a range (\<^verbatim>\<open>undirtied-chunks-iter.go\<close>).  A roaring bitmap
  stands for its set of 32 bit numbers; it iterates in ascending order.  \<open>None\<close> is a panic.
\<close>

section \<open>Sets of words, in order\<close>

definition bitmap_iter :: "'a::linorder set \<Rightarrow> 'a list" where
  "bitmap_iter bm = sorted_list_of_set bm"

text \<open>\<^verbatim>\<open>Rank(x)\<close>: how many members are at most \<open>x\<close>.\<close>

definition bitmap_rank :: "'a::linorder set \<Rightarrow> 'a \<Rightarrow> nat" where
  "bitmap_rank bm x = card {y \<in> bm. y \<le> x}"

text \<open>\<open>card -= Rank(start - 1)\<close> is done on \<^verbatim>\<open>uint64\<close>; ranks never go down, so it does not wrap.\<close>

definition roaringBitmapRangeCardinality :: "(u32 \<Rightarrow> nat) \<Rightarrow> u32 \<Rightarrow> u32 \<Rightarrow> nat" where
  "roaringBitmapRangeCardinality rank start end' =
     (let card = rank (end' - 1) in if start \<noteq> 0 then card - rank (start - 1) else card)"

lemma finite_u32 [simp]: "finite (A :: u32 set)"
  by (rule finite_subset [of _ UNIV]) simp_all

lemma set_bitmap_iter [simp]: "finite bm \<Longrightarrow> set (bitmap_iter bm) = bm"
  by (simp add: bitmap_iter_def)

lemma distinct_bitmap_iter [simp]: "distinct (bitmap_iter bm)"
  by (simp add: bitmap_iter_def)

section \<open>orderedBitmap\<close>

text \<open>
  The linked list is a list of nodes, a node its address and value; \<open>elements\<close> maps a value to the
  address of its node.
\<close>

record 'a ordered_bitmap =
  bitmap :: "'a set"
  order :: "(nat \<times> 'a) list"
  elements :: "'a \<rightharpoonup> nat"
  next_node :: nat

definition ob_empty :: "'a ordered_bitmap" where
  "ob_empty = \<lparr>bitmap = {}, order = [], elements = Map.empty, next_node = 0\<rparr>"

definition IterateSnapshot :: "'a::linorder ordered_bitmap \<Rightarrow> 'a list" where
  "IterateSnapshot o' = bitmap_iter (bitmap o')"

definition IsEmpty :: "'a ordered_bitmap \<Rightarrow> bool" where
  "IsEmpty o' \<longleftrightarrow> bitmap o' = {}"

definition GetCardinality :: "'a ordered_bitmap \<Rightarrow> nat" where
  "GetCardinality o' = length (order o')"

definition Contains :: "'a ordered_bitmap \<Rightarrow> 'a \<Rightarrow> bool" where
  "Contains o' index \<longleftrightarrow> index \<in> bitmap o'"

definition Add :: "'a ordered_bitmap \<Rightarrow> 'a \<Rightarrow> 'a ordered_bitmap" where
  "Add o' index =
     (let o' = o'\<lparr>bitmap := insert index (bitmap o')\<rparr> in
      if elements o' index = None
      then o'\<lparr>order := order o' @ [(next_node o', index)],
              elements := (elements o')(index \<mapsto> next_node o'), next_node := next_node o' + 1\<rparr>
      else o')"

definition Rank :: "'a::linorder ordered_bitmap \<Rightarrow> 'a \<Rightarrow> nat" where
  "Rank o' index = bitmap_rank (bitmap o') index"

definition Iterate :: "'a ordered_bitmap \<Rightarrow> 'a list" where
  "Iterate o' = map snd (order o')"

text \<open>Removing the node of a value that has none dereferences nil.\<close>

definition CheckedRemove :: "'a ordered_bitmap \<Rightarrow> 'a \<Rightarrow> ('a ordered_bitmap \<times> bool) option" where
  "CheckedRemove o' index =
     (if index \<notin> bitmap o' then Some (o', False)
      else case elements o' index of
        None \<Rightarrow> None
      | Some n \<Rightarrow> Some (o'\<lparr>bitmap := bitmap o' - {index},
                          order := filter (\<lambda>(m, v). m \<noteq> n) (order o'),
                          elements := (elements o')(index := None)\<rparr>, True))"

section \<open>The interface PeerRequests\<close>

locale peer_requests =
  fixes inv :: "'o \<Rightarrow> bool"
    and empty :: 'o
    and isEmpty :: "'o \<Rightarrow> bool"
    and cardinality :: "'o \<Rightarrow> nat"
    and contains :: "'o \<Rightarrow> 'a::linorder \<Rightarrow> bool"
    and add :: "'o \<Rightarrow> 'a \<Rightarrow> 'o"
    and rank :: "'o \<Rightarrow> 'a \<Rightarrow> nat"
    and iterate :: "'o \<Rightarrow> 'a list"
    and snapshot :: "'o \<Rightarrow> 'a list"
    and remove :: "'o \<Rightarrow> 'a \<Rightarrow> ('o \<times> bool) option"
  assumes inv_empty: "inv empty" and iterate_empty: "iterate empty = []"
    and iterate_distinct: "inv s \<Longrightarrow> distinct (iterate s)"
    and isEmpty_iff: "inv s \<Longrightarrow> isEmpty s \<longleftrightarrow> iterate s = []"
    and cardinality_eq: "inv s \<Longrightarrow> cardinality s = length (iterate s)"
    and contains_iff: "inv s \<Longrightarrow> contains s x \<longleftrightarrow> x \<in> set (iterate s)"
    and inv_add: "inv s \<Longrightarrow> inv (add s x)"
    and iterate_add: "inv s \<Longrightarrow>
      iterate (add s x) = (if x \<in> set (iterate s) then iterate s else iterate s @ [x])"
    and snapshot_eq: "inv s \<Longrightarrow> snapshot s = sort (iterate s)"
    and rank_eq: "inv s \<Longrightarrow> rank s x = card {y \<in> set (iterate s). y \<le> x}"
    and remove_law: "inv s \<Longrightarrow> \<exists>s'. remove s x = Some (s', x \<in> set (iterate s)) \<and> inv s' \<and>
      iterate s' = remove1 x (iterate s)"
begin

lemma remove_cases:
  assumes "inv s"
  obtains s' where "remove s x = Some (s', x \<in> set (iterate s))" "inv s'"
    "iterate s' = remove1 x (iterate s)" "set (iterate s') = set (iterate s) - {x}"
  using remove_law [OF assms, of x] iterate_distinct [OF assms] by (auto simp: set_remove1_eq)

lemma add_contains: "inv s \<Longrightarrow> contains (add s x) y \<longleftrightarrow> y = x \<or> contains s y"
  by (auto simp: contains_iff inv_add iterate_add)

lemma add_cardinality:
  "inv s \<Longrightarrow> cardinality (add s x) = (if contains s x then cardinality s else Suc (cardinality s))"
  by (auto simp: contains_iff inv_add iterate_add cardinality_eq)

lemma add_remove_fresh:
  assumes "inv s" "\<not> contains s x"
  shows "\<exists>s'. remove (add s x) x = Some (s', True) \<and> inv s' \<and> iterate s' = iterate s"
  using remove_law [OF inv_add [OF assms(1)], of x x] assms
  by (auto simp: iterate_add contains_iff remove1_append)

lemma set_snapshot: "inv s \<Longrightarrow> set (snapshot s) = set (iterate s)"
  by (simp add: snapshot_eq)

end

definition ob_inv :: "'a ordered_bitmap \<Rightarrow> bool" where
  "ob_inv o' \<longleftrightarrow> finite (bitmap o') \<and> distinct (map fst (order o')) \<and> distinct (map snd (order o')) \<and>
     bitmap o' = snd ` set (order o') \<and> (\<forall>n v. (n, v) \<in> set (order o') \<longleftrightarrow> elements o' v = Some n) \<and>
     (\<forall>n v. (n, v) \<in> set (order o') \<longrightarrow> n < next_node o')"

lemma ob_invD:
  assumes "ob_inv s"
  shows "finite (bitmap s)" "distinct (map fst (order s))" "distinct (map snd (order s))"
    "bitmap s = snd ` set (order s)" "(n, v) \<in> set (order s) \<longleftrightarrow> elements s v = Some n"
    "(n, v) \<in> set (order s) \<Longrightarrow> n < next_node s" "bitmap s = set (Iterate s)"
proof -
  show "finite (bitmap s)" "distinct (map fst (order s))" "distinct (map snd (order s))"
    "bitmap s = snd ` set (order s)" "(n, v) \<in> set (order s) \<longleftrightarrow> elements s v = Some n"
    "(n, v) \<in> set (order s) \<Longrightarrow> n < next_node s"
    using assms unfolding ob_inv_def by blast+
  then show "bitmap s = set (Iterate s)" by (simp add: Iterate_def)
qed

lemma elements_None: "ob_inv s \<Longrightarrow> elements s x = None \<longleftrightarrow> x \<notin> bitmap s"
proof -
  assume s: "ob_inv s"
  have "x \<in> bitmap s \<longleftrightarrow> (\<exists>n. (n, x) \<in> set (order s))" unfolding ob_invD(4) [OF s] by force
  then show ?thesis unfolding ob_invD(5) [OF s] by auto
qed

lemma ob_inv_Add: assumes "ob_inv s" shows "ob_inv (Add s x)"
proof (cases "elements s x")
  case None
  then have "x \<notin> snd ` set (order s)" using elements_None [OF assms] ob_invD(4) [OF assms] by simp
  moreover have "next_node s \<notin> fst ` set (order s)" using ob_invD(6) [OF assms] by force
  ultimately show ?thesis
    using None ob_invD(1-6) [OF assms] by (auto simp: ob_inv_def Add_def Let_def less_Suc_eq)
next
  case (Some n)
  then have "x \<in> bitmap s" using elements_None [OF assms, of x] by auto
  then show ?thesis using Some assms by (auto simp: ob_inv_def Add_def Let_def insert_absorb)
qed

lemma Iterate_Add:
  assumes "ob_inv s"
  shows "Iterate (Add s x) = (if x \<in> set (Iterate s) then Iterate s else Iterate s @ [x])"
  using elements_None [OF assms, of x] ob_invD(7) [OF assms] by (simp add: Add_def Let_def Iterate_def)

lemma filter_node_remove1:
  assumes "distinct (map fst xs)" "distinct (map snd xs)" "(n, v) \<in> set xs"
  shows "map snd (filter (\<lambda>(m, w). m \<noteq> n) xs) = remove1 v (map snd xs)"
  using assms
proof (induction xs)
  case (Cons y ys)
  show ?case
  proof (cases "y = (n, v)")
    case True
    then have "filter (\<lambda>(m, w). m \<noteq> n) ys = ys"
      using Cons.prems by (auto simp: filter_id_conv image_iff)
    with True show ?thesis by simp
  next
    case False
    then have "(n, v) \<in> set ys" "fst y \<noteq> n" "snd y \<noteq> v" using Cons.prems by (auto simp: image_iff)
    with Cons show ?thesis by (auto split: prod.splits)
  qed
qed simp

lemma CheckedRemove_present:
  assumes "ob_inv s" "x \<in> set (Iterate s)"
  obtains n where "elements s x = Some n" "(n, x) \<in> set (order s)"
    "CheckedRemove s x = Some (s\<lparr>bitmap := bitmap s - {x}, order := filter (\<lambda>(m, v). m \<noteq> n) (order s),
       elements := (elements s)(x := None)\<rparr>, True)"
proof -
  have "elements s x \<noteq> None" using assms by (simp add: elements_None ob_invD(7))
  then obtain n where n: "elements s x = Some n" by auto
  then have "(n, x) \<in> set (order s)" using ob_invD(5) [OF assms(1)] by simp
  with n that show ?thesis using assms ob_invD(7) [OF assms(1)] by (simp add: CheckedRemove_def)
qed

lemma ob_remove_law:
  assumes "ob_inv s"
  shows "\<exists>s'. CheckedRemove s x = Some (s', x \<in> set (Iterate s)) \<and> ob_inv s' \<and>
    Iterate s' = remove1 x (Iterate s)"
proof (cases "x \<in> set (Iterate s)")
  case False
  then show ?thesis using assms ob_invD(7) [OF assms] by (simp add: CheckedRemove_def remove1_idem)
next
  case True
  obtain n where n: "elements s x = Some n" "(n, x) \<in> set (order s)"
    and rem: "CheckedRemove s x = Some (s\<lparr>bitmap := bitmap s - {x}, order := filter (\<lambda>(m, v). m \<noteq> n) (order s),
       elements := (elements s)(x := None)\<rparr>, True)"
    by (rule CheckedRemove_present [OF assms True])
  let ?s = "s\<lparr>bitmap := bitmap s - {x}, order := filter (\<lambda>(m, v). m \<noteq> n) (order s),
       elements := (elements s)(x := None)\<rparr>"
  note inv = ob_invD [OF assms]
  have it: "Iterate ?s = remove1 x (Iterate s)"
    using filter_node_remove1 [OF inv(2,3) n(2)] by (simp add: Iterate_def)
  have same: "m = n \<longleftrightarrow> v = x" if "(m, v) \<in> set (order s)" for m v
    using that n inv(5) inv(2) by (auto dest: eq_key_imp_eq_value)
  have "ob_inv ?s"
    unfolding ob_inv_def
  proof (intro conjI allI)
    show "bitmap ?s = snd ` set (order ?s)" using same n by (auto simp: inv(4) image_iff)
    show "((m, v) \<in> set (order ?s)) = (elements ?s v = Some m)" for m v
      using same inv(5) by auto
    show "distinct (map snd (order ?s))" using it inv(3) by (simp add: Iterate_def)
  qed (use inv in \<open>auto simp: distinct_map_filter\<close>)
  with rem it True show ?thesis by simp
qed

interpretation ob: peer_requests ob_inv "ob_empty :: 'a::linorder ordered_bitmap" IsEmpty GetCardinality
  Contains Add Rank Iterate IterateSnapshot CheckedRemove
proof
  fix s :: "'a ordered_bitmap" and x
  show "ob_inv (ob_empty :: 'a ordered_bitmap)" "Iterate (ob_empty :: 'a ordered_bitmap) = []"
    by (simp_all add: ob_inv_def ob_empty_def Iterate_def)
  assume s: "ob_inv s"
  show "distinct (Iterate s)" using ob_invD(3) [OF s] by (simp add: Iterate_def)
  then show "IterateSnapshot s = sort (Iterate s)"
    by (simp add: IterateSnapshot_def bitmap_iter_def ob_invD(7) [OF s] sorted_list_of_set_sort_remdups
        distinct_remdups_id)
  show "IsEmpty s \<longleftrightarrow> Iterate s = []" by (simp add: IsEmpty_def ob_invD(7) [OF s])
  show "GetCardinality s = length (Iterate s)" by (simp add: GetCardinality_def Iterate_def)
  show "Contains s x \<longleftrightarrow> x \<in> set (Iterate s)" by (simp add: Contains_def ob_invD(7) [OF s])
  show "Rank s x = card {y \<in> set (Iterate s). y \<le> x}"
    by (simp add: Rank_def bitmap_rank_def ob_invD(7) [OF s])
  show "ob_inv (Add s x)" by (rule ob_inv_Add [OF s])
  show "Iterate (Add s x) = (if x \<in> set (Iterate s) then Iterate s else Iterate s @ [x])"
    by (rule Iterate_Add [OF s])
  show "\<exists>s'. CheckedRemove s x = Some (s', x \<in> set (Iterate s)) \<and> ob_inv s' \<and>
      Iterate s' = remove1 x (Iterate s)"
    by (rule ob_remove_law [OF s])
qed

section \<open>Bits not set in a range\<close>

lemma unat_Suc_less: "(a :: u32) < b \<Longrightarrow> unat (a + 1) = unat a + 1"
proof -
  assume "a < b"
  moreover have "unat b < 2 ^ 32" using unsigned_less [where w = b and 'a = nat] by simp
  ultimately have "unat a + unat (1 :: u32) < 2 ^ LENGTH(32)" by (simp add: word_less_nat_alt)
  then have "unat (a + 1) = unat a + unat (1 :: u32)" by (rule unat_add_lem [THEN iffD1])
  then show ?thesis by simp
qed

function u32_range :: "u32 \<Rightarrow> u32 \<Rightarrow> u32 list" where
  "u32_range a b = (if a < b then a # u32_range (a + 1) b else [])"
  by pat_completeness auto
termination
proof (relation "measure (\<lambda>(a, b). unat b - unat a)")
  fix a b :: u32
  assume "a < b"
  then have "unat (a + 1) = unat a + 1" "unat a < unat b"
    by (simp_all only: unat_Suc_less word_less_nat_alt)
  then show "((a + 1, b), (a, b)) \<in> measure (\<lambda>(a, b). unat b - unat a)" by simp
qed simp

declare u32_range.simps [simp del]

fun iter_unset_loop :: "u32 list \<Rightarrow> u32 \<Rightarrow> u32 \<Rightarrow> u32 list" where
  "iter_unset_loop [] lastDirty end' = u32_range (lastDirty + 1) end'"
| "iter_unset_loop (next # it) lastDirty end' =
     (if next \<ge> end' then u32_range (lastDirty + 1) end'
      else u32_range (lastDirty + 1) next @ iter_unset_loop it next end')"

text \<open>The calls of the callback, in order.\<close>

definition iterBitmapUnsetInRange :: "u32 set \<Rightarrow> u32 \<Rightarrow> u32 \<Rightarrow> u32 list" where
  "iterBitmapUnsetInRange bm start end' =
     iter_unset_loop (filter (\<lambda>x. x \<ge> start) (bitmap_iter bm)) (start - 1) end'"

lemma u32_range_Cons: "a < b \<Longrightarrow> u32_range a b = a # u32_range (a + 1) b"
  by (simp add: u32_range.simps)

lemma u32_range_Nil: "\<not> a < b \<Longrightarrow> u32_range a b = []"
  by (simp add: u32_range.simps)

lemma u32_Suc_le: "(a :: u32) < b \<Longrightarrow> a + 1 \<le> c \<longleftrightarrow> a < c"
  using unat_Suc_less [of a b] by (simp add: word_le_nat_alt word_less_nat_alt Suc_le_eq)

lemma set_u32_range: "set (u32_range a b) = {x. a \<le> x \<and> x < b}"
proof (induction a b rule: u32_range.induct)
  case (1 a b)
  show ?case
  proof (cases "a < b")
    case True
    then have "set (u32_range a b) = insert a {x. a + 1 \<le> x \<and> x < b}" using 1 by (simp add: u32_range_Cons)
    also have "\<dots> = {x. a \<le> x \<and> x < b}" using True u32_Suc_le [OF True] by (auto simp: le_less)
    finally show ?thesis .
  qed (auto simp: u32_range_Nil)
qed

lemma u32_range_split:
  "a \<le> n \<Longrightarrow> n < b \<Longrightarrow> u32_range a b = u32_range a n @ n # u32_range (n + 1) b"
proof (induction a n rule: u32_range.induct)
  case (1 a n)
  show ?case
  proof (cases "a < n")
    case True
    then have "a < b" using "1.prems" by simp
    moreover have "a + 1 \<le> n" using True by (simp add: u32_Suc_le [OF True])
    ultimately show ?thesis using 1 True by (simp add: u32_range_Cons)
  next
    case False
    then show ?thesis using "1.prems" by (simp add: u32_range_Cons u32_range_Nil)
  qed
qed

lemma iter_unset_loop_eq:
  assumes "sorted ns" "distinct ns" "\<forall>n \<in> set ns. cur \<le> n"
  shows "iter_unset_loop ns (cur - 1) e = filter (\<lambda>x. x \<notin> set ns) (u32_range cur e)"
  using assms
proof (induction ns arbitrary: cur)
  case (Cons n ns)
  have above: "\<forall>m \<in> set ns. n < m" using Cons.prems by (auto simp: le_less)
  show ?case
  proof (cases "n \<ge> e")
    case True
    then have "x \<notin> set (n # ns)" if "x \<in> set (u32_range cur e)" for x
      using that above by (auto simp: set_u32_range)
    then have "filter (\<lambda>x. x \<notin> set (n # ns)) (u32_range cur e) = u32_range cur e"
      by (simp add: filter_id_conv)
    with True show ?thesis by simp
  next
    case False
    then have "n < e" "cur \<le> n" using Cons.prems by auto
    have low: "filter (\<lambda>x. x \<notin> set (n # ns)) (u32_range cur n) = u32_range cur n"
      using above by (auto simp: filter_id_conv set_u32_range)
    have "iter_unset_loop ns (n + 1 - 1) e = filter (\<lambda>x. x \<notin> set ns) (u32_range (n + 1) e)"
      using Cons.prems above \<open>n < e\<close> by (intro Cons.IH) (auto simp: u32_Suc_le)
    moreover have "filter (\<lambda>x. x \<notin> set ns) (u32_range (n + 1) e) =
        filter (\<lambda>x. x \<notin> set (n # ns)) (u32_range (n + 1) e)"
      using \<open>n < e\<close> by (intro filter_cong) (auto simp: set_u32_range u32_Suc_le)
    ultimately show ?thesis using False low u32_range_split [OF \<open>cur \<le> n\<close> \<open>n < e\<close>] by simp
  qed
qed simp

section \<open>Properties\<close>

lemma iterBitmapUnset_eq:
  "iterBitmapUnsetInRange bm start end' = filter (\<lambda>x. x \<notin> bm) (u32_range start end')"
proof -
  let ?ns = "filter (\<lambda>x. x \<ge> start) (bitmap_iter bm)"
  have "sorted ?ns" by (simp add: bitmap_iter_def sorted_wrt_filter)
  then have "iterBitmapUnsetInRange bm start end' = filter (\<lambda>x. x \<notin> set ?ns) (u32_range start end')"
    unfolding iterBitmapUnsetInRange_def by (intro iter_unset_loop_eq) (auto simp: bitmap_iter_def)
  also have "\<dots> = filter (\<lambda>x. x \<notin> bm) (u32_range start end')"
    by (intro filter_cong) (auto simp: set_u32_range)
  finally show ?thesis .
qed

text \<open>
  The iteration over the chunks of a piece that are not dirty visits exactly the numbers of
  the range that are not in the bitmap, each once and in ascending order, including a range that
  starts at zero, where the last dirty index wraps.
\<close>
theorem iterBitmapUnsetInRange_exact:
  "iterBitmapUnsetInRange bm start end' = filter (\<lambda>x. x \<notin> bm) (u32_range start end')"
  by (rule iterBitmapUnset_eq)

lemma u32_pred_less: "0 < (b :: u32) \<Longrightarrow> x \<le> b - 1 \<longleftrightarrow> x < b"
proof -
  assume "0 < b"
  then have "unat (b - 1) = unat b - 1" "0 < unat b"
    by (simp_all add: unat_minus_one word_gt_0 unat_gt_0)
  then show ?thesis unfolding word_le_nat_alt word_less_nat_alt by linarith
qed

text \<open>
  The difference of ranks that counts the members of a range is right at both ends: for a
  range that ends above zero it is the number of members in it.
\<close>
theorem rangeCardinality_exact:
  assumes "ob_inv s" "start \<le> end'" "0 < end'"
  shows "roaringBitmapRangeCardinality (Rank s) start end' =
    card {y \<in> set (Iterate s). start \<le> y \<and> y < end'}"
proof -
  let ?A = "\<lambda>b. {y \<in> set (Iterate s). y < b}"
  have rank: "Rank s (b - 1) = card (?A b)" if "0 < b" for b
    using that by (simp add: ob.rank_eq [OF assms(1)] u32_pred_less)
  show ?thesis
  proof (cases "start = 0")
    case True
    then show ?thesis using rank [OF assms(3)] by (simp add: roaringBitmapRangeCardinality_def)
  next
    case False
    then have "0 < start" by (simp add: word_gt_0)
    have "?A end' = ?A start \<union> {y \<in> set (Iterate s). start \<le> y \<and> y < end'}" using assms(2) by auto
    moreover have "card (?A start \<union> {y \<in> set (Iterate s). start \<le> y \<and> y < end'}) =
        card (?A start) + card {y \<in> set (Iterate s). start \<le> y \<and> y < end'}"
      by (rule card_Un_disjoint) auto
    ultimately have "card (?A end') = card (?A start) + card {y \<in> set (Iterate s). start \<le> y \<and> y < end'}"
      by (simp only:)
    then show ?thesis
      using False rank [OF assms(3)] rank [OF \<open>0 < start\<close>]
      by (simp add: roaringBitmapRangeCardinality_def Let_def)
  qed
qed

theorem rangeCardinality_exact_witness:
  "roaringBitmapRangeCardinality (Rank (Add (Add ob_empty 7) 3)) 4 8 =
    card {y \<in> set (Iterate (Add (Add ob_empty (7 :: u32)) 3)). 4 \<le> y \<and> y < 8}"
  by (rule rangeCardinality_exact) (simp_all add: ob.inv_add ob.inv_empty)

text \<open>Any sequence of additions and removals, on the bitmap and on the list it stands for.\<close>

datatype 'a ob_op = OAdd 'a | ORemove 'a

fun ob_run :: "'a ordered_bitmap \<Rightarrow> 'a ob_op list \<Rightarrow> 'a ordered_bitmap option" where
  "ob_run s [] = Some s"
| "ob_run s (OAdd x # ops) = ob_run (Add s x) ops"
| "ob_run s (ORemove x # ops) = do { (s', _) \<leftarrow> CheckedRemove s x; ob_run s' ops }"

fun list_run :: "'a list \<Rightarrow> 'a ob_op list \<Rightarrow> 'a list" where
  "list_run xs [] = xs"
| "list_run xs (OAdd x # ops) = list_run (if x \<in> set xs then xs else xs @ [x]) ops"
| "list_run xs (ORemove x # ops) = list_run (remove1 x xs) ops"

text \<open>
  C28. An \<open>orderedBitmap\<close> refines the list of its members in order of insertion: no sequence of
  additions and removals panics, and afterwards iteration, membership, cardinality and snapshot
  are those of the list.
\<close>
theorem orderedBitmap_refines_list:
  "\<exists>s. ob_run ob_empty ops = Some s \<and> Iterate s = list_run [] ops \<and>
    (\<forall>x. Contains s x \<longleftrightarrow> x \<in> set (list_run [] ops)) \<and>
    GetCardinality s = length (list_run [] ops) \<and>
    IterateSnapshot s = sort (list_run [] (ops :: 'a::linorder ob_op list))"
proof -
  have "\<exists>s'. ob_run s ops = Some s' \<and> ob_inv s' \<and> Iterate s' = list_run (Iterate s) ops"
    if "ob_inv s" for s :: "'a ordered_bitmap"
    using that
  proof (induction ops arbitrary: s)
    case (Cons op ops)
    show ?case
    proof (cases op)
      case (OAdd x)
      then show ?thesis using Cons.IH [OF ob.inv_add [OF Cons.prems]] by (simp add: ob.iterate_add [OF Cons.prems])
    next
      case (ORemove x)
      obtain s' where "CheckedRemove s x = Some (s', x \<in> set (Iterate s))" "ob_inv s'"
        "Iterate s' = remove1 x (Iterate s)" by (rule ob.remove_cases [OF Cons.prems])
      then show ?thesis using ORemove Cons.IH [of s'] by simp
    qed
  qed simp
  from this [OF ob.inv_empty] obtain s where "ob_run ob_empty ops = Some s" "ob_inv s"
    "Iterate s = list_run [] ops" by (auto simp: ob.iterate_empty)
  then show ?thesis by (auto simp: ob.contains_iff ob.cardinality_eq ob.snapshot_eq)
qed

end
