(* ===== verification/Swarm.thy ===== *)
theory Swarm
  imports Geometry Bitmaps
begin

text \<open>
  The state a torrent shares with its peer connections (\<^verbatim>\<open>type Torrent\<close> in \<^verbatim>\<open>torrent.go\<close>, \<^verbatim>\<open>type Peer\<close>
  and \<^verbatim>\<open>type PeerConn\<close> in \<^verbatim>\<open>peerconn.go\<close>) and the queries on it.  A \<^verbatim>\<open>*Peer\<close> is a number, \<open>peers\<close> is
  the store of the objects, and every method is a function of the whole state.  A panic is
  \<open>None\<close>; an error the Go code returns is part of the result.  The clock reading of a step is the
  field \<open>now\<close>; a zero \<^verbatim>\<open>time.Time\<close> is \<open>None\<close>.  Peers are BitTorrent connections; web seeds are
  another implementation of \<^verbatim>\<open>peerImpl\<close> and are not in this state.
\<close>

type_synonym peer_id = nat

record peer_state =
  PeerExtensionBytes :: bytes
  PeerID :: bytes
  PeerExtensionIDs :: "string \<rightharpoonup> int"
  closed :: bool
  needRequestUpdate :: string
  Interested :: bool
  Requests :: "u32 ordered_bitmap"
  Cancelled :: "u32 set"
  lastRequestUpdate :: "int option"
  peakRequests :: int
  lastBecameInterested :: "int option"
  priorInterest :: int
  lastStartedExpectingToReceiveChunks :: "int option"
  cumulativeExpectedToReceiveChunks :: int
  chunksReceivedWhileExpecting :: int
  choking :: bool
  piecesReceivedSinceLastRequestUpdate :: int
  validReceiveChunks :: "u32 \<rightharpoonup> int"
  lastUsefulChunkReceived :: "int option"
  sentHaves :: "nat set"
  peerInterested :: bool
  peerChoking :: bool
  peerRequests :: "request_spec \<rightharpoonup> nat"
  peerMinPieces :: int
  peerTouchedPieces :: "nat set"
  peerAllowedFast :: "nat set"
  PeerMaxRequests :: int
  peerPieces :: "nat set"
  peerSentHaveAll :: bool
  trusted :: bool
  lastChunkSent :: "int option"
  PiecesDirtiedGood :: int
  PiecesDirtiedBad :: int
  BytesWrittenData :: int
  BytesReadData :: int
  writeBuffer :: bytes

record torrent_config =
  Extensions :: bytes
  DropMutuallyCompletePeers :: bool
  Seed :: bool
  NoUpload :: bool
  DisableAggressiveUpload :: bool
  UploadBurst :: "int option"
  MaxAllocPeerRequestDataPerConn :: int

record torrent_state =
  config :: torrent_config
  info :: "geom option"
  tchunkSize :: u32
  tclosed :: bool
  storageOpen :: bool
  dataDownloadDisallowed :: bool
  dataUploadDisallowed :: bool
  userOnWriteChunkErr :: bool
  relativeAvailability :: "int list"
  pendingWrites :: "nat \<Rightarrow> nat"
  hashing :: "nat set"
  marking :: "nat set"
  storageCompletionOk :: "nat set"
  numVerifies :: "nat \<Rightarrow> nat"
  dirtiers :: "nat \<Rightarrow> peer_id set"
  filePrios :: "nat \<Rightarrow> nat list"
  piecePrio :: "nat \<Rightarrow> nat"
  readerNowPieces :: "nat set"
  readerReadaheadPieces :: "nat set"
  initialPieceCheckDisabled :: bool
  activePieceHashes :: nat
  piecesQueuedForHash :: "nat set"
  connsWithAllPieces :: "peer_id set"
  requestState :: "u32 \<rightharpoonup> peer_id \<times> int"
  dirtyChunks :: "u32 set"
  pendingPieces :: "nat set"
  completedPieces :: "nat set"
  conns :: "peer_id list"
  peers :: "peer_id \<Rightarrow> peer_state"
  now :: int

definition upd_peer :: "peer_id \<Rightarrow> (peer_state \<Rightarrow> peer_state) \<Rightarrow> torrent_state \<Rightarrow> torrent_state" where
  "upd_peer p f t = t\<lparr>peers := (peers t)(p := f (peers t p))\<rparr>"

section \<open>Queries on the torrent\<close>

definition haveInfo :: "torrent_state \<Rightarrow> bool" where
  "haveInfo t \<longleftrightarrow> info t \<noteq> None"

text \<open>\<open>numPieces\<close> is only called once the info is known.\<close>

definition numPieces :: "torrent_state \<Rightarrow> nat" where
  "numPieces t = (case info t of None \<Rightarrow> 0 | Some g \<Rightarrow> NumPieces g)"

definition pieceComplete :: "torrent_state \<Rightarrow> nat \<Rightarrow> bool" where
  "pieceComplete t piece \<longleftrightarrow> piece \<in> completedPieces t"

definition haveAnyPieces :: "torrent_state \<Rightarrow> bool" where
  "haveAnyPieces t \<longleftrightarrow> completedPieces t \<noteq> {}"

definition haveAllPieces :: "torrent_state \<Rightarrow> bool" where
  "haveAllPieces t \<longleftrightarrow> haveInfo t \<and> card (completedPieces t) = numPieces t"

definition havePiece :: "torrent_state \<Rightarrow> nat \<Rightarrow> bool" where
  "havePiece t index \<longleftrightarrow> haveInfo t \<and> pieceComplete t index"

definition wantPieceIndex :: "torrent_state \<Rightarrow> nat \<Rightarrow> bool" where
  "wantPieceIndex t index \<longleftrightarrow> index \<in> pendingPieces t"

definition needData :: "torrent_state \<Rightarrow> bool" where
  "needData t = (if tclosed t then False else if \<not> haveInfo t then True else pendingPieces t \<noteq> {})"

definition seeding :: "torrent_state \<Rightarrow> bool" where
  "seeding t =
     (if tclosed t then False
      else if dataUploadDisallowed t then False
      else if NoUpload (config t) then False
      else if \<not> Seed (config t) then False
      else if DisableAggressiveUpload (config t) \<and> needData t then False
      else True)"

text \<open>\<^verbatim>\<open>t._chunksPerRegularPiece\<close> is zero until the info is set.\<close>

definition chunksPerPiece :: "torrent_state \<Rightarrow> u32" where
  "chunksPerPiece t = (case info t of None \<Rightarrow> 0 | Some g \<Rightarrow> chunksPerRegularPiece g)"

text \<open>
  \<^verbatim>\<open>Torrent.requestIndexToRequest\<close> divides by the chunks per piece and indexes the pieces: both
  may panic.
\<close>

definition request_of_index :: "torrent_state \<Rightarrow> u32 \<Rightarrow> request_spec option" where
  "request_of_index t ri =
     (case info t of None \<Rightarrow> None
      | Some g \<Rightarrow>
          if chunksPerRegularPiece g = 0 \<or> pieceIndexOfRequestIndex g ri \<ge> int (NumPieces g) then None
          else Some (requestIndexToRequest g ri))"

definition piece_of_index :: "torrent_state \<Rightarrow> u32 \<Rightarrow> nat option" where
  "piece_of_index t ri =
     (if chunksPerPiece t = 0 then None else Some (unat (ri div chunksPerPiece t)))"

definition index_of_request :: "torrent_state \<Rightarrow> request_spec \<Rightarrow> u32" where
  "index_of_request t r = RIndex r * chunksPerPiece t + RBegin r div tchunkSize t"

section \<open>Queries on a peer\<close>

definition peerHasAllPieces :: "torrent_state \<Rightarrow> peer_id \<Rightarrow> bool \<times> bool" where
  "peerHasAllPieces t p =
     (if peerSentHaveAll (peers t p) then (True, True)
      else if \<not> haveInfo t then (False, False)
      else (card (peerPieces (peers t p)) = numPieces t, True))"

definition peerHasPiece :: "torrent_state \<Rightarrow> peer_id \<Rightarrow> nat \<Rightarrow> bool" where
  "peerHasPiece t p piece =
     (case peerHasAllPieces t p of (all, known) \<Rightarrow>
        if all \<and> known then True else piece \<in> peerPieces (peers t p))"

definition bestPeerNumPieces :: "torrent_state \<Rightarrow> peer_id \<Rightarrow> int" where
  "bestPeerNumPieces t p = (if haveInfo t then int (numPieces t) else peerMinPieces (peers t p))"

definition peerHasWantedPieces :: "torrent_state \<Rightarrow> peer_id \<Rightarrow> bool" where
  "peerHasWantedPieces t p =
     (if fst (peerHasAllPieces t p) then \<not> haveAllPieces t \<and> pendingPieces t \<noteq> {}
      else if \<not> haveInfo t then peerPieces (peers t p) \<noteq> {}
      else peerPieces (peers t p) \<inter> pendingPieces t \<noteq> {})"

definition supportsExtension :: "peer_state \<Rightarrow> string \<Rightarrow> bool" where
  "supportsExtension cn ext \<longleftrightarrow> PeerExtensionIDs cn ext \<noteq> None"

definition useful :: "torrent_state \<Rightarrow> peer_id \<Rightarrow> bool" where
  "useful t p =
     (if closed (peers t p) then False
      else if \<not> haveInfo t then supportsExtension (peers t p) ''ut_metadata''
      else if seeding t \<and> peerInterested (peers t p) then True
      else peerHasWantedPieces t p)"

definition fastEnabled :: "torrent_state \<Rightarrow> peer_id \<Rightarrow> bool" where
  "fastEnabled t p \<longleftrightarrow>
     SupportsFast (PeerExtensionBytes (peers t p)) = Some True \<and> SupportsFast (Extensions (config t)) = Some True"

definition remoteIsTransmission :: "peer_state \<Rightarrow> bool" where
  "remoteIsTransmission pc \<longleftrightarrow> take 3 (PeerID pc) = [0x2d, 0x54, 0x52] \<and> PeerID pc ! 7 = 0x2d"

definition peerIsActive :: "torrent_state \<Rightarrow> peer_id \<Rightarrow> bool" where
  "peerIsActive t p \<longleftrightarrow> p \<in> set (conns t)"

definition isLowOnRequests :: "peer_state \<Rightarrow> bool" where
  "isLowOnRequests p \<longleftrightarrow> IsEmpty (Requests p) \<and> Cancelled p = {}"

definition remoteChokingPiece :: "peer_state \<Rightarrow> nat \<Rightarrow> bool" where
  "remoteChokingPiece cn piece \<longleftrightarrow> peerChoking cn \<and> piece \<notin> peerAllowedFast cn"

text \<open>The peers in the order a Go map iteration happens to visit them.\<close>

fun iterPeers :: "(peer_id \<Rightarrow> torrent_state \<Rightarrow> torrent_state) \<Rightarrow> peer_id list \<Rightarrow> torrent_state \<Rightarrow> torrent_state" where
  "iterPeers f [] t = t"
| "iterPeers f (p # ps) t = iterPeers f ps (f p t)"

section \<open>Writing to a peer\<close>

abbreviation (input) writeBufferHighWaterLen :: nat where "writeBufferHighWaterLen \<equiv> 2 ^ 15"
abbreviation (input) writeBufferLowWaterLen :: nat where "writeBufferLowWaterLen \<equiv> 2 ^ 14"

definition writeBufferFull :: "peer_state \<Rightarrow> bool" where
  "writeBufferFull cn \<longleftrightarrow> length (writeBuffer cn) \<ge> writeBufferHighWaterLen"

text \<open>\<open>writeMsg\<close> (\<^verbatim>\<open>PeerConn.write\<close>) returns whether it is fine to keep writing.\<close>

definition writeMsg :: "peer_id \<Rightarrow> message \<Rightarrow> torrent_state \<Rightarrow> (torrent_state \<times> bool) option" where
  "writeMsg p msg t = do {
     b \<leftarrow> MustMarshalBinary msg;
     let t' = upd_peer p (\<lambda>cn. cn\<lparr>writeBuffer := writeBuffer cn @ b\<rparr>) t;
     Some (t', \<not> writeBufferFull (peers t' p))
   }"

section \<open>Scheduling a request update\<close>

abbreviation (input) peerUpdateRequestsTimerReason :: string where
  "peerUpdateRequestsTimerReason \<equiv> ''updateRequestsTimer''"

definition updateRequests :: "peer_id \<Rightarrow> string \<Rightarrow> torrent_state \<Rightarrow> torrent_state" where
  "updateRequests p reason t =
     (if needRequestUpdate (peers t p) \<noteq> [] then t
      else if reason \<noteq> peerUpdateRequestsTimerReason \<and> \<not> isLowOnRequests (peers t p) then t
      else upd_peer p (\<lambda>cn. cn\<lparr>needRequestUpdate := reason\<rparr>) t)"

definition decPeakRequests :: "peer_id \<Rightarrow> torrent_state \<Rightarrow> torrent_state" where
  "decPeakRequests p t = upd_peer p (\<lambda>cn. cn\<lparr>peakRequests := peakRequests cn - 1\<rparr>) t"

text \<open>The loop over the allowed fast pieces stops at the first one it counts no request for.\<close>

fun allowed_fast_loop :: "torrent_state \<Rightarrow> peer_state \<Rightarrow> nat list \<Rightarrow> bool" where
  "allowed_fast_loop t cn [] = False"
| "allowed_fast_loop t cn (i # is) =
     (if roaringBitmapRangeCardinality (Rank (Requests cn)) (word_of_nat i * chunksPerPiece t)
           (word_of_nat (i + 1) * chunksPerPiece t) = 0 then True
      else allowed_fast_loop t cn is)"

definition expectingChunks :: "torrent_state \<Rightarrow> peer_id \<Rightarrow> bool" where
  "expectingChunks t p =
     (let cn = peers t p in
      if IsEmpty (Requests cn) then False
      else if \<not> Interested cn then False
      else if \<not> peerChoking cn then True
      else allowed_fast_loop t cn (bitmap_iter (peerAllowedFast cn)))"

definition updateExpectingChunks :: "peer_id \<Rightarrow> torrent_state \<Rightarrow> torrent_state" where
  "updateExpectingChunks p t =
     (if expectingChunks t p then
        (case lastStartedExpectingToReceiveChunks (peers t p) of
           None \<Rightarrow> upd_peer p (\<lambda>cn. cn\<lparr>lastStartedExpectingToReceiveChunks := Some (now t)\<rparr>) t
         | Some _ \<Rightarrow> t)
      else
        (case lastStartedExpectingToReceiveChunks (peers t p) of
           None \<Rightarrow> t
         | Some s \<Rightarrow> upd_peer p (\<lambda>cn. cn\<lparr>
             cumulativeExpectedToReceiveChunks := cumulativeExpectedToReceiveChunks cn + (now t - s),
             lastStartedExpectingToReceiveChunks := None\<rparr>) t))"


section \<open>A small torrent\<close>

text \<open>
  A state to evaluate the definitions on: three pieces of ten bytes, two unchoking peers that have
  every piece, everything wanted, nothing requested.
\<close>

definition sample_peer :: peer_state where
  "sample_peer = \<lparr>PeerExtensionBytes = [0, 0, 0, 0, 0, 0x10, 0, 4], PeerID = replicate 20 0,
     PeerExtensionIDs = Map.empty, closed = False, needRequestUpdate = [], Interested = False,
     Requests = ob_empty, Cancelled = {}, lastRequestUpdate = None, peakRequests = 0, lastBecameInterested = None, priorInterest = 0,
     lastStartedExpectingToReceiveChunks = None, cumulativeExpectedToReceiveChunks = 0,
     chunksReceivedWhileExpecting = 0, choking = True, piecesReceivedSinceLastRequestUpdate = 0,
     validReceiveChunks = Map.empty, lastUsefulChunkReceived = None, sentHaves = {}, peerInterested = False,
     peerChoking = False, peerRequests = Map.empty, peerMinPieces = 0, peerTouchedPieces = {},
     peerAllowedFast = {}, PeerMaxRequests = 250, peerPieces = {}, peerSentHaveAll = True,
     trusted = False, lastChunkSent = None, PiecesDirtiedGood = 0, PiecesDirtiedBad = 0, BytesWrittenData = 0,
     BytesReadData = 0, writeBuffer = []\<rparr>"

definition sample_torrent :: torrent_state where
  "sample_torrent = \<lparr>
     config = \<lparr>Extensions = [0, 0, 0, 0, 0, 0x10, 0, 4], DropMutuallyCompletePeers = False, Seed = True,
       NoUpload = False, DisableAggressiveUpload = False, UploadBurst = None, MaxAllocPeerRequestDataPerConn = 2 ^ 20\<rparr>,
     info = Some sample_geom, tchunkSize = 4, tclosed = False, storageOpen = True, dataDownloadDisallowed = False,
     dataUploadDisallowed = False, userOnWriteChunkErr = False,
     relativeAvailability = [0, 0, 0], pendingWrites = (\<lambda>_. 0), hashing = {}, marking = {},
     storageCompletionOk = {0, 1, 2}, numVerifies = (\<lambda>_. 0), dirtiers = (\<lambda>_. {}), filePrios = (\<lambda>_. [1]),
     piecePrio = (\<lambda>_. 0), readerNowPieces = {}, readerReadaheadPieces = {}, initialPieceCheckDisabled = False,
     activePieceHashes = 0, piecesQueuedForHash = {},
     connsWithAllPieces = {0, 1}, requestState = Map.empty, dirtyChunks = {}, pendingPieces = {0, 1, 2},
     completedPieces = {}, conns = [0, 1], peers = (\<lambda>_. sample_peer), now = 0\<rparr>"

lemma sample_selectors [simp]:
  "peers sample_torrent p = sample_peer" "info sample_torrent = Some sample_geom" "conns sample_torrent = [0, 1]"
  "requestState sample_torrent = Map.empty" "Requests sample_peer = ob_empty" "Cancelled sample_peer = {}"
  "validReceiveChunks sample_peer = Map.empty"
  by (simp_all add: sample_torrent_def sample_peer_def)

end
