(* ===== verification/Requests.thy ===== *)
theory Requests
  imports Swarm
begin

text \<open>
  Outgoing requests (\<^verbatim>\<open>peerconn.go\<close>, \<^verbatim>\<open>torrent.go\<close>, \<^verbatim>\<open>requesting.go\<close>): making, cancelling and deleting
  requests, rejects, received chunks.  The torrent knows for every request index the one peer it
  is requested from; every peer knows its outstanding and its cancelled requests and how many
  chunks it may still send.  The invariant ties the three together, and each \<^verbatim>\<open>panic\<close> of these
  methods is an assertion that it holds.
\<close>

section \<open>Operations\<close>

definition interestedMsgLen :: nat where
  "interestedMsgLen = length (fst (MarshalBinary (typed_message mtInterested)))"

definition requestMsgLen :: nat where
  "requestMsgLen = length (fst (MarshalBinary (typed_message mtRequest)))"

definition maxLocalToRemoteRequests :: int where
  "maxLocalToRemoteRequests =
     (int writeBufferHighWaterLen - int writeBufferLowWaterLen - int interestedMsgLen) div int requestMsgLen"

definition nominalMaxRequests :: "peer_state \<Rightarrow> int" where
  "nominalMaxRequests cn =
     maxInt [1, minInt [PeerMaxRequests cn, peakRequests cn * 2, maxLocalToRemoteRequests]]"

definition writeInterested :: "peer_id \<Rightarrow> bool \<Rightarrow> torrent_state \<Rightarrow> (torrent_state \<times> bool) option" where
  "writeInterested p interested t =
     writeMsg p (typed_message (if interested then mtInterested else mtNotInterested)) t"

text \<open>The time of interest that \<open>setInterested\<close> keeps.\<close>

definition noteInterest :: "peer_id \<Rightarrow> bool \<Rightarrow> torrent_state \<Rightarrow> torrent_state" where
  "noteInterest p interested t =
     (let t = upd_peer p (\<lambda>cn. cn\<lparr>Interested := interested\<rparr>) t in
      if interested then upd_peer p (\<lambda>cn. cn\<lparr>lastBecameInterested := Some (now t)\<rparr>) t
      else case lastBecameInterested (peers t p) of
        None \<Rightarrow> t
      | Some s \<Rightarrow> upd_peer p (\<lambda>cn. cn\<lparr>priorInterest := priorInterest cn + (now t - s)\<rparr>) t)"

definition setInterested :: "peer_id \<Rightarrow> bool \<Rightarrow> torrent_state \<Rightarrow> (torrent_state \<times> bool) option" where
  "setInterested p interested t =
     (if Interested (peers t p) = interested then Some (t, True)
      else writeInterested p interested (updateExpectingChunks p (noteInterest p interested t)))"

datatype request_error =
    InvalidChunk receive_error
  | AwaitingCancelAck
  | PeerLacksPiece
  | TooManyOutstanding

text \<open>The checks before a request; the outer \<open>None\<close> is a panic.\<close>

definition shouldRequest :: "torrent_state \<Rightarrow> peer_id \<Rightarrow> u32 \<Rightarrow> request_error option option" where
  "shouldRequest t p r =
     (case request_of_index t r of None \<Rightarrow> None
      | Some req \<Rightarrow>
     (case checkValidReceiveChunk (info t) req of Some e \<Rightarrow> Some (Some (InvalidChunk e))
      | None \<Rightarrow>
     (case piece_of_index t r of None \<Rightarrow> None
      | Some pi \<Rightarrow>
        let cn = peers t p in
        if r \<in> Cancelled cn then Some (Some AwaitingCancelAck)
        else if \<not> peerHasPiece t p pi then Some (Some PeerLacksPiece)
        else if \<not> peerIsActive t p then None
        else if closed cn then None
        else if pi \<in> hashing t then None
        else if pi \<in> piecesQueuedForHash t then None
        else if peerChoking cn \<and> pi \<notin> peerAllowedFast cn \<and> \<not> Contains (Requests cn) r then None
        else Some None)))"

definition request_msg :: "request_spec \<Rightarrow> message" where
  "request_msg r = zero_message\<lparr>MType := mtRequest, Index := RIndex r, Begin := RBegin r, MLength := RLength r\<rparr>"

definition request ::
  "peer_id \<Rightarrow> u32 \<Rightarrow> torrent_state \<Rightarrow> (torrent_state \<times> bool \<times> request_error option) option" where
  "request p r t = do {
     e \<leftarrow> shouldRequest t p r;
     (if e \<noteq> None then None
      else if Contains (Requests (peers t p)) r then Some (t, True, None)
      else if int (GetCardinality (Requests (peers t p))) \<ge> nominalMaxRequests (peers t p) then
        Some (t, True, Some TooManyOutstanding)
      else do {
        let t = upd_peer p (\<lambda>cn. cn\<lparr>Requests := Add (Requests cn) r,
              validReceiveChunks := (validReceiveChunks cn)(r \<mapsto>
                (case validReceiveChunks cn r of None \<Rightarrow> 0 | Some n \<Rightarrow> n) + 1)\<rparr>) t;
        let t = t\<lparr>requestState := (requestState t)(r \<mapsto> (p, now t))\<rparr>;
        let t = updateExpectingChunks p t;
        ppReq \<leftarrow> request_of_index t r;
        (t, more) \<leftarrow> writeMsg p (request_msg ppReq) t;
        Some (t, more, None)
      })
   }"

definition mustRequest :: "peer_id \<Rightarrow> u32 \<Rightarrow> torrent_state \<Rightarrow> (torrent_state \<times> bool) option" where
  "mustRequest p r t = do {
     (t, more, err) \<leftarrow> request p r t;
     (if err \<noteq> None then None else Some (t, more))
   }"

definition requestingPeer :: "torrent_state \<Rightarrow> u32 \<Rightarrow> peer_id option" where
  "requestingPeer t r = map_option fst (requestState t r)"

definition deleteRequest :: "peer_id \<Rightarrow> u32 \<Rightarrow> torrent_state \<Rightarrow> (torrent_state \<times> bool) option" where
  "deleteRequest p r t = do {
     (reqs, removed) \<leftarrow> CheckedRemove (Requests (peers t p)) r;
     let t = upd_peer p (\<lambda>cn. cn\<lparr>Requests := reqs\<rparr>) t;
     (if \<not> removed then Some (t, False)
      else
        let t = updateExpectingChunks p t in
        if requestingPeer t r \<noteq> Some p then None
        else Some (t\<lparr>requestState := (requestState t)(r := None)\<rparr>, True))
   }"

fun deleteRequests :: "peer_id \<Rightarrow> u32 list \<Rightarrow> torrent_state \<Rightarrow> torrent_state option" where
  "deleteRequests p [] t = Some t"
| "deleteRequests p (x # xs) t = do {
     (t, removed) \<leftarrow> deleteRequest p x t;
     (if \<not> removed then None else deleteRequests p xs t)
   }"

definition update_if_low :: "string \<Rightarrow> peer_id \<Rightarrow> torrent_state \<Rightarrow> torrent_state" where
  "update_if_low reason p t = (if isLowOnRequests (peers t p) then updateRequests p reason t else t)"

definition deleteAllRequests :: "peer_id \<Rightarrow> string \<Rightarrow> torrent_state \<Rightarrow> torrent_state option" where
  "deleteAllRequests p reason t =
     (if IsEmpty (Requests (peers t p)) then Some t
      else do {
        t \<leftarrow> deleteRequests p (IterateSnapshot (Requests (peers t p))) t;
        (if \<not> IsEmpty (Requests (peers t p)) then None
         else Some (iterPeers (update_if_low reason) (conns t) t))
      })"

text \<open>
  \<^verbatim>\<open>PeerConn._cancel\<close>: whether an acknowledgement will follow.
\<close>

definition cancel_msg :: "peer_id \<Rightarrow> u32 \<Rightarrow> torrent_state \<Rightarrow> (torrent_state \<times> bool) option" where
  "cancel_msg p r t = do {
     req \<leftarrow> request_of_index t r;
     (t, _) \<leftarrow> writeMsg p (MakeCancelMessage (RIndex req) (RBegin req) (RLength req)) t;
     Some (t, fastEnabled t p \<and> \<not> remoteIsTransmission (peers t p))
   }"

definition cancel :: "peer_id \<Rightarrow> u32 \<Rightarrow> torrent_state \<Rightarrow> torrent_state option" where
  "cancel p r t = do {
     (t, removed) \<leftarrow> deleteRequest p r t;
     (if \<not> removed then None
      else do {
        (t, acked) \<leftarrow> cancel_msg p r t;
        (if acked \<and> r \<in> Cancelled (peers t p) then None
         else
           let t = (if acked then upd_peer p (\<lambda>cn. cn\<lparr>Cancelled := insert r (Cancelled cn)\<rparr>) t else t);
               t = decPeakRequests p t
           in Some (update_if_low ''Peer.cancel'' p t))
      })
   }"

fun cancelRequests :: "peer_id \<Rightarrow> u32 list \<Rightarrow> torrent_state \<Rightarrow> torrent_state option" where
  "cancelRequests p [] t = Some t"
| "cancelRequests p (x # xs) t = do { t \<leftarrow> cancel p x t; cancelRequests p xs t }"

definition cancelAllRequests :: "peer_id \<Rightarrow> torrent_state \<Rightarrow> torrent_state option" where
  "cancelAllRequests p t = do {
     t \<leftarrow> cancelRequests p (IterateSnapshot (Requests (peers t p))) t;
     (if \<not> IsEmpty (Requests (peers t p)) then None else Some t)
   }"

text \<open>\<^verbatim>\<open>Torrent.cancelRequest\<close>: cancel with whoever it is requested from.\<close>

definition cancelRequest :: "u32 \<Rightarrow> torrent_state \<Rightarrow> (torrent_state \<times> peer_id option) option" where
  "cancelRequest r t =
     (let p = requestingPeer t r in
      do {
        t \<leftarrow> (case p of None \<Rightarrow> Some t | Some p \<Rightarrow> cancel p r t);
        (if requestState t r \<noteq> None then None else Some (t, p))
      })"

definition decExpectedChunkReceive :: "peer_id \<Rightarrow> u32 \<Rightarrow> torrent_state \<Rightarrow> torrent_state option" where
  "decExpectedChunkReceive p r t =
     (let count = (case validReceiveChunks (peers t p) r of None \<Rightarrow> 0 | Some n \<Rightarrow> n) in
      if count = 1 then
        Some (upd_peer p (\<lambda>cn. cn\<lparr>validReceiveChunks := (validReceiveChunks cn)(r := None)\<rparr>) t)
      else if count > 1 then
        Some (upd_peer p (\<lambda>cn. cn\<lparr>validReceiveChunks := (validReceiveChunks cn)(r \<mapsto> count - 1)\<rparr>) t)
      else None)"

definition remoteRejectedRequest :: "peer_id \<Rightarrow> u32 \<Rightarrow> torrent_state \<Rightarrow> (torrent_state \<times> bool) option" where
  "remoteRejectedRequest p r t = do {
     (t, removed) \<leftarrow> deleteRequest p r t;
     (if \<not> removed \<and> r \<notin> Cancelled (peers t p) then Some (t, False)
      else do {
        let t = (if removed then decPeakRequests p t
                 else upd_peer p (\<lambda>cn. cn\<lparr>Cancelled := Cancelled cn - {r}\<rparr>) t);
        let t = update_if_low ''Peer.remoteRejectedRequest'' p t;
        t \<leftarrow> decExpectedChunkReceive p r t;
        Some (t, True)
      })
   }"

section \<open>Receiving a chunk\<close>

text \<open>
  \<open>haveChunk\<close> and \<^verbatim>\<open>Piece.unpendChunkIndex\<close> both address a chunk by the offset of its piece plus its
  number, which is \<open>index_of_request\<close>.
\<close>

definition haveChunk :: "torrent_state \<Rightarrow> request_spec \<Rightarrow> bool" where
  "haveChunk t r =
     (if \<not> haveInfo t then False
      else if pieceComplete t (unat (RIndex r)) then True
      else index_of_request t r \<in> dirtyChunks t)"

definition unpendChunk :: "u32 \<Rightarrow> torrent_state \<Rightarrow> torrent_state" where
  "unpendChunk ri t = t\<lparr>dirtyChunks := insert ri (dirtyChunks t)\<rparr>"

definition pendRequest :: "u32 \<Rightarrow> torrent_state \<Rightarrow> torrent_state option" where
  "pendRequest req t = do {
     pi \<leftarrow> piece_of_index t req;
     (if pi \<ge> numPieces t then None
      else Some (t\<lparr>dirtyChunks := dirtyChunks t -
             {word_of_nat pi * chunksPerPiece t + req mod chunksPerPiece t}\<rparr>))
   }"

definition incrementPendingWrites :: "nat \<Rightarrow> torrent_state \<Rightarrow> torrent_state" where
  "incrementPendingWrites i t = t\<lparr>pendingWrites := (pendingWrites t)(i := pendingWrites t i + 1)\<rparr>"

definition decrementPendingWrites :: "nat \<Rightarrow> torrent_state \<Rightarrow> torrent_state option" where
  "decrementPendingWrites i t =
     (if pendingWrites t i = 0 then None
      else Some (t\<lparr>pendingWrites := (pendingWrites t)(i := pendingWrites t i - 1)\<rparr>))"

datatype receive_outcome =
    RcvInvalid receive_error
  | RcvUnexpected
  | RcvRedundant
  | RcvWrite request_spec

text \<open>
  Whether the chunk answers a request: an outstanding one is deleted, otherwise a cancelled one is
  acknowledged.
\<close>

definition satisfy_request :: "peer_id \<Rightarrow> u32 \<Rightarrow> torrent_state \<Rightarrow> (torrent_state \<times> bool) option" where
  "satisfy_request p req t = do {
     (t, removed) \<leftarrow> deleteRequest p req t;
     (if removed \<or> req \<in> Cancelled (peers t p) then
        let t = (if removed then t else upd_peer p (\<lambda>cn. cn\<lparr>Cancelled := Cancelled cn - {req}\<rparr>) t);
            t = (if \<not> peerChoking (peers t p)
                 then upd_peer p (\<lambda>cn. cn\<lparr>chunksReceivedWhileExpecting := chunksReceivedWhileExpecting cn + 1\<rparr>) t
                 else t)
        in Some (update_if_low ''Peer.receiveChunk deleted request'' p t, True)
      else Some (t, False))
   }"

text \<open>
  \<open>receiveChunk\<close> up to where it gives up the client lock to write the chunk to storage.
\<close>

definition receiveChunk_locked ::
  "peer_id \<Rightarrow> message \<Rightarrow> torrent_state \<Rightarrow> (torrent_state \<times> receive_outcome) option" where
  "receiveChunk_locked p msg t = do {
     ppReq \<leftarrow> newRequestFromMessage msg;
     (case checkValidReceiveChunk (info t) ppReq of
        Some e \<Rightarrow> Some (t, RcvInvalid e)
      | None \<Rightarrow>
        let req = index_of_request t ppReq in
        if (case validReceiveChunks (peers t p) req of None \<Rightarrow> 0 | Some n \<Rightarrow> n) \<le> 0 then Some (t, RcvUnexpected)
        else do {
          t \<leftarrow> decExpectedChunkReceive p req t;
          (t, intended) \<leftarrow> satisfy_request p req t;
          (if haveChunk t ppReq then Some (t, RcvRedundant)
           else do {
             let t = upd_peer p (\<lambda>cn. cn\<lparr>
                 piecesReceivedSinceLastRequestUpdate :=
                   piecesReceivedSinceLastRequestUpdate cn + (if intended then 1 else 0),
                 lastUsefulChunkReceived := Some (now t)\<rparr>) t;
             let t = incrementPendingWrites (unat (RIndex ppReq)) t;
             let t = unpendChunk req t;
             t \<leftarrow> (case requestingPeer t req of
                 None \<Rightarrow> Some t
               | Some q \<Rightarrow> if q = p then None else cancel q req t);
             Some (t, RcvWrite ppReq)
           })
        })
   }"

definition numDirtyChunks :: "torrent_state \<Rightarrow> nat \<Rightarrow> nat" where
  "numDirtyChunks t i =
     roaringBitmapRangeCardinality (bitmap_rank (dirtyChunks t))
       (word_of_nat i * chunksPerPiece t) (word_of_nat (i + 1) * chunksPerPiece t)"

definition pieceAllDirty :: "torrent_state \<Rightarrow> nat \<Rightarrow> bool" where
  "pieceAllDirty t i =
     (case info t of None \<Rightarrow> False
      | Some g \<Rightarrow> numDirtyChunks t i = unat (pieceNumChunks g (int i)))"

definition onDirtiedPiece :: "peer_id \<Rightarrow> nat \<Rightarrow> torrent_state \<Rightarrow> torrent_state" where
  "onDirtiedPiece p i t =
     (let t = upd_peer p (\<lambda>cn. cn\<lparr>peerTouchedPieces := insert i (peerTouchedPieces cn)\<rparr>) t
      in t\<lparr>dirtiers := (dirtiers t)(i := insert p (dirtiers t i))\<rparr>)"

text \<open>Without a handler of the user, a failed write disables downloading.\<close>

definition onWriteChunkErr :: "torrent_state \<Rightarrow> torrent_state" where
  "onWriteChunkErr t = (if userOnWriteChunkErr t then t else t\<lparr>dataDownloadDisallowed := True\<rparr>)"

text \<open>
  The rest, with the lock held again: whether the write failed, and, in the result, whether the
  piece is to be queued for hashing.
\<close>

definition receiveChunk_written ::
  "peer_id \<Rightarrow> request_spec \<Rightarrow> bool \<Rightarrow> torrent_state \<Rightarrow> (torrent_state \<times> bool) option" where
  "receiveChunk_written p ppReq failed t = do {
     let i = unat (RIndex ppReq);
     t \<leftarrow> decrementPendingWrites i t;
     (if failed then do {
        t \<leftarrow> pendRequest (index_of_request t ppReq) t;
        Some (onWriteChunkErr (updateRequests p ''Peer.receiveChunk error writing chunk'' t), False)
      }
      else
        let t = onDirtiedPiece p i t
        in Some (t, pieceAllDirty t i \<and> pendingWrites t i = 0))
   }"

section \<open>Applying the desired requests\<close>

text \<open>
  The desired state of \<^verbatim>\<open>getDesiredRequestState\<close>, and \<^verbatim>\<open>applyRequestState\<close>.  The heap package is not part
  of the repository: \<open>pop\<close> stands for its \<^verbatim>\<open>Pop\<close>, which looks at the torrent through the ordering it
  was given.  The loop runs at most once per element of the heap.
\<close>

record desired_requests =
  dRequests :: "u32 list"
  dInterested :: bool

type_synonym heap_pop = "torrent_state \<Rightarrow> u32 list \<Rightarrow> u32 \<times> u32 list"

definition time_before :: "int option \<Rightarrow> int option \<Rightarrow> bool" where
  "time_before a b = (case b of None \<Rightarrow> False | Some y \<Rightarrow> (case a of None \<Rightarrow> True | Some x \<Rightarrow> x < y))"

definition uncancelledRequests :: "peer_state \<Rightarrow> nat" where
  "uncancelledRequests p = GetCardinality (Requests p)"

text \<open>Whether to leave a request with the peer that already has it.\<close>

definition dont_steal :: "torrent_state \<Rightarrow> peer_id \<Rightarrow> peer_id \<Rightarrow> bool" where
  "dont_steal t p existing =
     (let diff = int (GetCardinality (Requests (peers t p))) + 1 - (int (uncancelledRequests (peers t existing)) - 1)
      in diff > 1 \<or> (diff = 1 \<and> time_before (lastUsefulChunkReceived (peers t p))
                                   (lastUsefulChunkReceived (peers t existing))))"

definition room_for_requests :: "peer_state \<Rightarrow> bool" where
  "room_for_requests cn \<longleftrightarrow>
     int (GetCardinality (Requests cn) + card (Cancelled cn)) < nominalMaxRequests cn"

fun apply_loop :: "heap_pop \<Rightarrow> nat \<Rightarrow> peer_id \<Rightarrow> u32 list \<Rightarrow> torrent_state \<Rightarrow> (torrent_state \<times> bool) option" where
  "apply_loop pop n p heap t =
     (if heap = [] \<or> \<not> room_for_requests (peers t p) then Some (t, True)
      else case n of
        0 \<Rightarrow> None
      | Suc n \<Rightarrow>
          let (req, heap') = pop t heap; existing = requestingPeer t req in
          if (case existing of None \<Rightarrow> False | Some q \<Rightarrow> q \<noteq> p \<and> dont_steal t p q)
          then apply_loop pop n p heap' t
          else do {
            (t, _) \<leftarrow> (if existing \<noteq> None \<and> existing \<noteq> Some p then cancelRequest req t else Some (t, existing));
            (t, more) \<leftarrow> mustRequest p req t;
            (if \<not> more then Some (t, False) else apply_loop pop n p heap' t)
          })"

declare apply_loop.simps [simp del]

definition applyRequestState ::
  "heap_pop \<Rightarrow> peer_id \<Rightarrow> desired_requests \<Rightarrow> torrent_state \<Rightarrow> torrent_state option" where
  "applyRequestState pop p next t = do {
     (t, ok) \<leftarrow> setInterested p (dInterested next) t;
     (if \<not> ok then None
      else do {
        let originalRequestCount = GetCardinality (Requests (peers t p));
        (if originalRequestCount \<noteq> 0 \<and> needRequestUpdate (peers t p) \<noteq> peerUpdateRequestsTimerReason then None
         else do {
           (t, more) \<leftarrow> apply_loop pop (length (dRequests next)) p (dRequests next) t;
           (if \<not> more then None
            else Some (upd_peer p (\<lambda>cn. cn\<lparr>
              peakRequests := int (GetCardinality (Requests cn)) - int originalRequestCount,
              needRequestUpdate := [], lastRequestUpdate := Some (now t)\<rparr>) t))
         })
      })
   }"

section \<open>The bookkeeping, abstractly\<close>

text \<open>
  What the operations keep track of: the outstanding requests of a peer in order, the cancelled
  ones, the chunks it may send, and the owner of a request index.
\<close>

record req_view =
  vout :: "peer_id \<Rightarrow> u32 list"
  vcanc :: "peer_id \<Rightarrow> u32 set"
  vrecv :: "peer_id \<Rightarrow> u32 \<rightharpoonup> int"
  vowner :: "u32 \<rightharpoonup> peer_id"

definition abs_req :: "torrent_state \<Rightarrow> req_view" where
  "abs_req t = \<lparr>vout = (\<lambda>p. Iterate (Requests (peers t p))), vcanc = (\<lambda>p. Cancelled (peers t p)),
     vrecv = (\<lambda>p. validReceiveChunks (peers t p)), vowner = (\<lambda>r. map_option fst (requestState t r))\<rparr>"

lemma abs_req_sel:
  "vout (abs_req t) p = Iterate (Requests (peers t p))" "vcanc (abs_req t) p = Cancelled (peers t p)"
  "vrecv (abs_req t) p = validReceiveChunks (peers t p)" "vowner (abs_req t) r = requestingPeer t r"
  by (simp_all add: abs_req_def requestingPeer_def)

definition v_inv :: "req_view \<Rightarrow> bool" where
  "v_inv v \<longleftrightarrow> (\<forall>p. distinct (vout v p)) \<and>
     (\<forall>p r. r \<in> set (vout v p) \<longleftrightarrow> vowner v r = Some p) \<and>
     (\<forall>p. set (vout v p) \<inter> vcanc v p = {}) \<and>
     (\<forall>p r. r \<in> set (vout v p) \<union> vcanc v p \<longrightarrow> vrecv v p r \<noteq> None) \<and>
     (\<forall>p r n. vrecv v p r = Some n \<longrightarrow> n \<ge> 1)"

definition a_request :: "peer_id \<Rightarrow> u32 \<Rightarrow> req_view \<Rightarrow> req_view" where
  "a_request p r v = v\<lparr>vout := (vout v)(p := vout v p @ [r]),
     vrecv := (vrecv v)(p := (vrecv v p)(r \<mapsto> (case vrecv v p r of None \<Rightarrow> 0 | Some n \<Rightarrow> n) + 1)),
     vowner := (vowner v)(r \<mapsto> p)\<rparr>"

definition a_delete :: "peer_id \<Rightarrow> u32 \<Rightarrow> req_view \<Rightarrow> req_view" where
  "a_delete p r v = v\<lparr>vout := (vout v)(p := remove1 r (vout v p)), vowner := (vowner v)(r := None)\<rparr>"

definition a_ack :: "peer_id \<Rightarrow> u32 \<Rightarrow> req_view \<Rightarrow> req_view" where
  "a_ack p r v = v\<lparr>vcanc := (vcanc v)(p := vcanc v p - {r})\<rparr>"

definition a_cancel :: "peer_id \<Rightarrow> u32 \<Rightarrow> bool \<Rightarrow> req_view \<Rightarrow> req_view" where
  "a_cancel p r acked v =
     (let v = a_delete p r v in
      if acked then v\<lparr>vcanc := (vcanc v)(p := insert r (vcanc v p))\<rparr> else v)"

definition a_recv :: "peer_id \<Rightarrow> u32 \<Rightarrow> req_view \<Rightarrow> req_view" where
  "a_recv p r v = v\<lparr>vrecv := (vrecv v)(p := (vrecv v p)(r :=
     (case vrecv v p r of Some n \<Rightarrow> if n > 1 then Some (n - 1) else None | None \<Rightarrow> None)))\<rparr>"

lemma v_invD:
  assumes "v_inv v"
  shows "distinct (vout v p)" "r \<in> set (vout v p) \<longleftrightarrow> vowner v r = Some p"
    "set (vout v p) \<inter> vcanc v p = {}" "r \<in> set (vout v p) \<Longrightarrow> \<exists>n. vrecv v p r = Some n \<and> n \<ge> 1"
    "r \<in> vcanc v p \<Longrightarrow> \<exists>n. vrecv v p r = Some n \<and> n \<ge> 1"
  using assms unfolding v_inv_def by (blast, blast, blast, fastforce, fastforce)

lemma v_inv_delete: "v_inv v \<Longrightarrow> r \<in> set (vout v p) \<Longrightarrow> v_inv (a_delete p r v)"
  unfolding v_inv_def a_delete_def by (auto simp: set_remove1_eq) 

lemma v_inv_ack: "v_inv v \<Longrightarrow> v_inv (a_ack p r v)"
  unfolding v_inv_def a_ack_def by auto

lemma v_inv_request:
  "v_inv v \<Longrightarrow> vowner v r = None \<Longrightarrow> r \<notin> vcanc v p \<Longrightarrow> v_inv (a_request p r v)"
  unfolding v_inv_def a_request_def by (auto split: option.splits) (force+)?

lemma v_inv_cancel: "v_inv v \<Longrightarrow> r \<in> set (vout v p) \<Longrightarrow> v_inv (a_cancel p r acked v)"
  unfolding v_inv_def a_cancel_def a_delete_def Let_def by (cases acked) (auto simp: set_remove1_eq)

lemma v_inv_recv:
  "v_inv v \<Longrightarrow> r \<notin> set (vout v p) \<Longrightarrow> r \<notin> vcanc v p \<Longrightarrow> v_inv (a_recv p r v)"
  unfolding v_inv_def a_recv_def by (auto split: option.splits if_splits)

section \<open>The operations refine the bookkeeping\<close>

definition conc_inv :: "torrent_state \<Rightarrow> bool" where
  "conc_inv t \<longleftrightarrow> (\<forall>p. ob_inv (Requests (peers t p)) \<and>
     (\<forall>r \<in> set (Iterate (Requests (peers t p))). request_of_index t r \<noteq> None))"

definition req_inv :: "torrent_state \<Rightarrow> bool" where
  "req_inv t \<longleftrightarrow> conc_inv t \<and> v_inv (abs_req t)"

text \<open>
  Two states agree on requests when the bookkeeping and the info are the same; everything that
  only schedules, writes or counts is of this kind.
\<close>

definition same_reqs :: "torrent_state \<Rightarrow> torrent_state \<Rightarrow> bool" where
  "same_reqs t t' \<longleftrightarrow> info t' = info t \<and> requestState t' = requestState t \<and>
     (\<forall>p. Requests (peers t' p) = Requests (peers t p) \<and> Cancelled (peers t' p) = Cancelled (peers t p) \<and>
          validReceiveChunks (peers t' p) = validReceiveChunks (peers t p))"

named_theorems frame_intros

lemma same_reqs_refl [simp, frame_intros]: "same_reqs t t"
  by (simp add: same_reqs_def)

lemma same_reqs_trans: "same_reqs t t' \<Longrightarrow> same_reqs t' t'' \<Longrightarrow> same_reqs t t''"
  by (simp add: same_reqs_def)

lemma same_reqs_abs: "same_reqs t t' \<Longrightarrow> abs_req t' = abs_req t"
  by (simp add: same_reqs_def abs_req_def)

lemma same_reqs_conc: "same_reqs t t' \<Longrightarrow> conc_inv t' = conc_inv t"
  by (simp add: same_reqs_def conc_inv_def request_of_index_def)

lemma same_reqs_inv: "same_reqs t t' \<Longrightarrow> req_inv t' = req_inv t"
  by (simp add: req_inv_def same_reqs_abs same_reqs_conc)

lemma same_reqs_upd_peer [frame_intros]:
  assumes "\<And>cn. Requests (f cn) = Requests cn" "\<And>cn. Cancelled (f cn) = Cancelled cn"
    "\<And>cn. validReceiveChunks (f cn) = validReceiveChunks cn"
  shows "same_reqs t (upd_peer p f t)"
  using assms by (simp add: same_reqs_def upd_peer_def)

lemma same_reqs_updateRequests [frame_intros]: "same_reqs t (updateRequests p reason t)"
  by (auto simp: updateRequests_def intro: frame_intros)

lemma same_reqs_update_if_low [frame_intros]: "same_reqs t (update_if_low reason p t)"
  by (auto simp: update_if_low_def intro: frame_intros)

lemma same_reqs_decPeakRequests [frame_intros]: "same_reqs t (decPeakRequests p t)"
  unfolding decPeakRequests_def by (intro frame_intros) simp_all

lemma same_reqs_updateExpectingChunks [frame_intros]: "same_reqs t (updateExpectingChunks p t)"
  by (auto simp: updateExpectingChunks_def intro!: frame_intros split: option.splits)

lemma same_reqs_iterPeers [frame_intros]:
  assumes "\<And>p t. same_reqs t (f p t)"
  shows "same_reqs t (iterPeers f ps t)"
  by (induction ps arbitrary: t) (auto intro: same_reqs_trans assms)

lemma writeMsg_frame:
  assumes "MustMarshalBinary msg = Some b"
  obtains t' ok where "writeMsg p msg t = Some (t', ok)" "same_reqs t t'"
    "t' = upd_peer p (\<lambda>cn. cn\<lparr>writeBuffer := writeBuffer cn @ b\<rparr>) t"
proof -
  have "same_reqs t (upd_peer p (\<lambda>cn. cn\<lparr>writeBuffer := writeBuffer cn @ b\<rparr>) t)"
    by (intro frame_intros) simp_all
  then show ?thesis using that assms by (auto simp: writeMsg_def Let_def)
qed

lemma MustMarshal_simple [simp]:
  "MustMarshalBinary (request_msg r) \<noteq> None" "MustMarshalBinary (MakeCancelMessage i b l) \<noteq> None"
  by (simp_all add: MustMarshalBinary_def MarshalBinary_def message_body_def request_msg_def
      MakeCancelMessage_def zero_message_def)

lemma conc_invD:
  assumes "conc_inv t"
  shows "ob_inv (Requests (peers t p))"
    "r \<in> set (Iterate (Requests (peers t p))) \<Longrightarrow> \<exists>req. request_of_index t r = Some req"
  using assms unfolding conc_inv_def by blast+

lemma deleteRequest_conc:
  assumes c: "conc_inv t" and o: "r \<in> set (vout (abs_req t) p) \<Longrightarrow> vowner (abs_req t) r = Some p"
  shows "\<exists>t'. deleteRequest p r t = Some (t', r \<in> set (vout (abs_req t) p)) \<and> conc_inv t' \<and> info t' = info t \<and>
    abs_req t' = (if r \<in> set (vout (abs_req t) p) then a_delete p r (abs_req t) else abs_req t)"
proof -
  have vout: "vout (abs_req t) p = Iterate (Requests (peers t p))" by (simp add: abs_req_def)
  obtain reqs where reqs: "CheckedRemove (Requests (peers t p)) r = Some (reqs, r \<in> set (vout (abs_req t) p))"
    "ob_inv reqs" "Iterate reqs = remove1 r (vout (abs_req t) p)"
    using ob.remove_cases [OF conc_invD(1) [OF c, of p], of r] vout by metis
  let ?t1 = "upd_peer p (\<lambda>cn. cn\<lparr>Requests := reqs\<rparr>) t"
  show ?thesis
  proof (cases "r \<in> set (vout (abs_req t) p)")
    case False
    then have "abs_req ?t1 = abs_req t" "conc_inv ?t1"
      using reqs c by (auto simp: abs_req_def upd_peer_def remove1_idem conc_inv_def request_of_index_def fun_eq_iff)
    then show ?thesis using reqs(1) False by (simp add: deleteRequest_def upd_peer_def)
  next
    case True
    let ?t2 = "updateExpectingChunks p ?t1"
    let ?t3 = "?t2\<lparr>requestState := (requestState ?t2)(r := None)\<rparr>"
    have f: "same_reqs ?t1 ?t2" by (rule frame_intros)
    have owner: "requestingPeer ?t2 r = Some p"
      using o [OF True] f by (simp add: requestingPeer_def abs_req_def same_reqs_def upd_peer_def)
    have abs: "abs_req ?t3 = a_delete p r (abs_req t)"
      using f reqs(3) by (auto simp: abs_req_def same_reqs_def a_delete_def upd_peer_def fun_eq_iff)
    have "conc_inv ?t3"
      using f reqs(2,3) c vout set_remove1_subset [of r "vout (abs_req t) p"]
      by (auto simp: conc_inv_def same_reqs_def upd_peer_def request_of_index_def)
    moreover have "info ?t3 = info t" using f by (simp add: same_reqs_def upd_peer_def)
    ultimately show ?thesis using reqs(1) True owner abs by (simp add: deleteRequest_def Let_def)
  qed
qed

lemma deleteRequest_refines:
  assumes "req_inv t"
  shows "\<exists>t'. deleteRequest p r t = Some (t', r \<in> set (vout (abs_req t) p)) \<and> req_inv t' \<and> info t' = info t \<and>
    abs_req t' = (if r \<in> set (vout (abs_req t) p) then a_delete p r (abs_req t) else abs_req t)"
proof -
  have c: "conc_inv t" and v: "v_inv (abs_req t)" using assms by (simp_all add: req_inv_def)
  show ?thesis
    using deleteRequest_conc [OF c, of r p] v_invD(2) [OF v, of r p] v_inv_delete [OF v, of r p] v
    by (auto simp: req_inv_def)
qed

lemma cancel_msg_frame:
  assumes "request_of_index t r = Some req"
  obtains t' acked where "cancel_msg p r t = Some (t', acked)" "same_reqs t t'"
proof -
  obtain b where "MustMarshalBinary (MakeCancelMessage (RIndex req) (RBegin req) (RLength req)) = Some b"
    using MustMarshal_simple(2) by blast
  then obtain t' ok where "writeMsg p (MakeCancelMessage (RIndex req) (RBegin req) (RLength req)) t = Some (t', ok)"
    "same_reqs t t'" by (rule writeMsg_frame)
  then show ?thesis using that assms by (simp add: cancel_msg_def)
qed

lemma cancel_refines:
  assumes "req_inv t" "r \<in> set (vout (abs_req t) p)"
  shows "\<exists>t' acked. cancel p r t = Some t' \<and> req_inv t' \<and> info t' = info t \<and>
    abs_req t' = a_cancel p r acked (abs_req t)"
proof -
  have v: "v_inv (abs_req t)" using assms(1) by (simp add: req_inv_def)
  obtain t1 where t1: "deleteRequest p r t = Some (t1, True)" "req_inv t1" "info t1 = info t"
    "abs_req t1 = a_delete p r (abs_req t)"
    using deleteRequest_refines [OF assms(1), of p r] assms(2) by auto
  have "request_of_index t r \<noteq> None"
    using assms conc_invD(2) [of t r p] by (auto simp: req_inv_def abs_req_def)
  then obtain req where "request_of_index t1 r = Some req" using t1(3) by (auto simp: request_of_index_def)
  then obtain t2 acked where t2: "cancel_msg p r t1 = Some (t2, acked)" "same_reqs t1 t2"
    by (rule cancel_msg_frame)
  let ?t3 = "if acked then upd_peer p (\<lambda>cn. cn\<lparr>Cancelled := insert r (Cancelled cn)\<rparr>) t2 else t2"
  let ?t4 = "update_if_low ''Peer.cancel'' p (decPeakRequests p ?t3)"
  have "Cancelled (peers t2 p) = vcanc (abs_req t) p"
    using same_reqs_abs [OF t2(2)] t1(4) by (simp add: a_delete_def flip: abs_req_sel(2))
  then have fresh: "r \<notin> Cancelled (peers t2 p)" using v_invD(3) [OF v, of p] assms(2) by auto
  have s4: "same_reqs ?t3 ?t4" by (intro same_reqs_trans [OF _ same_reqs_update_if_low] frame_intros)
  have "abs_req ?t3 = (if acked then (abs_req t2)\<lparr>vcanc := (vcanc (abs_req t2))(p := insert r (vcanc (abs_req t2) p))\<rparr>
      else abs_req t2)" by (auto simp: abs_req_def upd_peer_def fun_eq_iff)
  then have abs: "abs_req ?t4 = a_cancel p r acked (abs_req t)"
    using same_reqs_abs [OF s4] same_reqs_abs [OF t2(2)] t1(4) by (simp add: a_cancel_def Let_def)
  have "conc_inv ?t3"
    using t1(2) same_reqs_conc [OF t2(2)] by (auto simp: req_inv_def conc_inv_def upd_peer_def request_of_index_def)
  then have "conc_inv ?t4" using same_reqs_conc [OF s4] by simp
  moreover have "v_inv (abs_req ?t4)" unfolding abs by (rule v_inv_cancel [OF v assms(2)])
  moreover have "info ?t4 = info t"
    using s4 t2(2) t1(3) by (auto simp: same_reqs_def upd_peer_def)
  ultimately show ?thesis using t1(1) t2(1) fresh abs
    by (intro exI [of _ ?t4] exI [of _ acked]) (simp add: cancel_def req_inv_def Let_def)
qed

lemma cancelRequest_refines:
  assumes "req_inv t"
  shows "\<exists>t' acked. cancelRequest r t = Some (t', vowner (abs_req t) r) \<and> req_inv t' \<and> info t' = info t \<and>
    abs_req t' = (case vowner (abs_req t) r of None \<Rightarrow> abs_req t | Some p \<Rightarrow> a_cancel p r acked (abs_req t))"
proof (cases "vowner (abs_req t) r")
  case None
  then show ?thesis using assms by (auto simp: cancelRequest_def requestingPeer_def abs_req_def)
next
  case (Some p)
  then have "r \<in> set (vout (abs_req t) p)" using v_invD(2) assms by (auto simp: req_inv_def)
  then obtain t' acked where t': "cancel p r t = Some t'" "req_inv t'" "info t' = info t"
    "abs_req t' = a_cancel p r acked (abs_req t)" using cancel_refines [OF assms] by blast
  have "vowner (abs_req t') r = None" by (simp add: t'(4) a_cancel_def a_delete_def Let_def)
  then have "requestState t' r = None" by (simp add: abs_req_sel requestingPeer_def)
  moreover have "requestingPeer t r = Some p" using Some by (simp add: abs_req_sel)
  ultimately show ?thesis using Some t'
    by (intro exI [of _ t'] exI [of _ acked]) (simp add: cancelRequest_def)
qed

lemma decExpected_refines:
  assumes "conc_inv t" "vrecv (abs_req t) p r = Some n" "n \<ge> 1"
  shows "\<exists>t'. decExpectedChunkReceive p r t = Some t' \<and> conc_inv t' \<and> info t' = info t \<and>
    abs_req t' = a_recv p r (abs_req t)"
proof -
  have vr: "validReceiveChunks (peers t p) r = Some n" using assms(2) by (simp add: abs_req_def)
  let ?f = "\<lambda>m cn. cn\<lparr>validReceiveChunks := (validReceiveChunks cn)(r := m)\<rparr>"
  have "conc_inv (upd_peer p (?f m) t)" for m
    using assms(1) by (auto simp: conc_inv_def upd_peer_def request_of_index_def)
  moreover have "abs_req (upd_peer p (?f m) t) = a_recv p r (abs_req t)"
    if "m = (if n > 1 then Some (n - 1) else None)" for m
    using vr that by (auto simp: abs_req_def upd_peer_def a_recv_def fun_eq_iff)
  moreover have "info (upd_peer p (?f m) t) = info t" for m by (simp add: upd_peer_def)
  ultimately show ?thesis using assms(3) vr
    by (cases "n = 1") (auto simp: decExpectedChunkReceive_def Let_def)
qed

lemma remoteRejected_refines:
  assumes "req_inv t" and known_def: "known = (r \<in> set (vout (abs_req t) p) \<or> r \<in> vcanc (abs_req t) p)"
  shows "\<exists>t'. remoteRejectedRequest p r t = Some (t', known) \<and> req_inv t' \<and> info t' = info t \<and>
    abs_req t' = (if r \<in> set (vout (abs_req t) p) then a_recv p r (a_delete p r (abs_req t))
      else if known then a_recv p r (a_ack p r (abs_req t)) else abs_req t)"
proof -
  have v: "v_inv (abs_req t)" using assms(1) by (simp add: req_inv_def)
  obtain t1 where t1: "deleteRequest p r t = Some (t1, r \<in> set (vout (abs_req t) p))" "req_inv t1"
    "info t1 = info t"
    "abs_req t1 = (if r \<in> set (vout (abs_req t) p) then a_delete p r (abs_req t) else abs_req t)"
    using deleteRequest_refines [OF assms(1), of p r] by blast
  have canc: "Cancelled (peers t1 p) = vcanc (abs_req t) p"
    using t1(4) by (simp add: a_delete_def flip: abs_req_sel(2))
  show ?thesis
  proof (cases known)
    case False
    then show ?thesis using t1 canc by (auto simp: remoteRejectedRequest_def known_def)
  next
    case True
    let ?rm = "r \<in> set (vout (abs_req t) p)"
    let ?t2 = "if ?rm then decPeakRequests p t1 else upd_peer p (\<lambda>cn. cn\<lparr>Cancelled := Cancelled cn - {r}\<rparr>) t1"
    let ?t3 = "update_if_low ''Peer.remoteRejectedRequest'' p ?t2"
    let ?v = "if ?rm then a_delete p r (abs_req t) else a_ack p r (abs_req t)"
    have s3: "same_reqs ?t2 ?t3" by (rule frame_intros)
    have abs2: "abs_req ?t2 = ?v"
      using t1(4) same_reqs_abs [OF same_reqs_decPeakRequests, of p t1]
      by (auto simp: abs_req_def upd_peer_def a_ack_def fun_eq_iff)
    have c3: "conc_inv ?t3"
      unfolding same_reqs_conc [OF s3] using t1(2) same_reqs_conc [OF same_reqs_decPeakRequests, of p t1]
      by (auto simp: req_inv_def conc_inv_def upd_peer_def request_of_index_def)
    have vv: "v_inv ?v" using v v_inv_delete v_inv_ack by simp
    have out: "r \<notin> set (vout ?v p)" "r \<notin> vcanc ?v p"
      using v_invD(1,3) [OF v, of p] by (auto simp: a_delete_def a_ack_def set_remove1_eq)
    have "\<exists>n. vrecv ?v p r = Some n \<and> n \<ge> 1"
      using True v_invD(4,5) [OF v, of r p] by (auto simp: known_def a_delete_def a_ack_def)
    then obtain n where n: "vrecv (abs_req ?t3) p r = Some n" "n \<ge> 1"
      using same_reqs_abs [OF s3] abs2 by auto
    obtain t4 where t4: "decExpectedChunkReceive p r ?t3 = Some t4" "conc_inv t4" "info t4 = info ?t3"
      "abs_req t4 = a_recv p r (abs_req ?t3)" using decExpected_refines [OF c3 n] by blast
    have abs4: "abs_req t4 = a_recv p r ?v" using t4(4) same_reqs_abs [OF s3] abs2 by simp
    have "info ?t3 = info t" using s3 t1(3) by (auto simp: same_reqs_def upd_peer_def decPeakRequests_def)
    then show ?thesis using t1(1) t4 abs4 v_inv_recv [OF vv out] True canc
      by (auto simp: remoteRejectedRequest_def known_def req_inv_def Let_def)
  qed
qed

lemma a_delete_simps:
  "vout (a_delete p r v) = (vout v)(p := remove1 r (vout v p))" "vcanc (a_delete p r v) = vcanc v"
  "vrecv (a_delete p r v) = vrecv v" "vowner (a_delete p r v) = (vowner v)(r := None)"
  by (simp_all add: a_delete_def)

lemma deleteRequests_refines:
  assumes "req_inv t" "distinct xs" "set xs \<subseteq> set (vout (abs_req t) p)"
  shows "\<exists>t'. deleteRequests p xs t = Some t' \<and> req_inv t' \<and> info t' = info t \<and>
    abs_req t' = fold (a_delete p) xs (abs_req t)"
  using assms
proof (induction xs arbitrary: t)
  case (Cons x xs)
  obtain t1 where t1: "deleteRequest p x t = Some (t1, True)" "req_inv t1" "info t1 = info t"
    "abs_req t1 = a_delete p x (abs_req t)"
    using deleteRequest_refines [OF Cons.prems(1), of p x] Cons.prems(3) by auto
  have "distinct (vout (abs_req t) p)" using Cons.prems(1) v_invD(1) by (auto simp: req_inv_def)
  then have "set xs \<subseteq> set (vout (abs_req t1) p)"
    using Cons.prems(2,3) by (auto simp: t1(4) a_delete_simps set_remove1_eq)
  then show ?case using Cons.IH [OF t1(2)] Cons.prems(2) t1 by auto
qed simp

lemma fold_a_delete:
  assumes "distinct (vout v p)"
  shows "set (vout (fold (a_delete p) xs v) p) = set (vout v p) - set xs"
    "q \<noteq> p \<Longrightarrow> vout (fold (a_delete p) xs v) q = vout v q"
    "vcanc (fold (a_delete p) xs v) = vcanc v" "vrecv (fold (a_delete p) xs v) = vrecv v"
    "distinct (vout (fold (a_delete p) xs v) p)"
  using assms
  by (induction xs arbitrary: v) (auto simp: a_delete_simps set_remove1_eq)

lemma deleteAllRequests_refines:
  assumes "req_inv t"
  shows "\<exists>t'. deleteAllRequests p reason t = Some t' \<and> req_inv t' \<and> info t' = info t \<and>
    vout (abs_req t') = (vout (abs_req t))(p := []) \<and> vcanc (abs_req t') = vcanc (abs_req t) \<and>
    vrecv (abs_req t') = vrecv (abs_req t)"
proof -
  have ob: "ob_inv (Requests (peers t p))" using assms conc_invD(1) by (auto simp: req_inv_def)
  have d: "distinct (vout (abs_req t) p)" using assms v_invD(1) by (auto simp: req_inv_def)
  show ?thesis
  proof (cases "IsEmpty (Requests (peers t p))")
    case True
    then have "vout (abs_req t) p = []" using ob.isEmpty_iff [OF ob] by (simp add: abs_req_sel)
    then show ?thesis using True assms by (auto simp: deleteAllRequests_def fun_eq_iff)
  next
    case False
    let ?xs = "IterateSnapshot (Requests (peers t p))"
    have xs: "set ?xs = set (vout (abs_req t) p)" "distinct ?xs"
      using ob.set_snapshot [OF ob] ob.snapshot_eq [OF ob] ob.iterate_distinct [OF ob] by (auto simp: abs_req_sel)
    obtain t1 where t1: "deleteRequests p ?xs t = Some t1" "req_inv t1" "info t1 = info t"
      "abs_req t1 = fold (a_delete p) ?xs (abs_req t)"
      using deleteRequests_refines [OF assms xs(2), of p] xs(1) by auto
    have empty: "vout (abs_req t1) p = []" using fold_a_delete(1) [OF d, of ?xs] xs(1) by (simp add: t1(4))
    moreover have "ob_inv (Requests (peers t1 p))" using t1(2) conc_invD(1) by (auto simp: req_inv_def)
    ultimately have "IsEmpty (Requests (peers t1 p))" using ob.isEmpty_iff by (auto simp: abs_req_sel)
    moreover have s: "same_reqs t1 (iterPeers (update_if_low reason) (conns t1) t1)" by (intro frame_intros)
    moreover have "vout (abs_req t1) = (vout (abs_req t))(p := [])"
      using empty fold_a_delete(2) [OF d] by (auto simp: t1(4) fun_eq_iff)
    ultimately show ?thesis
      using False t1 fold_a_delete(3,4) [OF d] same_reqs_abs [OF s] same_reqs_inv [OF s]
      by (auto simp: deleteAllRequests_def same_reqs_def)
  qed
qed

lemma request_refines:
  assumes "req_inv t" "shouldRequest t p r = Some None" "requestingPeer t r = None \<or> requestingPeer t r = Some p"
  shows "\<exists>t' ok e. request p r t = Some (t', ok, e) \<and> req_inv t' \<and> info t' = info t \<and>
    abs_req t' = (if e = None \<and> r \<notin> set (vout (abs_req t) p) then a_request p r (abs_req t) else abs_req t) \<and>
    (e \<noteq> None \<longrightarrow> int (length (vout (abs_req t) p)) \<ge> nominalMaxRequests (peers t p))"
proof -
  have c: "conc_inv t" and v: "v_inv (abs_req t)" using assms(1) by (simp_all add: req_inv_def)
  note ob = conc_invD(1) [OF c, of p]
  have canc: "r \<notin> vcanc (abs_req t) p"
    using assms(2) by (auto simp: shouldRequest_def abs_req_sel Let_def split: option.splits if_splits)
  obtain req where req: "request_of_index t r = Some req"
    using assms(2) by (auto simp: shouldRequest_def split: option.splits)
  let ?S = "Requests (peers t p)"
  consider "r \<in> set (vout (abs_req t) p)"
    | "r \<notin> set (vout (abs_req t) p)" "int (GetCardinality ?S) \<ge> nominalMaxRequests (peers t p)"
    | "r \<notin> set (vout (abs_req t) p)" "int (GetCardinality ?S) < nominalMaxRequests (peers t p)" by linarith
  then show ?thesis
  proof cases
    case 1
    then show ?thesis using assms ob.contains_iff [OF ob] by (auto simp: request_def abs_req_sel)
  next
    case 2
    then show ?thesis using assms ob.contains_iff [OF ob] ob.cardinality_eq [OF ob]
      by (auto simp: request_def abs_req_sel)
  next
    case 3
    let ?t1 = "upd_peer p (\<lambda>cn. cn\<lparr>Requests := Add (Requests cn) r,
        validReceiveChunks := (validReceiveChunks cn)(r \<mapsto>
          (case validReceiveChunks cn r of None \<Rightarrow> 0 | Some n \<Rightarrow> n) + 1)\<rparr>) t"
    let ?t2 = "?t1\<lparr>requestState := (requestState ?t1)(r \<mapsto> (p, now ?t1))\<rparr>"
    let ?t3 = "updateExpectingChunks p ?t2"
    have s3: "same_reqs ?t2 ?t3" by (rule frame_intros)
    have req3: "request_of_index ?t3 r = Some req"
      using req s3 by (simp add: same_reqs_def request_of_index_def upd_peer_def)
    obtain b where "MustMarshalBinary (request_msg req) = Some b" using MustMarshal_simple(1) by blast
    then obtain t4 more where t4: "writeMsg p (request_msg req) ?t3 = Some (t4, more)" "same_reqs ?t3 t4"
      by (rule writeMsg_frame)
    note s = same_reqs_trans [OF s3 t4(2)]
    have abs2: "abs_req ?t2 = a_request p r (abs_req t)"
      using 3(1) ob.iterate_add [OF ob]
      by (auto simp: abs_req_def upd_peer_def a_request_def fun_eq_iff)
    have "conc_inv ?t2"
      using c ob.inv_add [OF ob] ob.iterate_add [OF ob] req
      by (auto simp: conc_inv_def upd_peer_def request_of_index_def)
    moreover have "vowner (abs_req t) r = None"
      using assms(3) 3(1) v_invD(2) [OF v, of r p] by (auto simp: abs_req_sel)
    then have "v_inv (abs_req ?t2)" unfolding abs2 by (rule v_inv_request [OF v _ canc])
    moreover have "info t4 = info t" using s by (simp add: same_reqs_def upd_peer_def)
    ultimately have "req_inv t4" "info t4 = info t" "abs_req t4 = a_request p r (abs_req t)"
      using same_reqs_inv [OF s] same_reqs_abs [OF s] abs2 by (simp_all add: req_inv_def)
    moreover have "request p r t = Some (t4, more, None)"
      using assms(2) 3 t4(1) req3 ob.contains_iff [OF ob] by (simp add: request_def abs_req_sel Let_def)
    ultimately show ?thesis using 3(1) by (intro exI [of _ t4] exI [of _ more] exI [of _ None]) simp
  qed
qed

lemma a_recv_simps:
  "vout (a_recv p r v) = vout v" "vcanc (a_recv p r v) = vcanc v" "vowner (a_recv p r v) = vowner v"
  "a_delete p r (a_recv p r v) = a_recv p r (a_delete p r v)" "a_ack p r (a_recv p r v) = a_recv p r (a_ack p r v)"
  by (simp_all add: a_recv_def a_delete_def a_ack_def)

definition a_satisfy :: "peer_id \<Rightarrow> u32 \<Rightarrow> req_view \<Rightarrow> req_view" where
  "a_satisfy p r v =
     (if r \<in> set (vout v p) then a_delete p r v else if r \<in> vcanc v p then a_ack p r v else v)"

lemma v_inv_satisfy_recv:
  assumes "v_inv v"
  shows "v_inv (a_recv p r (a_satisfy p r v))"
  using v_invD(1,3) [OF assms, of p] v_inv_delete [OF assms] v_inv_ack [OF assms] assms
  by (auto simp: a_satisfy_def a_delete_simps a_ack_def set_remove1_eq intro!: v_inv_recv)

lemma satisfy_refines:
  assumes "conc_inv t" "v_inv v" "abs_req t = a_recv p r v"
  shows "\<exists>t' intended. satisfy_request p r t = Some (t', intended) \<and> req_inv t' \<and> info t' = info t \<and>
    abs_req t' = a_recv p r (a_satisfy p r v)"
proof -
  have "r \<in> set (vout (abs_req t) p) \<Longrightarrow> vowner (abs_req t) r = Some p"
    using v_invD(2) [OF assms(2)] by (simp add: assms(3) a_recv_simps)
  from deleteRequest_conc [OF assms(1) this]
  obtain t1 where t1: "deleteRequest p r t = Some (t1, r \<in> set (vout v p))" "conc_inv t1" "info t1 = info t"
    "abs_req t1 = (if r \<in> set (vout v p) then a_recv p r (a_delete p r v) else a_recv p r v)"
    by (auto simp: assms(3) a_recv_simps)
  let ?rm = "r \<in> set (vout v p)"
  have canc: "Cancelled (peers t1 p) = vcanc v p"
    using t1(4) by (simp add: a_recv_simps a_delete_simps flip: abs_req_sel(2))
  show ?thesis
  proof (cases "?rm \<or> r \<in> vcanc v p")
    case False
    then have "a_satisfy p r v = v" by (simp add: a_satisfy_def)
    then show ?thesis using False t1 canc v_inv_satisfy_recv [OF assms(2), of p r]
      by (auto simp: satisfy_request_def req_inv_def)
  next
    case True
    let ?t2 = "if ?rm then t1 else upd_peer p (\<lambda>cn. cn\<lparr>Cancelled := Cancelled cn - {r}\<rparr>) t1"
    let ?t3 = "if \<not> peerChoking (peers ?t2 p)
      then upd_peer p (\<lambda>cn. cn\<lparr>chunksReceivedWhileExpecting := chunksReceivedWhileExpecting cn + 1\<rparr>) ?t2 else ?t2"
    let ?t4 = "update_if_low ''Peer.receiveChunk deleted request'' p ?t3"
    have s: "same_reqs ?t2 ?t4"
      by (rule same_reqs_trans [OF _ same_reqs_update_if_low]) (auto intro: frame_intros)
    have "abs_req ?t2 = (if ?rm then abs_req t1 else a_ack p r (abs_req t1))"
      by (auto simp: abs_req_def upd_peer_def a_ack_def fun_eq_iff)
    then have abs: "abs_req ?t4 = a_recv p r (a_satisfy p r v)"
      using same_reqs_abs [OF s] t1(4) True by (auto simp: a_satisfy_def a_recv_simps)
    have "conc_inv ?t2" using t1(2) by (auto simp: conc_inv_def upd_peer_def request_of_index_def)
    then have "req_inv ?t4"
      using same_reqs_conc [OF s] abs v_inv_satisfy_recv [OF assms(2)] by (simp add: req_inv_def)
    moreover have "info ?t4 = info t" using s t1(3) by (auto simp: same_reqs_def upd_peer_def)
    moreover have "satisfy_request p r t = Some (?t4, True)"
      using t1(1) canc True by (simp add: satisfy_request_def Let_def)
    ultimately show ?thesis using abs by blast
  qed
qed

lemma owner_out: "req_inv t \<Longrightarrow> requestingPeer t r = Some q \<Longrightarrow> r \<in> set (vout (abs_req t) q)"
  using v_invD(2) [of "abs_req t" r q] by (simp add: req_inv_def abs_req_sel(4))

lemma cancel_others:
  assumes "req_inv t" "requestingPeer t r \<noteq> Some p"
  shows "\<exists>t'. (case requestingPeer t r of None \<Rightarrow> Some t | Some q \<Rightarrow> if q = p then None else cancel q r t) = Some t' \<and>
    req_inv t' \<and> info t' = info t"
proof (cases "requestingPeer t r")
  case (Some q)
  then show ?thesis using cancel_refines [OF assms(1) owner_out [OF assms(1) Some]] assms(2) by auto
qed (use assms in simp)

lemma receiveChunk_refines:
  assumes "req_inv t" "newRequestFromMessage msg = Some ppReq"
  shows "\<exists>t' outcome. receiveChunk_locked p msg t = Some (t', outcome) \<and> req_inv t' \<and> info t' = info t"
proof (cases "checkValidReceiveChunk (info t) ppReq")
  case (Some e)
  then show ?thesis using assms by (simp add: receiveChunk_locked_def)
next
  case None
  let ?r = "index_of_request t ppReq"
  have c: "conc_inv t" and v: "v_inv (abs_req t)" using assms(1) by (simp_all add: req_inv_def)
  show ?thesis
  proof (cases "(case validReceiveChunks (peers t p) ?r of None \<Rightarrow> 0 | Some n \<Rightarrow> n) \<le> 0")
    case True
    then show ?thesis using None assms by (simp add: receiveChunk_locked_def Let_def)
  next
    case False
    then obtain n where n: "vrecv (abs_req t) p ?r = Some n" "n \<ge> 1"
      by (cases "validReceiveChunks (peers t p) ?r") (auto simp: abs_req_sel)
    obtain t1 where t1: "decExpectedChunkReceive p ?r t = Some t1" "conc_inv t1" "info t1 = info t"
      "abs_req t1 = a_recv p ?r (abs_req t)" using decExpected_refines [OF c n] by blast
    obtain t2 intended where t2: "satisfy_request p ?r t1 = Some (t2, intended)" "req_inv t2" "info t2 = info t"
      "abs_req t2 = a_recv p ?r (a_satisfy p ?r (abs_req t))"
      using satisfy_refines [OF t1(2) v t1(4)] t1(3) by auto
    show ?thesis
    proof (cases "haveChunk t2 ppReq")
      case True
      then show ?thesis using None False assms(2) t1(1) t2 by (simp add: receiveChunk_locked_def Let_def)
    next
      case have_not: False
      let ?t3 = "upd_peer p (\<lambda>cn. cn\<lparr>piecesReceivedSinceLastRequestUpdate :=
            piecesReceivedSinceLastRequestUpdate cn + (if intended then 1 else 0),
            lastUsefulChunkReceived := Some (now t2)\<rparr>) t2"
      let ?t5 = "unpendChunk ?r (incrementPendingWrites (unat (RIndex ppReq)) ?t3)"
      have s: "same_reqs t2 ?t5"
        by (simp add: same_reqs_def unpendChunk_def incrementPendingWrites_def upd_peer_def)
      have inv5: "req_inv ?t5" "info ?t5 = info t"
        using same_reqs_inv [OF s] t2(2,3) s by (auto simp: same_reqs_def)
      have "vowner (abs_req t2) ?r \<noteq> Some p"
        using v_invD(2) [OF v, of ?r p]
        by (auto simp: t2(4) a_recv_simps a_satisfy_def a_delete_simps a_ack_def)
      then have other: "requestingPeer ?t5 ?r \<noteq> Some p" using same_reqs_abs [OF s] by (simp flip: abs_req_sel(4))
      obtain t6 where "(case requestingPeer ?t5 ?r of None \<Rightarrow> Some ?t5
          | Some q \<Rightarrow> if q = p then None else cancel q ?r ?t5) = Some t6" "req_inv t6" "info t6 = info t"
        using cancel_others [OF inv5(1) other] inv5(2) by metis
      then show ?thesis using None False have_not assms(2) t1(1) t2(1)
        by (auto simp: receiveChunk_locked_def Let_def)
    qed
  qed
qed

section \<open>What the request operations leave alone\<close>

definition fixed_fields ::
  "peer_state \<Rightarrow> bool \<times> nat set \<times> bool \<times> bool \<times> nat set \<times> int \<times> bytes \<times> bytes \<times> bool \<times> bool \<times> (request_spec \<rightharpoonup> nat)" where
  "fixed_fields cn = (closed cn, peerPieces cn, peerSentHaveAll cn, peerChoking cn, peerAllowedFast cn,
     PeerMaxRequests cn, PeerExtensionBytes cn, PeerID cn, Interested cn, choking cn, peerRequests cn)"

definition env_frame :: "torrent_state \<Rightarrow> torrent_state \<Rightarrow> bool" where
  "env_frame t t' \<longleftrightarrow> (\<exists>P S. t' = t\<lparr>peers := P, requestState := S\<rparr>) \<and>
     (\<forall>p. fixed_fields (peers t' p) = fixed_fields (peers t p))"

definition only_peer :: "peer_id \<Rightarrow> torrent_state \<Rightarrow> torrent_state \<Rightarrow> bool" where
  "only_peer q t t' \<longleftrightarrow> env_frame t t' \<and> (\<forall>p. p \<noteq> q \<longrightarrow> peers t' p = peers t p)"

named_theorems peer_intros

lemma env_frame_refl [simp]: "env_frame t t"
  unfolding env_frame_def by (auto intro!: exI [of _ "peers t"] exI [of _ "requestState t"])

lemma env_frame_trans: "env_frame t t' \<Longrightarrow> env_frame t' t'' \<Longrightarrow> env_frame t t''"
  unfolding env_frame_def by (elim conjE exE) (auto intro!: exI)

lemma env_frame_fields:
  assumes "env_frame t t'"
  shows "info t' = info t" "conns t' = conns t" "config t' = config t" "hashing t' = hashing t"
    "piecesQueuedForHash t' = piecesQueuedForHash t" "connsWithAllPieces t' = connsWithAllPieces t"
    "relativeAvailability t' = relativeAvailability t" "completedPieces t' = completedPieces t"
    "pendingPieces t' = pendingPieces t" "now t' = now t" "tclosed t' = tclosed t"
    "fixed_fields (peers t' p) = fixed_fields (peers t p)"
  using assms unfolding env_frame_def by auto

lemma only_peer_refl [simp, peer_intros]: "only_peer q t t"
  by (simp add: only_peer_def)

lemma only_peer_trans: "only_peer q t t' \<Longrightarrow> only_peer q t' t'' \<Longrightarrow> only_peer q t t''"
  unfolding only_peer_def by (auto intro: env_frame_trans)

lemma only_peer_upd [peer_intros]:
  assumes "\<And>cn. fixed_fields (f cn) = fixed_fields cn"
  shows "only_peer q t (upd_peer q f t)"
  using assms unfolding only_peer_def env_frame_def upd_peer_def
  by (auto intro!: exI [of _ "(peers t)(q := f (peers t q))"] exI [of _ "requestState t"])

lemma only_peer_requestState [peer_intros]: "only_peer q t (t\<lparr>requestState := S\<rparr>)"
  unfolding only_peer_def env_frame_def by (auto intro!: exI [of _ "peers t"])

lemma only_peer_updateRequests [peer_intros]: "only_peer q t (updateRequests q reason t)"
  by (auto simp: updateRequests_def fixed_fields_def intro!: peer_intros)

lemma only_peer_update_if_low [peer_intros]: "only_peer q t (update_if_low reason q t)"
  by (auto simp: update_if_low_def intro!: peer_intros)

lemma only_peer_decPeakRequests [peer_intros]: "only_peer q t (decPeakRequests q t)"
  by (auto simp: decPeakRequests_def fixed_fields_def intro!: peer_intros)

lemma only_peer_updateExpectingChunks [peer_intros]: "only_peer q t (updateExpectingChunks q t)"
  by (auto simp: updateExpectingChunks_def fixed_fields_def intro!: peer_intros split: option.splits)

lemma only_peer_writeMsg: "writeMsg q msg t = Some (t', ok) \<Longrightarrow> only_peer q t t'"
  by (auto simp: writeMsg_def Let_def fixed_fields_def bind_eq_Some_conv intro!: peer_intros)

lemma only_peer_deleteRequest:
  assumes "deleteRequest q r t = Some (t', b)"
  shows "only_peer q t t'"
proof -
  obtain reqs removed where rm: "CheckedRemove (Requests (peers t q)) r = Some (reqs, removed)"
    using assms by (auto simp: deleteRequest_def bind_eq_Some_conv)
  let ?t1 = "upd_peer q (\<lambda>cn. cn\<lparr>Requests := reqs\<rparr>) t"
  have 1: "only_peer q t ?t1" by (auto simp: fixed_fields_def intro!: peer_intros)
  have 2: "only_peer q ?t1 (updateExpectingChunks q ?t1)" by (rule peer_intros)
  show ?thesis using assms rm 1 only_peer_trans [OF only_peer_trans [OF 1 2]]
    by (auto simp: deleteRequest_def Let_def intro: peer_intros split: if_splits)
qed

lemma only_peer_cancel_msg: "cancel_msg q r t = Some (t', b) \<Longrightarrow> only_peer q t t'"
  by (auto simp: cancel_msg_def bind_eq_Some_conv dest: only_peer_writeMsg)

lemma only_peer_cancel:
  assumes "cancel q r t = Some t'"
  shows "only_peer q t t'"
proof -
  obtain t1 t2 acked where t1: "deleteRequest q r t = Some (t1, True)" "cancel_msg q r t1 = Some (t2, acked)"
    and t': "t' = update_if_low ''Peer.cancel'' q (decPeakRequests q
      (if acked then upd_peer q (\<lambda>cn. cn\<lparr>Cancelled := insert r (Cancelled cn)\<rparr>) t2 else t2))"
    using assms by (auto simp: cancel_def bind_eq_Some_conv Let_def split: if_splits)
  let ?t3 = "if acked then upd_peer q (\<lambda>cn. cn\<lparr>Cancelled := insert r (Cancelled cn)\<rparr>) t2 else t2"
  have "only_peer q t t2" using only_peer_trans only_peer_deleteRequest [OF t1(1)] only_peer_cancel_msg [OF t1(2)] by blast
  moreover have "only_peer q t2 ?t3" by (auto simp: fixed_fields_def intro!: peer_intros)
  moreover have "only_peer q ?t3 t'" unfolding t'
    by (rule only_peer_trans [OF only_peer_decPeakRequests only_peer_update_if_low])
  ultimately show ?thesis by (blast intro: only_peer_trans)
qed

lemma env_frame_deleteRequests: "deleteRequests q xs t = Some t' \<Longrightarrow> only_peer q t t'"
  by (induction xs arbitrary: t)
     (auto simp: bind_eq_Some_conv split: if_splits dest!: only_peer_deleteRequest intro: only_peer_trans)

lemma env_frame_iter_low: "env_frame t (iterPeers (update_if_low reason) ps t)"
proof (induction ps arbitrary: t)
  case (Cons q ps)
  have "env_frame t (update_if_low reason q t)"
    using only_peer_update_if_low by (simp add: only_peer_def)
  then show ?case using Cons.IH env_frame_trans by fastforce
qed simp

lemma env_frame_deleteAllRequests:
  assumes "deleteAllRequests q reason t = Some t'"
  shows "env_frame t t'"
proof (cases "IsEmpty (Requests (peers t q))")
  case False
  then obtain t1 where "deleteRequests q (IterateSnapshot (Requests (peers t q))) t = Some t1"
    and t': "t' = iterPeers (update_if_low reason) (conns t1) t1"
    using assms by (auto simp: deleteAllRequests_def bind_eq_Some_conv split: if_splits)
  then have "env_frame t t1" using env_frame_deleteRequests only_peer_def by blast
  then show ?thesis unfolding t' by (rule env_frame_trans) (rule env_frame_iter_low)
qed (use assms in \<open>simp add: deleteAllRequests_def\<close>)

lemma only_peer_request:
  assumes "request p r t = Some (t', ok, e)"
  shows "only_peer p t t'"
proof -
  let ?t1 = "upd_peer p (\<lambda>cn. cn\<lparr>Requests := Add (Requests cn) r,
        validReceiveChunks := (validReceiveChunks cn)(r \<mapsto>
          (case validReceiveChunks cn r of None \<Rightarrow> 0 | Some n \<Rightarrow> n) + 1)\<rparr>) t"
  let ?t2 = "?t1\<lparr>requestState := (requestState ?t1)(r \<mapsto> (p, now ?t1))\<rparr>"
  have "only_peer p t ?t1" by (auto simp: fixed_fields_def intro!: peer_intros)
  then have "only_peer p t ?t2" by (rule only_peer_trans) (rule peer_intros)
  then have "only_peer p t (updateExpectingChunks p ?t2)" by (rule only_peer_trans) (rule peer_intros)
  then show ?thesis using assms
    by (auto simp: request_def bind_eq_Some_conv Let_def split: if_splits
        dest!: only_peer_writeMsg intro: only_peer_trans)
qed


section \<open>Applying a desired request state\<close>

lemma updateExpectingChunks_fields [simp]:
  "writeBuffer (peers (updateExpectingChunks p t) q) = writeBuffer (peers t q)"
  "Cancelled (peers (updateExpectingChunks p t) q) = Cancelled (peers t q)"
  "Requests (peers (updateExpectingChunks p t) q) = Requests (peers t q)"
  "peakRequests (peers (updateExpectingChunks p t) q) = peakRequests (peers t q)"
  "needRequestUpdate (peers (updateExpectingChunks p t) q) = needRequestUpdate (peers t q)"
  by (auto simp: updateExpectingChunks_def upd_peer_def split: option.splits)

lemma writeMsg_fields:
  assumes "writeMsg p msg t = Some (t', ok)" "MustMarshalBinary msg = Some b"
  shows "writeBuffer (peers t' p) = writeBuffer (peers t p) @ b" "Cancelled (peers t' q) = Cancelled (peers t q)"
    "Requests (peers t' q) = Requests (peers t q)" "peakRequests (peers t' q) = peakRequests (peers t q)"
    "needRequestUpdate (peers t' q) = needRequestUpdate (peers t q)"
    "ok \<longleftrightarrow> length (writeBuffer (peers t p)) + length b < writeBufferHighWaterLen"
  using assms by (auto simp: writeMsg_def Let_def upd_peer_def writeBufferFull_def split: if_splits)

lemma request_msg_length: "\<exists>b. MustMarshalBinary (request_msg req) = Some b \<and> length b = 17"
  by (simp add: MustMarshalBinary_def MarshalBinary_def message_body_def request_msg_def zero_message_def wire_simps)

lemma interested_msg_length:
  "\<exists>b. MustMarshalBinary (typed_message (if i then mtInterested else mtNotInterested)) = Some b \<and> length b = 5"
  by (simp add: MustMarshalBinary_def MarshalBinary_def message_body_def typed_message_def zero_message_def wire_simps)

lemma maxLocalToRemote [simp]: "maxLocalToRemoteRequests = 963"
  by (simp add: maxLocalToRemoteRequests_def interestedMsgLen_def requestMsgLen_def wire_simps
      typed_message_def MustMarshalBinary_def MarshalBinary_def message_body_def zero_message_def)

lemma nominalMax_le: "nominalMaxRequests cn \<le> 963"
  by (simp add: nominalMaxRequests_def maxInt_def minInt_def)


text \<open>
  What holds of the requesting peer between two iterations of the loop, with respect to the state
  \<open>t0\<close> it started from and the requests \<open>H\<close> to be made: nothing that the checks of \<open>shouldRequest\<close> look at has changed, and the
  write buffer holds at most one request message per outstanding request on top of the low water
  mark and one interest message.
\<close>

definition apply_ready :: "u32 set \<Rightarrow> torrent_state \<Rightarrow> peer_id \<Rightarrow> torrent_state \<Rightarrow> bool" where
  "apply_ready H t0 p t \<longleftrightarrow> req_inv t \<and> env_frame t0 t \<and>
     Cancelled (peers t p) = Cancelled (peers t0 p) \<and> peakRequests (peers t p) = peakRequests (peers t0 p) \<and>
     set (Iterate (Requests (peers t0 p))) \<subseteq> set (Iterate (Requests (peers t p))) \<and>
     set (Iterate (Requests (peers t p))) \<subseteq> set (Iterate (Requests (peers t0 p))) \<union> H \<and>
     int (GetCardinality (Requests (peers t p)) + card (Cancelled (peers t p)))
       \<le> max (nominalMaxRequests (peers t0 p))
            (int (GetCardinality (Requests (peers t0 p)) + card (Cancelled (peers t0 p)))) \<and>
     length (writeBuffer (peers t p)) \<le> 16389 + 17 * GetCardinality (Requests (peers t p))"

lemma contains_out: "req_inv t \<Longrightarrow> Contains (Requests (peers t p)) r \<longleftrightarrow> r \<in> set (Iterate (Requests (peers t p)))"
  using ob.contains_iff [OF conc_invD(1)] by (auto simp: req_inv_def)

lemma empty_cardinality: "req_inv t \<Longrightarrow> IsEmpty (Requests (peers t p)) \<Longrightarrow> GetCardinality (Requests (peers t p)) = 0"
  using ob.isEmpty_iff [OF conc_invD(1)] ob.cardinality_eq [OF conc_invD(1)] by (fastforce simp: req_inv_def)

lemma ready_nominal: "apply_ready H t0 p t \<Longrightarrow> nominalMaxRequests (peers t p) = nominalMaxRequests (peers t0 p)"
  using env_frame_fields(12) [of t0 t p] by (simp add: apply_ready_def nominalMaxRequests_def fixed_fields_def)

lemma shouldRequest_ready:
  assumes "req_inv t0" "apply_ready H t0 p t" "shouldRequest t0 p r = Some None"
  shows "shouldRequest t p r = Some None"
proof -
  have e: "env_frame t0 t" and inv: "req_inv t" using assms by (simp_all add: apply_ready_def)
  note f = env_frame_fields [OF e]
  have "Contains (Requests (peers t p)) r" if "Contains (Requests (peers t0 p)) r"
    using that assms(2) by (auto simp: apply_ready_def contains_out [OF assms(1)] contains_out [OF inv])
  moreover have "request_of_index t r = request_of_index t0 r" "piece_of_index t r = piece_of_index t0 r"
    by (simp_all add: request_of_index_def piece_of_index_def chunksPerPiece_def f)
  moreover have "peerHasPiece t p pi = peerHasPiece t0 p pi" "peerIsActive t p = peerIsActive t0 p" for pi
    using f(12) [of p] by (auto simp: peerHasPiece_def peerHasAllPieces_def haveInfo_def numPieces_def
        peerIsActive_def f(1,2) fixed_fields_def)
  ultimately show ?thesis using assms(2,3) f(12) [of p]
    by (auto simp: shouldRequest_def Let_def f(1-5) apply_ready_def fixed_fields_def split: option.splits if_splits)
qed

lemma mustRequest_ready:
  assumes "req_inv t0" "apply_ready H t0 p t" "shouldRequest t0 p r = Some None" "r \<in> H"
    "requestingPeer t r = None \<or> requestingPeer t r = Some p" "room_for_requests (peers t p)"
  shows "\<exists>t'. mustRequest p r t = Some (t', True) \<and> apply_ready H t0 p t'"
proof -
  have inv: "req_inv t" using assms(2) by (simp add: apply_ready_def)
  note sr = shouldRequest_ready [OF assms(1-3)]
  have c: "conc_inv t" using inv by (simp add: req_inv_def)
  note ob = conc_invD(1) [OF c, of p]
  obtain t' ok e where t': "request p r t = Some (t', ok, e)" "req_inv t'"
    and e: "e \<noteq> None \<longrightarrow> int (length (vout (abs_req t) p)) \<ge> nominalMaxRequests (peers t p)"
    using request_refines [OF inv sr assms(5)] by blast
  have small: "int (GetCardinality (Requests (peers t p))) < nominalMaxRequests (peers t p)"
    using assms(6) by (simp add: room_for_requests_def)
  have "e = None" using e small ob.cardinality_eq [OF ob] by (auto simp: abs_req_sel)
  show ?thesis
  proof (cases "Contains (Requests (peers t p)) r")
    case True
    then have "mustRequest p r t = Some (t, True)" using sr by (simp add: mustRequest_def request_def)
    then show ?thesis using assms(2) by blast
  next
    case False
    let ?t1 = "upd_peer p (\<lambda>cn. cn\<lparr>Requests := Add (Requests cn) r,
        validReceiveChunks := (validReceiveChunks cn)(r \<mapsto>
          (case validReceiveChunks cn r of None \<Rightarrow> 0 | Some n \<Rightarrow> n) + 1)\<rparr>) t"
    let ?t2 = "updateExpectingChunks p (?t1\<lparr>requestState := (requestState ?t1)(r \<mapsto> (p, now ?t1))\<rparr>)"
    obtain req where w: "writeMsg p (request_msg req) ?t2 = Some (t', ok)"
      using t'(1) sr False small by (auto simp: request_def Let_def bind_eq_Some_conv split: if_splits)
    obtain b where b: "MustMarshalBinary (request_msg req) = Some b" "length b = 17"
      using request_msg_length by blast
    note wf = writeMsg_fields [OF w b(1)]
    have r: "r \<notin> set (Iterate (Requests (peers t p)))" using False ob.contains_iff [OF ob] by simp
    have reqs: "Requests (peers t' p) = Add (Requests (peers t p)) r" by (simp add: wf upd_peer_def)
    have card: "GetCardinality (Requests (peers t' p)) = Suc (GetCardinality (Requests (peers t p)))"
      unfolding reqs using ob.cardinality_eq [OF ob] ob.cardinality_eq [OF ob.inv_add [OF ob]] ob.iterate_add [OF ob] r
      by simp
    have "ok" using assms(2) small nominalMax_le [of "peers t p"] b(2)
      by (simp add: wf(6) upd_peer_def apply_ready_def)
    moreover have "int (GetCardinality (Requests (peers t' p)) + card (Cancelled (peers t' p)))
        \<le> nominalMaxRequests (peers t0 p)"
      using assms(6) card ready_nominal [OF assms(2)] by (simp add: room_for_requests_def wf(2) upd_peer_def)
    then have "apply_ready H t0 p t'"
      using assms(2,4) t'(2) only_peer_request [OF t'(1)] b(2) card ob.iterate_add [OF ob] r
      by (auto simp: apply_ready_def only_peer_def reqs wf upd_peer_def intro: env_frame_trans)
    ultimately show ?thesis using t'(1) \<open>e = None\<close> by (simp add: mustRequest_def)
  qed
qed


text \<open>What \<^verbatim>\<open>heap.Pop\<close> promises: an element of a non-empty heap, and the rest of it.\<close>

definition heap_law :: "heap_pop \<Rightarrow> bool" where
  "heap_law pop \<longleftrightarrow> (\<forall>t h. h \<noteq> [] \<longrightarrow>
     fst (pop t h) \<in> set h \<and> set (snd (pop t h)) \<subseteq> set h \<and> length (snd (pop t h)) < length h)"

lemma steal_ready:
  assumes "apply_ready H t0 p t" "requestingPeer t r = Some q" "q \<noteq> p"
  shows "\<exists>t'. cancelRequest r t = Some (t', Some q) \<and> apply_ready H t0 p t' \<and> requestingPeer t' r = None \<and>
    peers t' p = peers t p"
proof -
  have inv: "req_inv t" using assms(1) by (simp add: apply_ready_def)
  obtain t' acked where t': "cancelRequest r t = Some (t', Some q)" "req_inv t'"
    "abs_req t' = a_cancel q r acked (abs_req t)"
    using cancelRequest_refines [OF inv, of r] assms(2) by (auto simp: abs_req_sel)
  then have "cancel q r t = Some t'" using assms(2) by (auto simp: cancelRequest_def bind_eq_Some_conv split: if_splits)
  then have o: "only_peer q t t'" by (rule only_peer_cancel)
  have "requestingPeer t' r = None" unfolding abs_req_sel(4) [symmetric] t'(3)
    by (simp add: a_cancel_def a_delete_def Let_def)
  moreover have "peers t' p = peers t p" using o assms(3) by (auto simp: only_peer_def)
  ultimately show ?thesis using t'(1,2) o assms(1)
    by (auto simp: apply_ready_def only_peer_def intro: env_frame_trans)
qed

lemma apply_loop_ready:
  assumes "heap_law pop" "req_inv t0" "\<forall>r \<in> H. shouldRequest t0 p r = Some None"
  shows "apply_ready H t0 p t \<Longrightarrow> set heap \<subseteq> H \<Longrightarrow> length heap \<le> n \<Longrightarrow>
    \<exists>t'. apply_loop pop n p heap t = Some (t', True) \<and> apply_ready H t0 p t'"
proof (induction n arbitrary: heap t)
  case 0
  then show ?case by (auto simp: apply_loop.simps)
next
  case (Suc n)
  show ?case
  proof (cases "heap = [] \<or> \<not> room_for_requests (peers t p)")
    case True
    then show ?thesis using Suc.prems by (auto simp: apply_loop.simps [of _ "Suc n"])
  next
    case False
    obtain r h where pop: "pop t heap = (r, h)" by (cases "pop t heap")
    have h: "r \<in> H" "set h \<subseteq> H" "length h \<le> n"
      using assms(1) False pop Suc.prems(2,3) by (auto simp: heap_law_def dest!: spec [of _ t] spec [of _ heap])
    have unf: "apply_loop pop (Suc n) p heap t =
       (if (case requestingPeer t r of None \<Rightarrow> False | Some q \<Rightarrow> q \<noteq> p \<and> dont_steal t p q)
        then apply_loop pop n p h t
        else do {
          (t1, _) \<leftarrow> (if requestingPeer t r \<noteq> None \<and> requestingPeer t r \<noteq> Some p then cancelRequest r t
                    else Some (t, requestingPeer t r));
          (t2, more) \<leftarrow> mustRequest p r t1;
          (if \<not> more then Some (t2, False) else apply_loop pop n p h t2)})"
      using False pop by (subst apply_loop.simps) simp
    have step: "\<exists>t'. (do { (t2, more) \<leftarrow> mustRequest p r t1;
          (if \<not> more then Some (t2, False) else apply_loop pop n p h t2) }) = Some (t', True) \<and> apply_ready H t0 p t'"
      if "apply_ready H t0 p t1" "requestingPeer t1 r = None \<or> requestingPeer t1 r = Some p"
        "peers t1 p = peers t p" for t1
      using mustRequest_ready [OF assms(2) that(1) _ h(1) that(2)] assms(3) h(1) False that(3) Suc.IH [OF _ h(2,3)]
      by fastforce
    show ?thesis
    proof (cases "requestingPeer t r")
      case None
      then show ?thesis using step [OF Suc.prems(1)] by (simp add: unf)
    next
      case (Some q)
      show ?thesis
      proof (cases "q = p")
        case True
        then show ?thesis using step [OF Suc.prems(1)] Some by (simp add: unf)
      next
        case other: False
        then obtain t1 where "cancelRequest r t = Some (t1, Some q)" "apply_ready H t0 p t1"
          "requestingPeer t1 r = None" "peers t1 p = peers t p"
          using steal_ready [OF Suc.prems(1) Some] by blast
        then show ?thesis using step [of t1] Suc.IH [OF Suc.prems(1) h(2,3)] Some other by (simp add: unf)
      qed
    qed
  qed
qed


lemma noteInterest_fields [simp]:
  "writeBuffer (peers (noteInterest p i t) q) = writeBuffer (peers t q)"
  "Cancelled (peers (noteInterest p i t) q) = Cancelled (peers t q)"
  "Requests (peers (noteInterest p i t) q) = Requests (peers t q)"
  "peakRequests (peers (noteInterest p i t) q) = peakRequests (peers t q)"
  "PeerMaxRequests (peers (noteInterest p i t) q) = PeerMaxRequests (peers t q)"
  "needRequestUpdate (peers (noteInterest p i t) q) = needRequestUpdate (peers t q)"
  "Interested (peers (noteInterest p i t) p) = i"
  by (auto simp: noteInterest_def upd_peer_def Let_def split: option.splits)

lemma same_reqs_noteInterest: "same_reqs t (noteInterest p i t)"
  by (auto simp: noteInterest_def upd_peer_def Let_def same_reqs_def split: option.splits)

lemma shouldRequest_noteInterest: "shouldRequest (noteInterest p i t) q r = shouldRequest t q r"
proof -
  let ?t = "noteInterest p i t"
  have f: "info ?t = info t" "conns ?t = conns t" "hashing ?t = hashing t"
    "piecesQueuedForHash ?t = piecesQueuedForHash t" "closed (peers ?t q) = closed (peers t q)"
    "peerChoking (peers ?t q) = peerChoking (peers t q)" "peerAllowedFast (peers ?t q) = peerAllowedFast (peers t q)"
    "peerPieces (peers ?t q) = peerPieces (peers t q)" "peerSentHaveAll (peers ?t q) = peerSentHaveAll (peers t q)"
    by (auto simp: noteInterest_def upd_peer_def Let_def split: option.splits)
  show ?thesis unfolding shouldRequest_def request_of_index_def piece_of_index_def chunksPerPiece_def Let_def
      peerHasPiece_def peerHasAllPieces_def haveInfo_def numPieces_def peerIsActive_def f noteInterest_fields
    by (rule refl)
qed

lemma shouldRequest_frame:
  assumes "env_frame t t'" "Cancelled (peers t' p) = Cancelled (peers t p)" "Requests (peers t' p) = Requests (peers t p)"
  shows "shouldRequest t' p r = shouldRequest t p r"
proof -
  note f = env_frame_fields [OF assms(1)]
  have g: "closed (peers t' p) = closed (peers t p)"
    "peerChoking (peers t' p) = peerChoking (peers t p)" "peerAllowedFast (peers t' p) = peerAllowedFast (peers t p)"
    "peerPieces (peers t' p) = peerPieces (peers t p)" "peerSentHaveAll (peers t' p) = peerSentHaveAll (peers t p)"
    using f(12) [of p] by (simp_all add: fixed_fields_def)
  show ?thesis unfolding shouldRequest_def request_of_index_def piece_of_index_def chunksPerPiece_def Let_def
      peerHasPiece_def peerHasAllPieces_def haveInfo_def numPieces_def peerIsActive_def f(1-5) g assms(2,3)
    by (rule refl)
qed

lemma setInterested_ready:
  assumes "req_inv t" "length (writeBuffer (peers t p)) \<le> writeBufferLowWaterLen"
  shows "\<exists>t'. setInterested p i t = Some (t', True) \<and> req_inv t' \<and> Interested (peers t' p) = i \<and>
    Requests (peers t' p) = Requests (peers t p) \<and> needRequestUpdate (peers t' p) = needRequestUpdate (peers t p) \<and>
    Cancelled (peers t' p) = Cancelled (peers t p) \<and> nominalMaxRequests (peers t' p) = nominalMaxRequests (peers t p) \<and>
    (\<forall>r. shouldRequest t' p r = shouldRequest t p r) \<and> length (writeBuffer (peers t' p)) \<le> writeBufferLowWaterLen + 5"
proof (cases "Interested (peers t p) = i")
  case False
  let ?t1 = "noteInterest p i t" let ?t2 = "updateExpectingChunks p ?t1"
  obtain b where b: "MustMarshalBinary (typed_message (if i then mtInterested else mtNotInterested)) = Some b" "length b = 5"
    using interested_msg_length by blast
  from b(1) obtain t' ok where w: "writeMsg p (typed_message (if i then mtInterested else mtNotInterested)) ?t2 = Some (t', ok)"
    "same_reqs ?t2 t'" by (rule writeMsg_frame)
  note wf = writeMsg_fields [OF w(1) b(1)]
  have "ok" using assms(2) b(2) by (simp add: wf(6))
  moreover have o: "only_peer p ?t1 t'"
    by (rule only_peer_trans [OF only_peer_updateExpectingChunks only_peer_writeMsg [OF w(1)]])
  then have e: "env_frame ?t1 t'" by (simp add: only_peer_def)
  have "shouldRequest t' p r = shouldRequest t p r" for r
    using shouldRequest_frame [OF e] wf shouldRequest_noteInterest by simp
  moreover have "req_inv t'"
    using assms(1) same_reqs_inv same_reqs_noteInterest same_reqs_updateExpectingChunks w(2) by blast
  moreover have "Interested (peers t' p) = i" "PeerMaxRequests (peers t' p) = PeerMaxRequests (peers t p)"
    using env_frame_fields(12) [OF e, of p] by (simp_all add: fixed_fields_def)
  ultimately show ?thesis using w(1) wf b(2) assms(2) False
    by (simp add: setInterested_def writeInterested_def nominalMaxRequests_def)
qed (use assms in \<open>auto simp: setInterested_def\<close>)


lemma sample_req_inv: "req_inv sample_torrent"
  by (simp add: req_inv_def conc_inv_def v_inv_def abs_req_def ob.inv_empty ob.iterate_empty)

lemma sample_geom_requests:
  "request_of_index sample_torrent 0 = Some (newRequest 0 0 4)" "piece_of_index sample_torrent 0 = Some 0"
  "index_of_request sample_torrent (newRequest 0 0 4) = 0"
  "checkValidReceiveChunk (Some sample_geom) (newRequest 0 0 4) = None"
  by code_simp+

lemma sample_shouldRequest: "shouldRequest sample_torrent 0 0 = Some None"
  by (simp add: shouldRequest_def sample_geom_requests Let_def)
     (simp add: peerHasPiece_def peerHasAllPieces_def peerIsActive_def sample_torrent_def sample_peer_def)

lemma applyRequestState_ready:
  assumes "heap_law pop" "req_inv t" "length (writeBuffer (peers t p)) \<le> writeBufferLowWaterLen"
    "IsEmpty (Requests (peers t p)) \<or> needRequestUpdate (peers t p) = peerUpdateRequestsTimerReason"
    "\<forall>r \<in> set (dRequests next). shouldRequest t p r = Some None"
  shows "\<exists>t'. applyRequestState pop p next t = Some t' \<and> req_inv t' \<and>
    Interested (peers t' p) = dInterested next \<and> needRequestUpdate (peers t' p) = [] \<and>
    set (Iterate (Requests (peers t p))) \<subseteq> set (Iterate (Requests (peers t' p))) \<and>
    set (Iterate (Requests (peers t' p))) \<subseteq> set (Iterate (Requests (peers t p))) \<union> set (dRequests next) \<and>
    int (GetCardinality (Requests (peers t' p)) + card (Cancelled (peers t' p))) \<le>
      max (nominalMaxRequests (peers t p)) (int (GetCardinality (Requests (peers t p)) + card (Cancelled (peers t p)))) \<and>
    length (writeBuffer (peers t' p)) \<le> 16389 + 17 * GetCardinality (Requests (peers t' p))"
proof -
  obtain t1 where t1: "setInterested p (dInterested next) t = Some (t1, True)" "req_inv t1"
    "Interested (peers t1 p) = dInterested next" "length (writeBuffer (peers t1 p)) \<le> writeBufferLowWaterLen + 5"
    and same: "Requests (peers t1 p) = Requests (peers t p)" "needRequestUpdate (peers t1 p) = needRequestUpdate (peers t p)"
      "Cancelled (peers t1 p) = Cancelled (peers t p)" "nominalMaxRequests (peers t1 p) = nominalMaxRequests (peers t p)"
    and sr: "\<forall>r. shouldRequest t1 p r = shouldRequest t p r"
    using setInterested_ready [OF assms(2,3), of "dInterested next"] by blast
  let ?H = "set (dRequests next)"
  have ready: "apply_ready ?H t1 p t1" using t1(2,4) by (auto simp: apply_ready_def)
  obtain t2 where t2: "apply_loop pop (length (dRequests next)) p (dRequests next) t1 = Some (t2, True)"
    "apply_ready ?H t1 p t2"
    using apply_loop_ready [OF assms(1) t1(2) _ ready subset_refl le_refl] assms(5) sr by auto
  let ?t3 = "upd_peer p (\<lambda>cn. cn\<lparr>
     peakRequests := int (GetCardinality (Requests cn)) - int (GetCardinality (Requests (peers t1 p))),
     needRequestUpdate := [], lastRequestUpdate := Some (now t2)\<rparr>) t2"
  have "GetCardinality (Requests (peers t1 p)) = 0 \<or> needRequestUpdate (peers t1 p) = peerUpdateRequestsTimerReason"
    using assms(4) empty_cardinality [OF assms(2)] same by auto
  then have "applyRequestState pop p next t = Some ?t3"
    using t1(1) t2(1) by (auto simp: applyRequestState_def Let_def)
  moreover have "same_reqs t2 ?t3" by (intro frame_intros) simp_all
  then have "req_inv ?t3" using t2(2) by (simp add: same_reqs_inv apply_ready_def)
  moreover have "Interested (peers t2 p) = dInterested next"
    using t2(2) env_frame_fields(12) [of t1 t2 p] t1(3) by (simp add: apply_ready_def fixed_fields_def)
  ultimately show ?thesis using t2(2) same by (intro exI [of _ ?t3]) (auto simp: apply_ready_def upd_peer_def)
qed

text \<open>
  C13. Applying a desired request state never panics.  Take a state in which the request bookkeeping is
  consistent and the write buffer of the peer is at most at its low water mark, a peer with nothing outstanding or whose
  update timer fired, and desired requests that each pass the checks of \<open>shouldRequest\<close>.  Then neither
  the assertions of \<open>mustRequest\<close> and \<open>cancel\<close> nor the two about the write buffer fail, the
  interest is as desired, every new request is a desired one, the bookkeeping is again consistent,
  the number of requests stays within the nominal maximum, and the buffer stays below its high
  water mark.
\<close>

theorem applyRequestState_no_panic:
  assumes "heap_law pop" "req_inv t" "length (writeBuffer (peers t p)) \<le> writeBufferLowWaterLen"
    "IsEmpty (Requests (peers t p)) \<or> needRequestUpdate (peers t p) = peerUpdateRequestsTimerReason"
    "\<forall>r \<in> set (dRequests next). shouldRequest t p r = Some None"
  shows "\<exists>t'. applyRequestState pop p next t = Some t' \<and> req_inv t' \<and>
    Interested (peers t' p) = dInterested next \<and> needRequestUpdate (peers t' p) = [] \<and>
    set (Iterate (Requests (peers t p))) \<subseteq> set (Iterate (Requests (peers t' p))) \<and>
    set (Iterate (Requests (peers t' p))) \<subseteq> set (Iterate (Requests (peers t p))) \<union> set (dRequests next) \<and>
    int (GetCardinality (Requests (peers t' p)) + card (Cancelled (peers t' p))) \<le>
      max (nominalMaxRequests (peers t p)) (int (GetCardinality (Requests (peers t p)) + card (Cancelled (peers t p)))) \<and>
    length (writeBuffer (peers t' p)) \<le> 16389 + 17 * GetCardinality (Requests (peers t' p))"
  by (rule applyRequestState_ready [OF assms])

theorem applyRequestState_no_panic_witness:
  "\<exists>t'. applyRequestState (\<lambda>_ h. (hd h, tl h)) 0 \<lparr>dRequests = [0], dInterested = True\<rparr> sample_torrent = Some t' \<and>
    req_inv t' \<and> Interested (peers t' 0) = True"
  using applyRequestState_no_panic [of "\<lambda>_ h. (hd h, tl h)" sample_torrent 0 "\<lparr>dRequests = [0], dInterested = True\<rparr>",
      OF _ sample_req_inv] sample_shouldRequest ob.isEmpty_iff [OF ob.inv_empty] ob.iterate_empty
  by (force simp: heap_law_def sample_peer_def dest: list.set_sel(2))


text \<open>
  C37. A write buffer that is nearly full makes \<open>applyRequestState\<close> panic.  If there is less room than one
  request message below the high water mark, one new request that is otherwise in order ends in the
  panic ``insufficient write buffer''.  The check in \<^verbatim>\<open>fillWriteBuffer\<close> meant to prevent this has an
  empty body.
\<close>

theorem applyRequestState_full_buffer:
  assumes "req_inv t" "Interested (peers t p) = i" "shouldRequest t p r = Some None" "requestingPeer t r = None"
    "IsEmpty (Requests (peers t p))" "room_for_requests (peers t p)" "pop t [r] = (r, [])"
    "length (writeBuffer (peers t p)) + 17 \<ge> writeBufferHighWaterLen"
  shows "applyRequestState pop p \<lparr>dRequests = [r], dInterested = i\<rparr> t = None"
proof -
  let ?t1 = "upd_peer p (\<lambda>cn. cn\<lparr>Requests := Add (Requests cn) r,
      validReceiveChunks := (validReceiveChunks cn)(r \<mapsto>
        (case validReceiveChunks cn r of None \<Rightarrow> 0 | Some n \<Rightarrow> n) + 1)\<rparr>) t"
  let ?t2 = "updateExpectingChunks p (?t1\<lparr>requestState := (requestState ?t1)(r \<mapsto> (p, now ?t1))\<rparr>)"
  obtain req where req: "request_of_index t r = Some req"
    using assms(3) by (auto simp: shouldRequest_def split: option.splits)
  have "same_reqs (?t1\<lparr>requestState := (requestState ?t1)(r \<mapsto> (p, now ?t1))\<rparr>) ?t2" by (rule frame_intros)
  then have req2: "request_of_index ?t2 r = Some req" using req by (simp add: request_of_index_def same_reqs_def upd_peer_def)
  obtain b where b: "MustMarshalBinary (request_msg req) = Some b" "length b = 17" using request_msg_length by blast
  then obtain t' ok where w: "writeMsg p (request_msg req) ?t2 = Some (t', ok)" using writeMsg_frame by blast
  have "\<not> ok" using assms(8) b(2) by (simp add: writeMsg_fields(6) [OF w b(1)] upd_peer_def)
  moreover have "\<not> Contains (Requests (peers t p)) r" "GetCardinality (Requests (peers t p)) = 0"
    using assms(1,5) empty_cardinality owner_out [OF assms(1), of r p] ob.isEmpty_iff [OF conc_invD(1)]
    by (auto simp: contains_out [OF assms(1)] req_inv_def)
  moreover have "int (GetCardinality (Requests (peers t p))) < nominalMaxRequests (peers t p)"
    using assms(6) by (simp add: room_for_requests_def)
  ultimately have "mustRequest p r t = Some (t', False)"
    using assms(3) w req2 by (simp add: mustRequest_def request_def Let_def)
  then have "apply_loop pop 1 p [r] t = Some (t', False)"
    using assms(4,6,7) by (subst apply_loop.simps) simp
  then show ?thesis using assms(2) \<open>GetCardinality _ = 0\<close> by (simp add: applyRequestState_def setInterested_def Let_def)
qed

definition sample_full :: torrent_state where
  "sample_full = upd_peer 0 (\<lambda>cn. cn\<lparr>writeBuffer := replicate 32751 0\<rparr>) sample_torrent"

theorem applyRequestState_full_buffer_witness:
  "applyRequestState (\<lambda>_ h. (hd h, tl h)) 0 \<lparr>dRequests = [0], dInterested = False\<rparr> sample_full = None"
proof (rule applyRequestState_full_buffer)
  have s: "same_reqs sample_torrent sample_full" unfolding sample_full_def by (intro frame_intros) simp_all
  show "req_inv sample_full" using same_reqs_inv [OF s] sample_req_inv by simp
  have "only_peer 0 sample_torrent sample_full" unfolding sample_full_def by (intro peer_intros) (simp add: fixed_fields_def)
  then have "env_frame sample_torrent sample_full" by (simp add: only_peer_def)
  from shouldRequest_frame [OF this] show "shouldRequest sample_full 0 0 = Some None"
    using sample_shouldRequest s by (simp add: same_reqs_def)
  show "room_for_requests (peers sample_full 0)"
    using empty_cardinality [OF sample_req_inv, of 0] ob.isEmpty_iff [OF ob.inv_empty [where 'a = u32]] ob.iterate_empty
    by (simp add: room_for_requests_def sample_full_def upd_peer_def nominalMaxRequests_def sample_peer_def maxInt_def minInt_def)
qed (use ob.isEmpty_iff [OF ob.inv_empty] ob.iterate_empty in
  \<open>auto simp: sample_full_def upd_peer_def sample_peer_def sample_torrent_def requestingPeer_def\<close>)


section \<open>Any sequence of operations\<close>

lemma cancelRequests_refines:
  assumes "req_inv t" "distinct xs" "set xs \<subseteq> set (vout (abs_req t) p)"
  shows "\<exists>t'. cancelRequests p xs t = Some t' \<and> req_inv t' \<and> info t' = info t \<and>
    set (vout (abs_req t') p) = set (vout (abs_req t) p) - set xs \<and>
    (\<forall>q. q \<noteq> p \<longrightarrow> vout (abs_req t') q = vout (abs_req t) q)"
  using assms
proof (induction xs arbitrary: t)
  case (Cons x xs)
  obtain t1 acked where t1: "cancel p x t = Some t1" "req_inv t1" "info t1 = info t"
    "abs_req t1 = a_cancel p x acked (abs_req t)" using cancel_refines [OF Cons.prems(1), of x p] Cons.prems(3) by auto
  have "distinct (vout (abs_req t) p)" using Cons.prems(1) v_invD(1) by (auto simp: req_inv_def)
  then have out: "set (vout (abs_req t1) p) = set (vout (abs_req t) p) - {x}"
    "q \<noteq> p \<Longrightarrow> vout (abs_req t1) q = vout (abs_req t) q" for q
    by (auto simp: t1(4) a_cancel_def Let_def a_delete_simps set_remove1_eq)
  then have "set xs \<subseteq> set (vout (abs_req t1) p)" using Cons.prems(2,3) by auto
  then obtain t2 where "cancelRequests p xs t1 = Some t2" "req_inv t2" "info t2 = info t1"
    "set (vout (abs_req t2) p) = set (vout (abs_req t1) p) - set xs"
    "\<forall>q. q \<noteq> p \<longrightarrow> vout (abs_req t2) q = vout (abs_req t1) q"
    using Cons.IH [OF t1(2)] Cons.prems(2) by auto
  then show ?case using t1(1,3) out by auto
qed simp

lemma cancelAll_refines:
  assumes "req_inv t"
  shows "\<exists>t'. cancelAllRequests p t = Some t' \<and> req_inv t' \<and> info t' = info t \<and>
    vout (abs_req t') = (vout (abs_req t))(p := [])"
proof -
  have ob: "ob_inv (Requests (peers t p))" using assms conc_invD(1) by (auto simp: req_inv_def)
  let ?xs = "IterateSnapshot (Requests (peers t p))"
  have xs: "set ?xs = set (vout (abs_req t) p)" "distinct ?xs"
    using ob.set_snapshot [OF ob] ob.snapshot_eq [OF ob] ob.iterate_distinct [OF ob] by (auto simp: abs_req_sel)
  obtain t1 where t1: "cancelRequests p ?xs t = Some t1" "req_inv t1" "info t1 = info t"
    "set (vout (abs_req t1) p) = set (vout (abs_req t) p) - set ?xs"
    "\<forall>q. q \<noteq> p \<longrightarrow> vout (abs_req t1) q = vout (abs_req t) q"
    using cancelRequests_refines [OF assms xs(2), of p] xs(1) by auto
  have "vout (abs_req t1) p = []" using t1(4) xs(1) by simp
  moreover have "ob_inv (Requests (peers t1 p))" using t1(2) conc_invD(1) by (auto simp: req_inv_def)
  ultimately show ?thesis using t1 ob.isEmpty_iff by (auto simp: cancelAllRequests_def abs_req_sel fun_eq_iff)
qed

text \<open>
  The operations as the callers use them: a request is made after \<open>shouldRequest\<close> passed and, if
  another peer had it, was cancelled there; a chunk comes in a piece message.
\<close>

datatype req_op =
    OpRequest peer_id u32
  | OpCancel u32
  | OpCancelAll peer_id
  | OpReject peer_id u32
  | OpDeleteAll peer_id string
  | OpPiece peer_id message

fun req_exec :: "req_op \<Rightarrow> torrent_state \<Rightarrow> torrent_state option" where
  "req_exec (OpRequest p r) t = map_option fst (request p r t)"
| "req_exec (OpCancel r) t = map_option fst (cancelRequest r t)"
| "req_exec (OpCancelAll p) t = cancelAllRequests p t"
| "req_exec (OpReject p r) t = map_option fst (remoteRejectedRequest p r t)"
| "req_exec (OpDeleteAll p reason) t = deleteAllRequests p reason t"
| "req_exec (OpPiece p msg) t = map_option fst (receiveChunk_locked p msg t)"

fun req_guard :: "req_op \<Rightarrow> torrent_state \<Rightarrow> bool" where
  "req_guard (OpRequest p r) t \<longleftrightarrow> shouldRequest t p r = Some None \<and>
     (requestingPeer t r = None \<or> requestingPeer t r = Some p)"
| "req_guard (OpPiece p msg) t \<longleftrightarrow> MType msg = mtPiece"
| "req_guard _ _ \<longleftrightarrow> True"

inductive req_reachable :: "torrent_state \<Rightarrow> torrent_state \<Rightarrow> bool" where
  start: "req_reachable t t"
| op: "req_reachable t t' \<Longrightarrow> req_guard op t' \<Longrightarrow> req_exec op t' = Some t'' \<Longrightarrow> req_reachable t t''"

lemma req_exec_safe:
  assumes "req_inv t" "req_guard op t"
  shows "\<exists>t'. req_exec op t = Some t' \<and> req_inv t'"
proof (cases op)
  case (OpRequest p r)
  then show ?thesis using request_refines [OF assms(1), of p r] assms(2) by auto
next
  case (OpCancel r)
  then show ?thesis using cancelRequest_refines [OF assms(1), of r] by auto
next
  case (OpCancelAll p)
  then show ?thesis using cancelAll_refines [OF assms(1), of p] by auto
next
  case (OpReject p r)
  then show ?thesis using remoteRejected_refines [OF assms(1) refl, of p r] by auto
next
  case (OpDeleteAll p reason)
  then show ?thesis using deleteAllRequests_refines [OF assms(1), of p reason] by auto
next
  case (OpPiece p msg)
  then show ?thesis using receiveChunk_refines [OF assms(1), of msg _ p] assms(2)
    by (auto simp: newRequestFromMessage_def)
qed

definition no_requests :: "torrent_state \<Rightarrow> bool" where
  "no_requests t \<longleftrightarrow> requestState t = Map.empty \<and>
     (\<forall>p. Requests (peers t p) = ob_empty \<and> Cancelled (peers t p) = {} \<and> validReceiveChunks (peers t p) = Map.empty)"

lemma no_requests_inv: "no_requests t \<Longrightarrow> req_inv t"
  by (simp add: no_requests_def req_inv_def conc_inv_def v_inv_def abs_req_def ob.inv_empty ob.iterate_empty)

lemma req_reachable_inv: "req_reachable t t' \<Longrightarrow> req_inv t \<Longrightarrow> req_inv t'"
  by (induction rule: req_reachable.induct) (use req_exec_safe in fastforce)+

text \<open>
  C2. The request bookkeeping is consistent for ever.  Start with nothing requested and let any peers,
  in any order, request, cancel, cancel all, be rejected, lose all requests, or send chunks, asked for
  or not.  Then no panic of these methods is reachable; a request index is outstanding with at most one
  peer, the one \<open>requestState\<close> names; a peer's outstanding and cancelled requests are disjoint, and
  for each of them the peer is still allowed to send a chunk.
\<close>

theorem requests_consistent:
  assumes "no_requests t0" "req_reachable t0 t" "req_guard op t"
  shows "\<exists>t'. req_exec op t = Some t' \<and> 
    (\<forall>p r. Contains (Requests (peers t' p)) r \<longleftrightarrow> requestingPeer t' r = Some p) \<and>
    (\<forall>p r. Contains (Requests (peers t' p)) r \<longrightarrow> r \<notin> Cancelled (peers t' p)) \<and>
    (\<forall>p r. Contains (Requests (peers t' p)) r \<or> r \<in> Cancelled (peers t' p) \<longrightarrow>
      (\<exists>n \<ge> 1. validReceiveChunks (peers t' p) r = Some n))"
proof -
  have "req_inv t" using req_reachable_inv assms(1,2) no_requests_inv by blast
  then obtain t' where t': "req_exec op t = Some t'" "req_inv t'" using req_exec_safe assms(3) by blast
  then have v: "v_inv (abs_req t')" by (simp add: req_inv_def)
  have "\<forall>p r. Contains (Requests (peers t' p)) r \<longleftrightarrow> requestingPeer t' r = Some p"
    using v_invD(2) [OF v] by (simp add: contains_out [OF t'(2)] abs_req_sel)
  moreover have "\<forall>p r. Contains (Requests (peers t' p)) r \<longrightarrow> r \<notin> Cancelled (peers t' p)"
    using v_invD(3) [OF v] by (auto simp: contains_out [OF t'(2)] abs_req_sel)
  moreover have "\<exists>n \<ge> 1. validReceiveChunks (peers t' p) r = Some n"
    if "Contains (Requests (peers t' p)) r \<or> r \<in> Cancelled (peers t' p)" for p r
    using that v_invD(4,5) [OF v, of r p] by (auto simp: contains_out [OF t'(2)] abs_req_sel)
  ultimately show ?thesis using t'(1) by blast
qed

theorem requests_consistent_witness:
  "\<exists>t'. req_exec (OpRequest 0 0) sample_torrent = Some t' \<and>
    (\<forall>p r. Contains (Requests (peers t' p)) r \<longleftrightarrow> requestingPeer t' r = Some p)"
  using requests_consistent [of sample_torrent sample_torrent "OpRequest 0 0", OF _ req_reachable.start]
    sample_shouldRequest by (auto simp: no_requests_def requestingPeer_def)


section \<open>What receiving a chunk achieves\<close>

lemma env_frame_chunks:
  assumes "env_frame t t'"
  shows "dirtyChunks t' = dirtyChunks t" "pendingWrites t' = pendingWrites t" "tchunkSize t' = tchunkSize t"
    "haveChunk t' r = haveChunk t r" "index_of_request t' r = index_of_request t r"
  using assms unfolding env_frame_def
  by (auto simp: haveChunk_def haveInfo_def pieceComplete_def index_of_request_def chunksPerPiece_def)

lemma only_peer_decExpected: "decExpectedChunkReceive p r t = Some t' \<Longrightarrow> only_peer p t t'"
  by (auto simp: decExpectedChunkReceive_def Let_def fixed_fields_def split: if_splits intro!: peer_intros)

lemma only_peer_satisfy:
  assumes "satisfy_request p r t = Some (t', intended)"
  shows "only_peer p t t'"
proof -
  obtain t1 removed where t1: "deleteRequest p r t = Some (t1, removed)"
    using assms by (auto simp: satisfy_request_def bind_eq_Some_conv)
  let ?t2 = "if removed then t1 else upd_peer p (\<lambda>cn. cn\<lparr>Cancelled := Cancelled cn - {r}\<rparr>) t1"
  let ?t3 = "if \<not> peerChoking (peers ?t2 p)
    then upd_peer p (\<lambda>cn. cn\<lparr>chunksReceivedWhileExpecting := chunksReceivedWhileExpecting cn + 1\<rparr>) ?t2 else ?t2"
  have 1: "only_peer p t t1" using t1 by (rule only_peer_deleteRequest)
  have 2: "only_peer p t1 ?t2" by (auto simp: fixed_fields_def intro!: peer_intros)
  have 3: "only_peer p ?t2 ?t3" by (auto simp: fixed_fields_def intro!: peer_intros)
  have "t' = t1 \<or> t' = update_if_low ''Peer.receiveChunk deleted request'' p ?t3"
    using assms t1 by (auto simp: satisfy_request_def Let_def split: if_splits)
  then show ?thesis
    using 1 only_peer_trans [OF only_peer_trans [OF only_peer_trans [OF 1 2] 3] only_peer_update_if_low] by auto
qed

lemma cancel_clears: 
  assumes "cancel q r t = Some t'"
  shows "requestState t' r = None"
proof -
  obtain t1 t2 acked where "deleteRequest q r t = Some (t1, True)" and t2: "cancel_msg q r t1 = Some (t2, acked)"
    and t': "t' = update_if_low ''Peer.cancel'' q (decPeakRequests q
      (if acked then upd_peer q (\<lambda>cn. cn\<lparr>Cancelled := insert r (Cancelled cn)\<rparr>) t2 else t2))"
    using assms by (auto simp: cancel_def bind_eq_Some_conv Let_def split: if_splits)
  then have "requestState t1 r = None" by (auto simp: deleteRequest_def bind_eq_Some_conv Let_def split: if_splits)
  moreover have "requestState t2 = requestState t1"
    using t2 by (auto simp: cancel_msg_def writeMsg_def bind_eq_Some_conv Let_def upd_peer_def)
  ultimately show ?thesis
    by (simp add: t' update_if_low_def updateRequests_def decPeakRequests_def upd_peer_def)
qed

definition chunk_outcome :: "peer_id \<Rightarrow> torrent_state \<Rightarrow> torrent_state \<Rightarrow> request_spec \<Rightarrow> receive_outcome \<Rightarrow> bool" where
  "chunk_outcome p t t' req outcome =
     (case outcome of
        RcvInvalid e \<Rightarrow> t' = t \<and> checkValidReceiveChunk (info t) req = Some e
      | RcvUnexpected \<Rightarrow> t' = t \<and> (case validReceiveChunks (peers t p) (index_of_request t req) of
          None \<Rightarrow> True | Some n \<Rightarrow> n \<le> 0)
      | RcvRedundant \<Rightarrow> haveChunk t req \<and> dirtyChunks t' = dirtyChunks t \<and> pendingWrites t' = pendingWrites t
      | RcvWrite req' \<Rightarrow> req' = req \<and> \<not> haveChunk t req \<and> haveChunk t' req \<and>
          dirtyChunks t' = insert (index_of_request t req) (dirtyChunks t) \<and>
          pendingWrites t' = (pendingWrites t)(unat (RIndex req) := pendingWrites t (unat (RIndex req)) + 1) \<and>
          requestingPeer t' (index_of_request t req) = None)"

lemma receiveChunk_locked_outcome:
  assumes "receiveChunk_locked p msg t = Some (t', outcome)" "newRequestFromMessage msg = Some req"
  shows "chunk_outcome p t t' req outcome"
proof (cases "checkValidReceiveChunk (info t) req = None \<and>
    (case validReceiveChunks (peers t p) (index_of_request t req) of None \<Rightarrow> 0 | Some n \<Rightarrow> n) > 0")
  case False
  then show ?thesis using assms
    by (cases "checkValidReceiveChunk (info t) req"; cases "validReceiveChunks (peers t p) (index_of_request t req)")
       (auto simp: receiveChunk_locked_def Let_def chunk_outcome_def)
next
  case True
  let ?r = "index_of_request t req"
  obtain t1 t2 intended where t1: "decExpectedChunkReceive p ?r t = Some t1"
    and t2: "satisfy_request p ?r t1 = Some (t2, intended)"
    and rest: "(if haveChunk t2 req then Some (t2, RcvRedundant)
       else do {
         let t = upd_peer p (\<lambda>cn. cn\<lparr>
             piecesReceivedSinceLastRequestUpdate :=
               piecesReceivedSinceLastRequestUpdate cn + (if intended then 1 else 0),
             lastUsefulChunkReceived := Some (now t2)\<rparr>) t2;
         let t = incrementPendingWrites (unat (RIndex req)) t;
         let t = unpendChunk ?r t;
         t \<leftarrow> (case requestingPeer t ?r of
             None \<Rightarrow> Some t
           | Some q \<Rightarrow> if q = p then None else cancel q ?r t);
         Some (t, RcvWrite req)
       }) = Some (t', outcome)"
    using assms True by (auto simp: receiveChunk_locked_def Let_def bind_eq_Some_conv)
  have e: "env_frame t t2"
    using only_peer_trans [OF only_peer_decExpected [OF t1] only_peer_satisfy [OF t2]] by (simp add: only_peer_def)
  note ec = env_frame_chunks [OF e] and ef = env_frame_fields [OF e]
  show ?thesis
  proof (cases "haveChunk t2 req")
    case True
    then show ?thesis using rest ec by (auto simp: chunk_outcome_def)
  next
    case False
    define t5 where "t5 = unpendChunk ?r (incrementPendingWrites (unat (RIndex req)) (upd_peer p (\<lambda>cn. cn\<lparr>
             piecesReceivedSinceLastRequestUpdate :=
               piecesReceivedSinceLastRequestUpdate cn + (if intended then 1 else 0),
             lastUsefulChunkReceived := Some (now t2)\<rparr>) t2))"
    have out: "outcome = RcvWrite req" and t': "requestingPeer t5 ?r = None \<and> t' = t5 \<or> (\<exists>q. cancel q ?r t5 = Some t')"
      using rest False
      by (auto simp: t5_def Let_def bind_eq_Some_conv split: option.splits if_splits)
    have "requestingPeer t' ?r = None" using t' cancel_clears by (auto simp: requestingPeer_def)
    moreover have e5: "env_frame t5 t'" using t' only_peer_cancel by (auto simp: only_peer_def)
    moreover have "dirtyChunks t5 = insert ?r (dirtyChunks t)"
      "pendingWrites t5 = (pendingWrites t)(unat (RIndex req) := pendingWrites t (unat (RIndex req)) + 1)"
      by (simp_all add: t5_def unpendChunk_def incrementPendingWrites_def upd_peer_def ec)
    moreover have "haveInfo t5" "index_of_request t5 req = ?r"
      using True ec(5) ef(1)
      by (auto simp: t5_def haveInfo_def checkValidReceiveChunk_def unpendChunk_def incrementPendingWrites_def
          upd_peer_def index_of_request_def chunksPerPiece_def split: option.splits if_splits)
    then have "haveChunk t5 req"
      by (simp add: haveChunk_def) (simp add: t5_def unpendChunk_def)
    ultimately show ?thesis using False ec(4) env_frame_chunks [OF e5] by (simp add: chunk_outcome_def out)
  qed
qed



end
