(* ===== verification/Availability.thy ===== *)
theory Availability
  imports Requests
begin

text \<open>
  Which pieces the swarm has (\<^verbatim>\<open>torrent.go\<close>, \<^verbatim>\<open>peerconn.go\<close>).  The torrent counts for every piece the
  peers that announced it, apart from the peers known to have everything, which are in a set of
  their own; the counters are adjusted as peers announce pieces and leave.  A counter that would
  become negative, or is not zero when the last peer is gone, is a panic.  The cache of the order
  in which pieces are requested, which these methods also refresh, is not part of this state.
\<close>

section \<open>Counters\<close>

definition decPieceAvailability :: "nat \<Rightarrow> torrent_state \<Rightarrow> torrent_state option" where
  "decPieceAvailability i t =
     (if \<not> haveInfo t then Some t
      else if i \<ge> length (relativeAvailability t) then None
      else if relativeAvailability t ! i \<le> 0 then None
      else Some (t\<lparr>relativeAvailability := (relativeAvailability t)[i := relativeAvailability t ! i - 1]\<rparr>))"

definition incPieceAvailability :: "nat \<Rightarrow> torrent_state \<Rightarrow> torrent_state option" where
  "incPieceAvailability i t =
     (if haveInfo t then
        if i \<ge> length (relativeAvailability t) then None
        else Some (t\<lparr>relativeAvailability := (relativeAvailability t)[i := relativeAvailability t ! i + 1]\<rparr>)
      else Some t)"

definition availability :: "torrent_state \<Rightarrow> nat \<Rightarrow> int" where
  "availability t i = int (card (connsWithAllPieces t)) + relativeAvailability t ! i"

definition selectivePieceAvailabilityFromPeers :: "torrent_state \<Rightarrow> nat \<Rightarrow> int" where
  "selectivePieceAvailabilityFromPeers t i =
     int (length (filter (\<lambda>p. p \<notin> connsWithAllPieces t \<and> peerHasPiece t p i) (conns t)))"

definition addConnWithAllPieces :: "peer_id \<Rightarrow> torrent_state \<Rightarrow> torrent_state" where
  "addConnWithAllPieces p t = t\<lparr>connsWithAllPieces := insert p (connsWithAllPieces t)\<rparr>"

definition deleteConnWithAllPieces :: "peer_id \<Rightarrow> torrent_state \<Rightarrow> torrent_state \<times> bool" where
  "deleteConnWithAllPieces p t =
     (t\<lparr>connsWithAllPieces := connsWithAllPieces t - {p}\<rparr>, p \<in> connsWithAllPieces t)"

fun decPieces :: "nat list \<Rightarrow> torrent_state \<Rightarrow> torrent_state option" where
  "decPieces [] t = Some t"
| "decPieces (i # is) t = do { t \<leftarrow> decPieceAvailability i t; decPieces is t }"

definition decPeerPieceAvailability :: "peer_id \<Rightarrow> torrent_state \<Rightarrow> torrent_state option" where
  "decPeerPieceAvailability p t =
     (let (t, was) = deleteConnWithAllPieces p t in
      if was then Some t
      else if \<not> haveInfo t then Some t
      else decPieces (bitmap_iter (peerPieces (peers t p))) t)"

section \<open>Closing and dropping connections\<close>

text \<open>\<^verbatim>\<open>Peer.close\<close>; closing the socket and waking the writer is outside this state.\<close>

definition closePeer :: "peer_id \<Rightarrow> torrent_state \<Rightarrow> torrent_state option" where
  "closePeer p t =
     (if closed (peers t p) then Some t
      else decPeerPieceAvailability p (upd_peer p (\<lambda>cn. cn\<lparr>closed := True\<rparr>) t))"

definition deletePeerConn :: "peer_id \<Rightarrow> torrent_state \<Rightarrow> (torrent_state \<times> bool) option" where
  "deletePeerConn p t =
     (if \<not> closed (peers t p) then None
      else do {
        let ret = (p \<in> set (conns t));
        let t = t\<lparr>conns := removeAll p (conns t)\<rparr>;
        t \<leftarrow> deleteAllRequests p ''Torrent.deletePeerConn'' t;
        (if conns t = [] \<and> connsWithAllPieces t \<noteq> {} then None else Some (t, ret))
      })"

text \<open>\<^verbatim>\<open>openNewConns\<close>, called when a connection went away, starts dialling and does not touch this state.\<close>

definition dropConnection :: "peer_id \<Rightarrow> torrent_state \<Rightarrow> torrent_state option" where
  "dropConnection p t = do {
     t \<leftarrow> closePeer p t;
     (t, _) \<leftarrow> deletePeerConn p t;
     Some t
   }"

definition maybeDropMutuallyCompletePeer :: "peer_id \<Rightarrow> torrent_state \<Rightarrow> torrent_state option" where
  "maybeDropMutuallyCompletePeer p t =
     (if \<not> DropMutuallyCompletePeers (config t) then Some t
      else if \<not> haveAllPieces t then Some t
      else if peerHasAllPieces t p \<noteq> (True, True) then Some t
      else if useful t p then Some t
      else dropConnection p t)"

definition peerPiecesChanged :: "peer_id \<Rightarrow> torrent_state \<Rightarrow> torrent_state option" where
  "peerPiecesChanged p t = maybeDropMutuallyCompletePeer p t"

fun closePeers :: "peer_id list \<Rightarrow> torrent_state \<Rightarrow> torrent_state option" where
  "closePeers [] t = Some t"
| "closePeers (p # ps) t = do { t \<leftarrow> closePeer p t; closePeers ps t }"

definition allPiecesRelativeAvailabilityZero :: "torrent_state \<Rightarrow> bool" where
  "allPiecesRelativeAvailabilityZero t \<longleftrightarrow> (\<forall>a \<in> set (relativeAvailability t). a = 0)"

text \<open>\<^verbatim>\<open>Torrent.close\<close>: the flag is false for \<^emph>\<open>already closed\<close>; \<open>None\<close> is the panic of the assertion.\<close>

definition closeTorrent :: "torrent_state \<Rightarrow> (torrent_state \<times> bool) option" where
  "closeTorrent t =
     (if tclosed t then Some (t, False)
      else do {
        let t = t\<lparr>tclosed := True\<rparr>;
        t \<leftarrow> closePeers (conns t) t;
        (if \<not> allPiecesRelativeAvailabilityZero t then None else Some (t, True))
      })"

section \<open>What peers announce\<close>

definition raisePeerMinPieces :: "peer_id \<Rightarrow> int \<Rightarrow> torrent_state \<Rightarrow> torrent_state" where
  "raisePeerMinPieces p newMin t =
     (if newMin > peerMinPieces (peers t p) then upd_peer p (\<lambda>cn. cn\<lparr>peerMinPieces := newMin\<rparr>) t else t)"

datatype have_error = InvalidPiece

definition peerSentHave :: "peer_id \<Rightarrow> nat \<Rightarrow> torrent_state \<Rightarrow> (torrent_state \<times> have_error option) option" where
  "peerSentHave p piece t =
     (if haveInfo t \<and> piece \<ge> numPieces t then Some (t, Some InvalidPiece)
      else if peerHasPiece t p piece then Some (t, None)
      else do {
        let t = raisePeerMinPieces p (int piece + 1) t;
        t \<leftarrow> (if \<not> peerHasPiece t p piece then incPieceAvailability piece t else Some t);
        let t = upd_peer p (\<lambda>cn. cn\<lparr>peerPieces := insert piece (peerPieces cn)\<rparr>) t;
        let t = (if wantPieceIndex t piece then updateRequests p ''have'' t else t);
        t \<leftarrow> peerPiecesChanged p t;
        Some (t, None)
      })"

definition onPeerHasAllPieces :: "peer_id \<Rightarrow> torrent_state \<Rightarrow> torrent_state option" where
  "onPeerHasAllPieces p t = do {
     t \<leftarrow> (if haveInfo t then decPieces (bitmap_iter (peerPieces (peers t p))) t else Some t);
     let t = addConnWithAllPieces p t;
     let t = upd_peer p (\<lambda>cn. cn\<lparr>peerSentHaveAll := True, peerPieces := {}\<rparr>) t;
     let t = (if pendingPieces t \<noteq> {} then updateRequests p ''Peer.onPeerHasAllPieces'' t else t);
     peerPiecesChanged p t
   }"

text \<open>The loop over the changing pieces; the flag is \<^verbatim>\<open>shouldUpdateRequests\<close>.\<close>

fun bitfield_loop :: "nat set \<Rightarrow> nat list \<Rightarrow> bool \<Rightarrow> torrent_state \<Rightarrow> (torrent_state \<times> bool) option" where
  "bitfield_loop had [] flag t = Some (t, flag)"
| "bitfield_loop had (x # xs) flag t =
     (if x \<in> had then do { t \<leftarrow> decPieceAvailability x t; bitfield_loop had xs flag t }
      else do {
        let flag = (flag \<or> wantPieceIndex t x);
        t \<leftarrow> incPieceAvailability x t;
        bitfield_loop had xs flag t
      })"

text \<open>The pieces that change, after an earlier announcement of everything is withdrawn.\<close>

definition bitfield_changes :: "peer_id \<Rightarrow> nat set \<Rightarrow> torrent_state \<Rightarrow> (torrent_state \<times> nat set) option" where
  "bitfield_changes p bm t =
     (if peerSentHaveAll (peers t p) then
        let (t, was) = deleteConnWithAllPieces p t in
        if \<not> was then None
        else let t = upd_peer p (\<lambda>cn. cn\<lparr>peerSentHaveAll := False\<rparr>) t in
          if peerPieces (peers t p) \<noteq> {} then None else Some (t, bm)
      else Some (t, sym_diff bm (peerPieces (peers t p))))"

definition apply_bitfield :: "peer_id \<Rightarrow> nat set \<Rightarrow> torrent_state \<Rightarrow> torrent_state option" where
  "apply_bitfield p bm t = do {
     (t, bm) \<leftarrow> bitfield_changes p bm t;
     let t = upd_peer p (\<lambda>cn. cn\<lparr>peerSentHaveAll := False\<rparr>) t;
     (t, shouldUpdateRequests) \<leftarrow> bitfield_loop (peerPieces (peers t p)) (bitmap_iter bm) False t;
     let t = upd_peer p (\<lambda>cn. cn\<lparr>peerPieces := sym_diff (peerPieces cn) bm\<rparr>) t;
     let t = (if shouldUpdateRequests then updateRequests p ''bitfield'' t else t);
     peerPiecesChanged p t
   }"

definition peerSentBitfield :: "peer_id \<Rightarrow> bool list \<Rightarrow> torrent_state \<Rightarrow> torrent_state option" where
  "peerSentBitfield p bf t =
     (if length bf mod 8 \<noteq> 0 then None
      else
        let t = raisePeerMinPieces p (int (length bf) - 7) t;
            bf = (if haveInfo t \<and> length bf > numPieces t then take (numPieces t) bf else bf);
            bm = boolSliceToBitmap bf
        in
        if haveInfo t \<and> card bm = numPieces t then onPeerHasAllPieces p t
        else apply_bitfield p bm (if bm \<noteq> {} then raisePeerMinPieces p (int (Max bm) + 1) t else t))"

definition peerSentHaveNone :: "peer_id \<Rightarrow> torrent_state \<Rightarrow> torrent_state option" where
  "peerSentHaveNone p t = do {
     t \<leftarrow> (if \<not> peerSentHaveAll (peers t p) then decPeerPieceAvailability p t else Some t);
     let t = upd_peer p (\<lambda>cn. cn\<lparr>peerPieces := {}, peerSentHaveAll := False\<rparr>) t;
     peerPiecesChanged p t
   }"


section \<open>The invariant\<close>

definition holders :: "torrent_state \<Rightarrow> nat \<Rightarrow> nat" where
  "holders t i = card {p \<in> set (conns t). \<not> closed (peers t p) \<and> i \<in> peerPieces (peers t p)}"

definition in_range :: "torrent_state \<Rightarrow> bool" where
  "in_range t \<longleftrightarrow> (\<forall>p \<in> set (conns t). \<not> closed (peers t p) \<longrightarrow> peerPieces (peers t p) \<subseteq> {..<numPieces t})"

definition all_inv :: "torrent_state \<Rightarrow> bool" where
  "all_inv t \<longleftrightarrow> distinct (conns t) \<and> (\<forall>p. finite (peerPieces (peers t p))) \<and>
     (\<forall>p. p \<in> connsWithAllPieces t \<longleftrightarrow>
        p \<in> set (conns t) \<and> \<not> closed (peers t p) \<and> peerSentHaveAll (peers t p)) \<and>
     (\<forall>p \<in> set (conns t). \<not> closed (peers t p) \<longrightarrow> peerSentHaveAll (peers t p) \<longrightarrow> peerPieces (peers t p) = {})"

definition count_inv :: "torrent_state \<Rightarrow> bool" where
  "count_inv t \<longleftrightarrow>
     (if haveInfo t then
        length (relativeAvailability t) = numPieces t \<and> in_range t \<and>
        (\<forall>i < numPieces t. relativeAvailability t ! i = int (holders t i))
      else relativeAvailability t = [])"

definition avail_inv :: "torrent_state \<Rightarrow> bool" where
  "avail_inv t \<longleftrightarrow> all_inv t \<and> count_inv t"

text \<open>The state of a torrent between two critical sections.\<close>

definition swarm_inv :: "torrent_state \<Rightarrow> bool" where
  "swarm_inv t \<longleftrightarrow> req_inv t \<and> avail_inv t"

text \<open>What the invariant looks at.\<close>

definition same_avail :: "torrent_state \<Rightarrow> torrent_state \<Rightarrow> bool" where
  "same_avail t t' \<longleftrightarrow> info t' = info t \<and> conns t' = conns t \<and> connsWithAllPieces t' = connsWithAllPieces t \<and>
     relativeAvailability t' = relativeAvailability t \<and>
     (\<forall>p. closed (peers t' p) = closed (peers t p) \<and> peerPieces (peers t' p) = peerPieces (peers t p) \<and>
        peerSentHaveAll (peers t' p) = peerSentHaveAll (peers t p))"

lemma same_avail_inv: "same_avail t t' \<Longrightarrow> avail_inv t' = avail_inv t"
  by (simp add: same_avail_def avail_inv_def all_inv_def count_inv_def in_range_def holders_def haveInfo_def numPieces_def)

lemma same_avail_hasPiece:
  assumes "same_avail t t'"
  shows "peerHasPiece t' p i = peerHasPiece t p i"
proof -
  have "info t' = info t" "peerPieces (peers t' p) = peerPieces (peers t p)"
    "peerSentHaveAll (peers t' p) = peerSentHaveAll (peers t p)" using assms by (simp_all add: same_avail_def)
  then show ?thesis by (simp only: peerHasPiece_def peerHasAllPieces_def haveInfo_def numPieces_def)
qed

lemma same_avail_refl [simp]: "same_avail t t"
  by (simp add: same_avail_def)

lemma same_avail_trans: "same_avail t t' \<Longrightarrow> same_avail t' t'' \<Longrightarrow> same_avail t t''"
  by (simp add: same_avail_def)

lemma env_frame_same_avail: "env_frame t t' \<Longrightarrow> same_avail t t'"
  using env_frame_fields(12) by (fastforce simp: same_avail_def env_frame_fields fixed_fields_def)

lemma same_avail_updateRequests: "same_avail t (updateRequests p reason t)"
  using only_peer_updateRequests env_frame_same_avail by (simp add: only_peer_def)

lemma same_avail_raise: "same_avail t (raisePeerMinPieces p n t)"
  by (simp add: raisePeerMinPieces_def same_avail_def upd_peer_def)

lemma same_reqs_raise [frame_intros]: "same_reqs t (raisePeerMinPieces p n t)"
  by (auto simp: raisePeerMinPieces_def intro!: frame_intros)

section \<open>Counting\<close>

text \<open>Replacing the pieces of one connection changes the number of holders by what it gains and loses.\<close>

lemma card_upd:
  assumes "finite A" "p \<in> A" "\<And>q. q \<noteq> p \<Longrightarrow> P' q = P q"
  shows "int (card {q \<in> A. P' q}) = int (card {q \<in> A. P q}) + of_bool (P' p) - of_bool (P p)"
proof -
  have split: "card {q \<in> A. Q q} = card {q \<in> A - {p}. Q q} + of_bool (Q p)" for Q :: "'a \<Rightarrow> bool"
  proof (cases "Q p")
    case True
    then have "{q \<in> A. Q q} = insert p {q \<in> A - {p}. Q q}" using assms(2) by auto
    then show ?thesis using True assms(1) by simp
  next
    case False
    then have "{q \<in> A. Q q} = {q \<in> A - {p}. Q q}" by auto
    then show ?thesis using False by simp
  qed
  have "{q \<in> A - {p}. P' q} = {q \<in> A - {p}. P q}" using assms(3) by auto
  then show ?thesis using split [of P] split [of P'] by simp
qed

lemma holders_upd:
  assumes "p \<in> set (conns t)" "conns t' = conns t" "\<And>q. q \<noteq> p \<Longrightarrow> peers t' q = peers t q"
  shows "int (holders t' i) = int (holders t i)
    + of_bool (\<not> closed (peers t' p) \<and> i \<in> peerPieces (peers t' p))
    - of_bool (\<not> closed (peers t p) \<and> i \<in> peerPieces (peers t p))"
  unfolding holders_def assms(2) using assms(1,3) by (intro card_upd) auto

lemma holders_pos: "p \<in> set (conns t) \<Longrightarrow> \<not> closed (peers t p) \<Longrightarrow> i \<in> peerPieces (peers t p) \<Longrightarrow> holders t i > 0"
  unfolding holders_def by (auto simp: card_gt_0_iff)

lemma count_invD:
  assumes "count_inv t" "haveInfo t"
  shows "length (relativeAvailability t) = numPieces t" "in_range t"
    "i < numPieces t \<Longrightarrow> relativeAvailability t ! i = int (holders t i)"
  using assms by (auto simp: count_inv_def)

lemma in_rangeD: "in_range t \<Longrightarrow> p \<in> set (conns t) \<Longrightarrow> \<not> closed (peers t p) \<Longrightarrow> i \<in> peerPieces (peers t p) \<Longrightarrow> i < numPieces t"
  by (auto simp: in_range_def)

lemma decPieces_exact:
  assumes "haveInfo t" "distinct is" "\<And>i. i \<in> set is \<Longrightarrow> i < length (relativeAvailability t) \<and> relativeAvailability t ! i > 0"
  shows "\<exists>ra. decPieces is t = Some (t\<lparr>relativeAvailability := ra\<rparr>) \<and> length ra = length (relativeAvailability t) \<and>
    (\<forall>j < length ra. ra ! j = relativeAvailability t ! j - of_bool (j \<in> set is))"
  using assms
proof (induction "is" arbitrary: t)
  case Nil
  then show ?case by (intro exI [of _ "relativeAvailability t"]) simp
next
  case (Cons i "is")
  let ?ra = "(relativeAvailability t)[i := relativeAvailability t ! i - 1]"
  let ?t = "t\<lparr>relativeAvailability := ?ra\<rparr>"
  have i: "i < length (relativeAvailability t)" "relativeAvailability t ! i > 0" using Cons.prems(3) [of i] by auto
  then have step: "decPieceAvailability i t = Some ?t"
    using Cons.prems(1) by (simp add: decPieceAvailability_def not_le)
  have "\<exists>ra. decPieces is ?t = Some (?t\<lparr>relativeAvailability := ra\<rparr>) \<and> length ra = length (relativeAvailability ?t) \<and>
      (\<forall>j < length ra. ra ! j = relativeAvailability ?t ! j - of_bool (j \<in> set is))"
  proof (rule Cons.IH)
    fix j assume "j \<in> set is"
    then show "j < length (relativeAvailability ?t) \<and> relativeAvailability ?t ! j > 0"
      using Cons.prems(2) Cons.prems(3) [of j] by (cases "i = j") (auto simp: nth_list_update_neq)
  qed (use Cons.prems(1,2) in \<open>simp_all add: haveInfo_def\<close>)
  then show ?case using step i(1) Cons.prems(2) by (auto simp: nth_list_update)
qed


lemma bitfield_loop_exact:
  assumes "haveInfo t" "distinct xs" "\<And>i. i \<in> set xs \<Longrightarrow> i < length (relativeAvailability t)"
    "\<And>i. i \<in> set xs \<Longrightarrow> i \<in> had \<Longrightarrow> relativeAvailability t ! i > 0"
  shows "\<exists>ra flag'. bitfield_loop had xs flag t = Some (t\<lparr>relativeAvailability := ra\<rparr>, flag') \<and>
    length ra = length (relativeAvailability t) \<and>
    (\<forall>j < length ra. ra ! j = relativeAvailability t ! j + of_bool (j \<in> set xs - had) - of_bool (j \<in> set xs \<inter> had))"
  using assms
proof (induction xs arbitrary: t flag)
  case Nil
  then show ?case by (intro exI [of _ "relativeAvailability t"]) simp
next
  case (Cons x xs)
  define a where "a = relativeAvailability t ! x + (if x \<in> had then -1 else 1)"
  let ?t = "t\<lparr>relativeAvailability := (relativeAvailability t)[x := a]\<rparr>"
  have x: "x < length (relativeAvailability t)" "x \<in> had \<Longrightarrow> relativeAvailability t ! x > 0"
    using Cons.prems(3,4) [of x] by auto
  have step: "bitfield_loop had (x # xs) flag t = bitfield_loop had xs (flag \<or> (x \<notin> had \<and> wantPieceIndex t x)) ?t"
    using x Cons.prems(1) by (cases "x \<in> had") (simp_all add: decPieceAvailability_def incPieceAvailability_def a_def not_le)
  have ih: "\<exists>ra flag'. bitfield_loop had xs (flag \<or> (x \<notin> had \<and> wantPieceIndex t x)) ?t = Some (?t\<lparr>relativeAvailability := ra\<rparr>, flag') \<and>
      length ra = length (relativeAvailability ?t) \<and>
      (\<forall>j < length ra. ra ! j = relativeAvailability ?t ! j + of_bool (j \<in> set xs - had) - of_bool (j \<in> set xs \<inter> had))"
  proof (rule Cons.IH)
    fix j assume j: "j \<in> set xs" "j \<in> had"
    then show "relativeAvailability ?t ! j > 0"
      using Cons.prems(2) Cons.prems(4) [of j] by (cases "x = j") (auto simp: nth_list_update_neq)
  qed (use Cons.prems in \<open>auto simp: haveInfo_def\<close>)
  from ih obtain ra flag' where ra: "bitfield_loop had (x # xs) flag t = Some (t\<lparr>relativeAvailability := ra\<rparr>, flag')"
    "length ra = length (relativeAvailability t)"
    "\<forall>j < length ra. ra ! j = relativeAvailability ?t ! j + of_bool (j \<in> set xs - had) - of_bool (j \<in> set xs \<inter> had)"
    unfolding step by auto
  have "ra ! j = relativeAvailability t ! j + of_bool (j \<in> set (x # xs) - had) - of_bool (j \<in> set (x # xs) \<inter> had)"
    if "j < length ra" for j
    using ra(2) ra(3) [rule_format, OF that] x(1) Cons.prems(2) by (cases "j = x") (simp_all add: a_def)
  then show ?case using ra(1,2) by blast
qed

lemma bitfield_loop_no_info:
  "\<not> haveInfo t \<Longrightarrow> \<exists>flag'. bitfield_loop had xs flag t = Some (t, flag')"
  by (induction xs arbitrary: flag) (simp_all add: decPieceAvailability_def incPieceAvailability_def)

text \<open>
  One lemma for every handler: the pieces of an open connection become \<open>B\<close>, the counters
  follow, and the connection is with all pieces or not as it says.
\<close>

lemma avail_inv_change:
  assumes "avail_inv t" "p \<in> set (conns t)" "\<not> closed (peers t p)"
    and "info t' = info t" "conns t' = conns t" "\<And>q. q \<noteq> p \<Longrightarrow> peers t' q = peers t q"
    and "connsWithAllPieces t' = (if peerSentHaveAll (peers t' p) \<and> \<not> closed (peers t' p)
      then insert p (connsWithAllPieces t) else connsWithAllPieces t - {p})"
    and "finite (peerPieces (peers t' p))" "peerSentHaveAll (peers t' p) \<Longrightarrow> \<not> closed (peers t' p) \<Longrightarrow> peerPieces (peers t' p) = {}"
    and "length (relativeAvailability t') = length (relativeAvailability t)"
    and "\<And>i. haveInfo t \<Longrightarrow> i < numPieces t \<Longrightarrow> relativeAvailability t' ! i = relativeAvailability t ! i
      + of_bool (\<not> closed (peers t' p) \<and> i \<in> peerPieces (peers t' p)) - of_bool (i \<in> peerPieces (peers t p))"
    and "haveInfo t \<Longrightarrow> \<not> closed (peers t' p) \<Longrightarrow> peerPieces (peers t' p) \<subseteq> {..<numPieces t}"
  shows "avail_inv t'"
proof -
  have a: "all_inv t" and c: "count_inv t" using assms(1) by (simp_all add: avail_inv_def)
  have fin: "finite (peerPieces (peers t' q))" for q
    using a assms(6) [of q] assms(8) by (cases "q = p") (auto simp: all_inv_def)
  have mem: "q \<in> connsWithAllPieces t' \<longleftrightarrow> q \<in> set (conns t') \<and> \<not> closed (peers t' q) \<and> peerSentHaveAll (peers t' q)" for q
    using a assms(2,5,7) assms(6) [of q] by (cases "q = p") (auto simp: all_inv_def)
  have "all_inv t'" unfolding all_inv_def
    using a fin mem assms(5,6,9) unfolding all_inv_def by metis
  moreover have i: "haveInfo t' = haveInfo t" "numPieces t' = numPieces t"
    by (simp_all add: haveInfo_def numPieces_def assms(4))
  have "count_inv t'"
  proof (cases "haveInfo t")
    case True
    note cD = count_invD [OF c True]
    have "in_range t'" using cD(2) assms(5,6) assms(12) [OF True] i unfolding in_range_def by metis
    moreover have "relativeAvailability t' ! k = int (holders t' k)" if "k < numPieces t" for k
      using holders_upd [OF assms(2,5,6)] assms(11) [OF True that] cD(3) [OF that] assms(3) by simp
    ultimately show ?thesis using True cD(1) assms(10) i by (simp add: count_inv_def)
  next
    case False
    then show ?thesis using c assms(10) i by (simp add: count_inv_def)
  qed
  ultimately show ?thesis by (simp add: avail_inv_def)
qed


lemma bitmap_iter_set [simp]: "finite A \<Longrightarrow> set (bitmap_iter A) = A" "distinct (bitmap_iter A)"
  by (simp_all add: bitmap_iter_def)

lemma decPieces_peer:
  assumes "avail_inv t" "haveInfo t" "p \<in> set (conns t)" "\<not> closed (peers t p)"
    and "info t1 = info t" "relativeAvailability t1 = relativeAvailability t"
  shows "\<exists>ra. decPieces (bitmap_iter (peerPieces (peers t p))) t1 = Some (t1\<lparr>relativeAvailability := ra\<rparr>) \<and>
    length ra = numPieces t \<and>
    (\<forall>i < numPieces t. ra ! i = relativeAvailability t ! i - of_bool (i \<in> peerPieces (peers t p)))"
proof -
  have c: "count_inv t" and fin: "finite (peerPieces (peers t p))"
    using assms(1) by (auto simp: avail_inv_def all_inv_def)
  note cD = count_invD [OF c assms(2)]
  have "i < length (relativeAvailability t1) \<and> relativeAvailability t1 ! i > 0" if "i \<in> peerPieces (peers t p)" for i
    using in_rangeD [OF cD(2) assms(3,4) that] holders_pos [OF assms(3,4) that] cD(1,3) assms(6) by simp
  then show ?thesis
    using decPieces_exact [of t1 "bitmap_iter (peerPieces (peers t p))"] fin assms(2,5,6) cD(1)
    by (auto simp: haveInfo_def)
qed

lemma closePeer_inv:
  assumes "avail_inv t" "p \<in> set (conns t) \<or> closed (peers t p)"
  shows "\<exists>t'. closePeer p t = Some t' \<and> avail_inv t' \<and> closed (peers t' p) \<and> same_reqs t t' \<and> conns t' = conns t \<and>
    config t' = config t \<and> tclosed t' = tclosed t \<and> (\<forall>q. q \<noteq> p \<longrightarrow> peers t' q = peers t q)"
proof (cases "closed (peers t p)")
  case True
  then show ?thesis using assms(1) by (simp add: closePeer_def)
next
  case False
  then have p: "p \<in> set (conns t)" using assms(2) by simp
  have a: "all_inv t" using assms(1) by (simp add: avail_inv_def)
  define t1 where "t1 = (upd_peer p (\<lambda>cn. cn\<lparr>closed := True\<rparr>) t)\<lparr>connsWithAllPieces := connsWithAllPieces t - {p}\<rparr>"
  have t1: "info t1 = info t" "conns t1 = conns t" "relativeAvailability t1 = relativeAvailability t" "config t1 = config t"
    "tclosed t1 = tclosed t" "peers t1 p = (peers t p)\<lparr>closed := True\<rparr>" "q \<noteq> p \<Longrightarrow> peers t1 q = peers t q"
    "connsWithAllPieces t1 = connsWithAllPieces t - {p}" for q by (simp_all add: t1_def upd_peer_def)
  have s: "same_reqs t (t1\<lparr>relativeAvailability := ra\<rparr>)" for ra
    by (simp add: same_reqs_def t1_def upd_peer_def)
  obtain ra where ra: "closePeer p t = Some (t1\<lparr>relativeAvailability := ra\<rparr>)" "length ra = length (relativeAvailability t)"
    "\<forall>i < numPieces t. haveInfo t \<longrightarrow> ra ! i = relativeAvailability t ! i - of_bool (i \<in> peerPieces (peers t p))"
  proof (cases "p \<in> connsWithAllPieces t")
    case True
    then have "peerPieces (peers t p) = {}" using a by (auto simp: all_inv_def)
    then show ?thesis using True False
      by (intro that [of "relativeAvailability t"])
         (simp_all add: closePeer_def decPeerPieceAvailability_def deleteConnWithAllPieces_def t1_def upd_peer_def)
  next
    case out: False
    have unf: "closePeer p t = (if \<not> haveInfo t then Some t1 else decPieces (bitmap_iter (peerPieces (peers t p))) t1)"
      using False out by (simp add: closePeer_def decPeerPieceAvailability_def deleteConnWithAllPieces_def t1_def
          upd_peer_def haveInfo_def)
    show ?thesis
    proof (cases "haveInfo t")
      case True
      from decPieces_peer [OF assms(1) True p False t1(1,3)] show ?thesis
        using that True unf count_invD(1) assms(1) by (auto simp: avail_inv_def)
    next
      case False
      then show ?thesis using unf by (intro that [of "relativeAvailability t"]) (simp_all add: t1_def upd_peer_def)
    qed
  qed
  have "avail_inv (t1\<lparr>relativeAvailability := ra\<rparr>)"
    by (rule avail_inv_change [OF assms(1) p False])
       (use t1 ra a in \<open>auto simp: all_inv_def\<close>)
  then show ?thesis using ra(1) t1 s by (intro exI [of _ "t1\<lparr>relativeAvailability := ra\<rparr>"]) simp
qed


lemma avail_inv_removeAll:
  assumes "avail_inv t" "closed (peers t p)"
  shows "avail_inv (t\<lparr>conns := removeAll p (conns t)\<rparr>)"
proof -
  have "{q \<in> set (removeAll p (conns t)). \<not> closed (peers t q) \<and> i \<in> peerPieces (peers t q)} =
      {q \<in> set (conns t). \<not> closed (peers t q) \<and> i \<in> peerPieces (peers t q)}" for i
    using assms(2) by auto
  then have h: "holders (t\<lparr>conns := removeAll p (conns t)\<rparr>) i = holders t i" for i
    by (simp add: holders_def)
  have "all_inv (t\<lparr>conns := removeAll p (conns t)\<rparr>)"
    using assms by (auto simp: avail_inv_def all_inv_def distinct_removeAll)
  moreover have "count_inv (t\<lparr>conns := removeAll p (conns t)\<rparr>)"
    using assms(1) h by (fastforce simp: avail_inv_def count_inv_def in_range_def haveInfo_def numPieces_def)
  ultimately show ?thesis by (simp add: avail_inv_def)
qed

lemma deletePeerConn_inv:
  assumes "swarm_inv t" "closed (peers t p)"
  shows "\<exists>t'. deletePeerConn p t = Some (t', p \<in> set (conns t)) \<and> swarm_inv t' \<and> info t' = info t \<and>
    conns t' = removeAll p (conns t) \<and> vout (abs_req t') p = [] \<and> config t' = config t"
proof -
  let ?t1 = "t\<lparr>conns := removeAll p (conns t)\<rparr>"
  have "same_reqs t ?t1" by (simp add: same_reqs_def)
  then have r1: "req_inv ?t1" using assms(1) same_reqs_inv by (auto simp: swarm_inv_def)
  have a1: "avail_inv ?t1" using avail_inv_removeAll assms by (simp add: swarm_inv_def)
  obtain t2 where t2: "deleteAllRequests p ''Torrent.deletePeerConn'' ?t1 = Some t2" "req_inv t2" "info t2 = info ?t1"
    "vout (abs_req t2) = (vout (abs_req ?t1))(p := [])"
    using deleteAllRequests_refines [OF r1] by blast
  have e: "env_frame ?t1 t2" using t2(1) by (rule env_frame_deleteAllRequests)
  have a2: "avail_inv t2" using same_avail_inv [OF env_frame_same_avail [OF e]] a1 by simp
  have "connsWithAllPieces t2 \<subseteq> set (conns t2)" using a2 by (auto simp: avail_inv_def all_inv_def)
  then have "\<not> (conns t2 = [] \<and> connsWithAllPieces t2 \<noteq> {})" by auto
  then show ?thesis using assms(2) t2 a2 env_frame_fields(2,3) [OF e] by (auto simp: deletePeerConn_def swarm_inv_def)
qed

lemma dropConnection_inv:
  assumes "swarm_inv t" "p \<in> set (conns t) \<or> closed (peers t p)"
  shows "\<exists>t'. dropConnection p t = Some t' \<and> swarm_inv t' \<and> info t' = info t \<and> conns t' = removeAll p (conns t) \<and>
    config t' = config t"
proof -
  obtain t1 where t1: "closePeer p t = Some t1" "avail_inv t1" "closed (peers t1 p)" "same_reqs t t1"
    "conns t1 = conns t" "config t1 = config t" using closePeer_inv [OF _ assms(2)] assms(1) by (auto simp: swarm_inv_def)
  then have "swarm_inv t1" using assms(1) same_reqs_inv by (auto simp: swarm_inv_def)
  from deletePeerConn_inv [OF this t1(3)] show ?thesis using t1 by (auto simp: dropConnection_def same_reqs_def)
qed

text \<open>What a handler of a connection keeps: the invariant, the info and all other connections.\<close>

definition keeps :: "peer_id \<Rightarrow> torrent_state \<Rightarrow> torrent_state \<Rightarrow> bool" where
  "keeps p t t' \<longleftrightarrow> swarm_inv t' \<and> info t' = info t \<and> config t' = config t \<and>
     (conns t' = conns t \<or> conns t' = removeAll p (conns t))"

lemma peerPiecesChanged_inv:
  assumes "swarm_inv t" "p \<in> set (conns t)"
  shows "\<exists>t'. peerPiecesChanged p t = Some t' \<and> keeps p t t'"
  using dropConnection_inv [OF assms(1), of p] assms
  by (auto simp: peerPiecesChanged_def maybeDropMutuallyCompletePeer_def keeps_def)

lemma keeps_from:
  assumes "keeps p t1 t2" "info t1 = info t" "config t1 = config t" "conns t1 = conns t"
  shows "keeps p t t2"
  using assms by (simp add: keeps_def)

lemma swarm_same:
  assumes "swarm_inv t" "same_reqs t t'" "same_avail t t'"
  shows "swarm_inv t'"
  using assms same_reqs_inv same_avail_inv by (auto simp: swarm_inv_def)

lemma swarm_updateRequests: "swarm_inv t \<Longrightarrow> swarm_inv (updateRequests p reason t)"
  by (rule swarm_same [OF _ same_reqs_updateRequests same_avail_updateRequests])

lemma updateRequests_fields [simp]:
  "info (updateRequests p reason t) = info t" "conns (updateRequests p reason t) = conns t"
  "config (updateRequests p reason t) = config t"
  by (auto simp: updateRequests_def upd_peer_def)

lemma raise_fields [simp]:
  "info (raisePeerMinPieces p n t) = info t" "conns (raisePeerMinPieces p n t) = conns t"
  "config (raisePeerMinPieces p n t) = config t"
  "relativeAvailability (raisePeerMinPieces p n t) = relativeAvailability t"
  "connsWithAllPieces (raisePeerMinPieces p n t) = connsWithAllPieces t"
  "peerPieces (peers (raisePeerMinPieces p n t) q) = peerPieces (peers t q)"
  "peerSentHaveAll (peers (raisePeerMinPieces p n t) q) = peerSentHaveAll (peers t q)"
  "closed (peers (raisePeerMinPieces p n t) q) = closed (peers t q)"
  "q \<noteq> p \<Longrightarrow> peers (raisePeerMinPieces p n t) q = peers t q"
  by (auto simp: raisePeerMinPieces_def upd_peer_def)

text \<open>The end of the handlers: maybe schedule a request update, then \<open>peerPiecesChanged\<close>.\<close>

lemma finish_inv:
  assumes "swarm_inv t1" "p \<in> set (conns t)" "info t1 = info t" "config t1 = config t" "conns t1 = conns t"
  shows "\<exists>t'. peerPiecesChanged p (if b then updateRequests p reason t1 else t1) = Some t' \<and> keeps p t t'"
proof -
  let ?t2 = "if b then updateRequests p reason t1 else t1"
  have "swarm_inv ?t2" using assms(1) swarm_updateRequests by simp
  moreover have "info ?t2 = info t" "config ?t2 = config t" "conns ?t2 = conns t" using assms by auto
  ultimately show ?thesis using peerPiecesChanged_inv [of ?t2 p] keeps_from [of p ?t2 _ t] assms(2) by auto
qed


section \<open>Every handler keeps the invariant\<close>

lemma all_invD:
  assumes "avail_inv t"
  shows "finite (peerPieces (peers t p))" "p \<in> connsWithAllPieces t \<longleftrightarrow>
      p \<in> set (conns t) \<and> \<not> closed (peers t p) \<and> peerSentHaveAll (peers t p)"
    "p \<in> set (conns t) \<Longrightarrow> \<not> closed (peers t p) \<Longrightarrow> peerSentHaveAll (peers t p) \<Longrightarrow> peerPieces (peers t p) = {}"
  using assms by (auto simp: avail_inv_def all_inv_def)

lemma swarm_change:
  assumes "swarm_inv t" "same_reqs t t'" "avail_inv t'"
  shows "swarm_inv t'"
  using assms same_reqs_inv by (auto simp: swarm_inv_def)

lemma ra_length: "avail_inv t \<Longrightarrow> haveInfo t \<Longrightarrow> length (relativeAvailability t) = numPieces t"
  using count_invD(1) by (auto simp: avail_inv_def)

lemma peerSentHave_inv:
  assumes "swarm_inv t" "p \<in> set (conns t)" "\<not> closed (peers t p)"
  shows "\<exists>t' e. peerSentHave p i t = Some (t', e) \<and> keeps p t t'"
proof (cases "(haveInfo t \<and> i \<ge> numPieces t) \<or> peerHasPiece t p i")
  case True
  then show ?thesis using assms(1) by (auto simp: peerSentHave_def keeps_def)
next
  case False
  then have i: "haveInfo t \<Longrightarrow> i < numPieces t" and nh: "\<not> peerHasPiece t p i" by auto
  have a: "avail_inv t" using assms(1) by (simp add: swarm_inv_def)
  have pieces: "i \<notin> peerPieces (peers t p)" "\<not> peerSentHaveAll (peers t p)"
    using nh by (auto simp: peerHasPiece_def peerHasAllPieces_def split: if_splits)
  let ?t1 = "raisePeerMinPieces p (int i + 1) t"
  have nh1: "\<not> peerHasPiece ?t1 p i"
    using nh same_avail_hasPiece [OF same_avail_raise] by simp
  define ra where "ra = (if haveInfo t then (relativeAvailability t)[i := relativeAvailability t ! i + 1] else relativeAvailability t)"
  let ?t2 = "?t1\<lparr>relativeAvailability := ra\<rparr>"
  let ?t3 = "upd_peer p (\<lambda>cn. cn\<lparr>peerPieces := insert i (peerPieces cn)\<rparr>) ?t2"
  have inc: "incPieceAvailability i ?t1 = Some ?t2"
    using i ra_length [OF a]
    by (cases "info t") (auto simp: incPieceAvailability_def haveInfo_def ra_def raisePeerMinPieces_def upd_peer_def)
  have "avail_inv ?t3"
  proof (rule avail_inv_change [OF a assms(2,3)])
    fix k assume "haveInfo t" "k < numPieces t"
    then show "relativeAvailability ?t3 ! k = relativeAvailability t ! k +
        of_bool (\<not> closed (peers ?t3 p) \<and> k \<in> peerPieces (peers ?t3 p)) - of_bool (k \<in> peerPieces (peers t p))"
      using assms(3) pieces i ra_length [OF a] by (cases "k = i") (auto simp: ra_def upd_peer_def)
  next
    assume "haveInfo t"
    then show "peerPieces (peers ?t3 p) \<subseteq> {..<numPieces t}"
      using i count_invD(2) [of t] in_rangeD [OF _ assms(2,3)] a by (auto simp: upd_peer_def avail_inv_def)
  qed (use a pieces assms(3) in \<open>auto simp: upd_peer_def ra_def all_invD\<close>)
  moreover have "same_reqs t ?t3"
    by (simp add: same_reqs_def upd_peer_def raisePeerMinPieces_def)
  ultimately have "swarm_inv ?t3" using swarm_change assms(1) by blast
  from finish_inv [OF this assms(2)]
  obtain t' where "peerPiecesChanged p (if wantPieceIndex ?t3 i then updateRequests p ''have'' ?t3 else ?t3) = Some t'"
    "keeps p t t'" by (auto simp: upd_peer_def)
  then show ?thesis using False nh1 inc by (auto simp: peerSentHave_def Let_def)
qed


lemma onPeerHasAllPieces_inv:
  assumes "swarm_inv t" "p \<in> set (conns t)" "\<not> closed (peers t p)"
  shows "\<exists>t'. onPeerHasAllPieces p t = Some t' \<and> keeps p t t'"
proof -
  have a: "avail_inv t" using assms(1) by (simp add: swarm_inv_def)
  obtain ra where dec: "(if haveInfo t then decPieces (bitmap_iter (peerPieces (peers t p))) t else Some t) =
      Some (t\<lparr>relativeAvailability := ra\<rparr>)" and len: "length ra = length (relativeAvailability t)"
    and ra: "\<And>i. haveInfo t \<Longrightarrow> i < numPieces t \<Longrightarrow>
      ra ! i = relativeAvailability t ! i - of_bool (i \<in> peerPieces (peers t p))"
  proof (cases "haveInfo t")
    case True
    then show ?thesis using that decPieces_peer [OF a True assms(2,3) refl refl] ra_length [OF a True] by auto
  qed (auto intro: that [of "relativeAvailability t"])
  let ?t2 = "upd_peer p (\<lambda>cn. cn\<lparr>peerSentHaveAll := True, peerPieces := {}\<rparr>)
    (addConnWithAllPieces p (t\<lparr>relativeAvailability := ra\<rparr>))"
  have "avail_inv ?t2"
    by (rule avail_inv_change [OF a assms(2,3)])
       (use ra len assms(3) in \<open>auto simp: addConnWithAllPieces_def upd_peer_def\<close>)
  moreover have "same_reqs t ?t2" by (simp add: same_reqs_def upd_peer_def addConnWithAllPieces_def)
  ultimately have "swarm_inv ?t2" using swarm_change assms(1) by blast
  from finish_inv [OF this assms(2)]
  obtain t' where "peerPiecesChanged p (if pendingPieces ?t2 \<noteq> {} then updateRequests p ''Peer.onPeerHasAllPieces'' ?t2
      else ?t2) = Some t'" "keeps p t t'" by (auto simp: upd_peer_def addConnWithAllPieces_def)
  then show ?thesis unfolding onPeerHasAllPieces_def dec by (simp add: Let_def)
qed

lemma peerSentHaveNone_inv:
  assumes "swarm_inv t" "p \<in> set (conns t)" "\<not> closed (peers t p)" "\<not> peerSentHaveAll (peers t p)"
  shows "\<exists>t'. peerSentHaveNone p t = Some t' \<and> keeps p t t'"
proof -
  have a: "avail_inv t" using assms(1) by (simp add: swarm_inv_def)
  have out: "p \<notin> connsWithAllPieces t" using all_invD(2) [OF a] assms(4) by simp
  obtain ra where dec: "decPeerPieceAvailability p t = Some (t\<lparr>relativeAvailability := ra\<rparr>)"
    and len: "length ra = length (relativeAvailability t)"
    and ra: "\<And>i. haveInfo t \<Longrightarrow> i < numPieces t \<Longrightarrow>
      ra ! i = relativeAvailability t ! i - of_bool (i \<in> peerPieces (peers t p))"
  proof (cases "haveInfo t")
    case True
    then show ?thesis using that decPieces_peer [OF a True assms(2,3) refl refl] ra_length [OF a True] out
      by (auto simp: decPeerPieceAvailability_def deleteConnWithAllPieces_def)
  next
    case False
    then show ?thesis using out by (intro that [of "relativeAvailability t"])
      (auto simp: decPeerPieceAvailability_def deleteConnWithAllPieces_def haveInfo_def)
  qed
  let ?t2 = "upd_peer p (\<lambda>cn. cn\<lparr>peerPieces := {}, peerSentHaveAll := False\<rparr>) (t\<lparr>relativeAvailability := ra\<rparr>)"
  have "avail_inv ?t2"
    by (rule avail_inv_change [OF a assms(2,3)]) (use ra len out in \<open>auto simp: upd_peer_def\<close>)
  moreover have "same_reqs t ?t2" by (simp add: same_reqs_def upd_peer_def)
  ultimately have "swarm_inv ?t2" using swarm_change assms(1) by blast
  from finish_inv [OF this assms(2), of False]
  obtain t' where "peerPiecesChanged p ?t2 = Some t'" "keeps p t t'" by (auto simp: upd_peer_def)
  then show ?thesis using assms(4) dec by (simp add: peerSentHaveNone_def Let_def)
qed

lemma boolSliceToBitmap_bounds: "boolSliceToBitmap bf \<subseteq> {..<length bf}" "finite (boolSliceToBitmap bf)"
  by (auto simp: boolSliceToBitmap_def)

lemma card_below: "A \<subseteq> {..<n :: nat} \<Longrightarrow> card A \<le> n"
  using card_mono [of "{..<n}" A] by simp


text \<open>
  A bitfield replaces what the connection had by the pieces \<open>bm\<close>; \<open>t\<close> is the state after the old
  announcement of everything, if any, is withdrawn.
\<close>

lemma bitfield_change:
  assumes "swarm_inv t0" "p \<in> set (conns t0)" "\<not> closed (peers t0 p)"
    and bm: "finite bm" "haveInfo t0 \<Longrightarrow> bm \<subseteq> {..<numPieces t0}"
    and t: "info t = info t0" "conns t = conns t0" "config t = config t0" "relativeAvailability t = relativeAvailability t0"
      "peerPieces (peers t p) = peerPieces (peers t0 p)" "closed (peers t p) = closed (peers t0 p)"
      "peerSentHaveAll (peers t p) = False" "connsWithAllPieces t = connsWithAllPieces t0 - {p}"
      "\<And>q. q \<noteq> p \<Longrightarrow> peers t q = peers t0 q" "same_reqs t0 t"
    and ch: "ch = sym_diff bm (peerPieces (peers t0 p))"
  shows "\<exists>t1 flag t'. bitfield_loop (peerPieces (peers t p)) (bitmap_iter ch) False t = Some (t1, flag) \<and>
    peerPiecesChanged p (let t = upd_peer p (\<lambda>cn. cn\<lparr>peerPieces := sym_diff (peerPieces cn) ch\<rparr>) t1 in
      if flag then updateRequests p ''bitfield'' t else t) = Some t' \<and> keeps p t0 t'"
proof -
  let ?had = "peerPieces (peers t0 p)"
  have a: "avail_inv t0" using assms(1) by (simp add: swarm_inv_def)
  have fin: "finite ?had" "finite ch" using all_invD(1) [OF a] bm(1) ch by auto
  have new: "sym_diff ?had ch = bm" unfolding ch by auto
  have hi: "haveInfo t = haveInfo t0" using t(1) by (simp add: haveInfo_def)
  obtain ra flag where loop: "bitfield_loop ?had (bitmap_iter ch) False t = Some (t\<lparr>relativeAvailability := ra\<rparr>, flag)"
    and len: "length ra = length (relativeAvailability t0)"
    and ra: "\<And>i. haveInfo t0 \<Longrightarrow> i < numPieces t0 \<Longrightarrow> ra ! i = relativeAvailability t0 ! i + of_bool (i \<in> bm) - of_bool (i \<in> ?had)"
  proof (cases "haveInfo t0")
    case True
    note cD = count_invD [of t0, OF _ True]
    have c: "count_inv t0" using a by (simp add: avail_inv_def)
    have had: "i < numPieces t0 \<and> relativeAvailability t0 ! i > 0" if "i \<in> ?had" for i
      using in_rangeD [OF cD(2) [OF c] assms(2,3) that] holders_pos [OF assms(2,3) that] cD(3) [OF c, of i] by simp
    have "\<exists>ra flag'. bitfield_loop ?had (bitmap_iter ch) False t = Some (t\<lparr>relativeAvailability := ra\<rparr>, flag') \<and>
      length ra = length (relativeAvailability t) \<and> (\<forall>j < length ra. ra ! j = relativeAvailability t ! j
        + of_bool (j \<in> set (bitmap_iter ch) - ?had) - of_bool (j \<in> set (bitmap_iter ch) \<inter> ?had))"
      by (rule bitfield_loop_exact) (use True hi fin had bm(2) [OF True] ra_length [OF a True] t(4) ch in auto)
    then obtain ra flag where loop: "bitfield_loop ?had (bitmap_iter ch) False t = Some (t\<lparr>relativeAvailability := ra\<rparr>, flag)"
      "length ra = length (relativeAvailability t0)"
      "\<forall>j < length ra. ra ! j = relativeAvailability t0 ! j + of_bool (j \<in> ch - ?had) - of_bool (j \<in> ch \<inter> ?had)"
      using fin(2) t(4) by auto
    have "ra ! i = relativeAvailability t0 ! i + of_bool (i \<in> bm) - of_bool (i \<in> ?had)" if "i < numPieces t0" for i
      using loop(2,3) that ra_length [OF a True] by (auto simp: ch)
    then show ?thesis using that loop(1,2) by blast
  next
    case False
    then show ?thesis using that [of "relativeAvailability t"] bitfield_loop_no_info [of t ?had "bitmap_iter ch" False] hi t(4) by auto
  qed
  let ?t2 = "upd_peer p (\<lambda>cn. cn\<lparr>peerPieces := sym_diff (peerPieces cn) ch\<rparr>) (t\<lparr>relativeAvailability := ra\<rparr>)"
  have pieces: "peerPieces (peers ?t2 p) = bm" using new t(5) by (simp add: upd_peer_def)
  have "avail_inv ?t2"
    by (rule avail_inv_change [OF a assms(2,3)])
       (use t ra len bm pieces assms(3) in \<open>auto simp: upd_peer_def\<close>)
  moreover have "same_reqs t ?t2" by (simp add: same_reqs_def upd_peer_def)
  then have "same_reqs t0 ?t2" using t(10) same_reqs_trans by blast
  ultimately have "swarm_inv ?t2" using swarm_change assms(1) by blast
  moreover have "info ?t2 = info t0" "config ?t2 = config t0" "conns ?t2 = conns t0" using t by (simp_all add: upd_peer_def)
  ultimately have "\<exists>t'. peerPiecesChanged p (if flag then updateRequests p ''bitfield'' ?t2 else ?t2) = Some t' \<and> keeps p t0 t'"
    using finish_inv assms(2) by blast
  then obtain t' where "peerPiecesChanged p (if flag then updateRequests p ''bitfield'' ?t2 else ?t2) = Some t'" "keeps p t0 t'"
    by blast
  then show ?thesis unfolding Let_def t(5)
    by (intro exI [of _ "t\<lparr>relativeAvailability := ra\<rparr>"] exI [of _ flag] exI [of _ t'] conjI loop)
qed

lemma apply_bitfield_inv:
  assumes "swarm_inv t" "p \<in> set (conns t)" "\<not> closed (peers t p)" "finite bm" "haveInfo t \<Longrightarrow> bm \<subseteq> {..<numPieces t}"
  shows "\<exists>t'. apply_bitfield p bm t = Some t' \<and> keeps p t t'"
proof -
  have a: "avail_inv t" using assms(1) by (simp add: swarm_inv_def)
  define was where "was = peerSentHaveAll (peers t p)"
  define t2 where "t2 = (if was then upd_peer p (\<lambda>cn. cn\<lparr>peerSentHaveAll := False\<rparr>)
      (t\<lparr>connsWithAllPieces := connsWithAllPieces t - {p}\<rparr>) else t)"
  define ch where "ch = sym_diff bm (peerPieces (peers t p))"
  have had: "was \<Longrightarrow> peerPieces (peers t p) = {}" "was \<longleftrightarrow> p \<in> connsWithAllPieces t"
    using all_invD(2,3) [OF a, of p] assms(2,3) by (auto simp: was_def)
  then have changes: "bitfield_changes p bm t = Some (t2, ch)"
    by (cases was) (simp_all add: bitfield_changes_def t2_def ch_def was_def deleteConnWithAllPieces_def upd_peer_def)
  let ?t3 = "upd_peer p (\<lambda>cn. cn\<lparr>peerSentHaveAll := False\<rparr>) t2"
  have "\<exists>t4 flag t'. bitfield_loop (peerPieces (peers ?t3 p)) (bitmap_iter ch) False ?t3 = Some (t4, flag) \<and>
    peerPiecesChanged p (let t = upd_peer p (\<lambda>cn. cn\<lparr>peerPieces := sym_diff (peerPieces cn) ch\<rparr>) t4 in
      if flag then updateRequests p ''bitfield'' t else t) = Some t' \<and> keeps p t t'"
    by (rule bitfield_change [OF assms _ _ _ _ _ _ _ _ _ _ ch_def])
       (use had(2) in \<open>auto simp: upd_peer_def same_reqs_def t2_def\<close>)
  then show ?thesis by (auto simp: apply_bitfield_def changes Let_def)
qed

lemma peerSentBitfield_inv:
  assumes "swarm_inv t" "p \<in> set (conns t)" "\<not> closed (peers t p)" "length bf mod 8 = 0"
  shows "\<exists>t'. peerSentBitfield p bf t = Some t' \<and> keeps p t t'"
proof -
  let ?t1 = "raisePeerMinPieces p (int (length bf) - 7) t"
  define bf' where "bf' = (if haveInfo ?t1 \<and> length bf > numPieces ?t1 then take (numPieces ?t1) bf else bf)"
  define bm where "bm = boolSliceToBitmap bf'"
  define t2 where "t2 = (if bm \<noteq> {} then raisePeerMinPieces p (int (Max bm) + 1) ?t1 else ?t1)"
  have inv1: "swarm_inv ?t1" by (rule swarm_same [OF assms(1) same_reqs_raise same_avail_raise])
  have inv2: "swarm_inv t2" using inv1 swarm_same [OF _ same_reqs_raise same_avail_raise] by (simp add: t2_def)
  have f2: "info t2 = info t" "config t2 = config t" "conns t2 = conns t" "closed (peers t2 p) = closed (peers t p)"
    by (simp_all add: t2_def)
  have bm: "finite bm" "haveInfo t2 \<Longrightarrow> bm \<subseteq> {..<numPieces t2}"
    using boolSliceToBitmap_bounds [of bf'] f2(1) by (auto simp: bm_def bf'_def haveInfo_def numPieces_def split: if_splits)
  have "\<exists>t'. onPeerHasAllPieces p ?t1 = Some t' \<and> keeps p t t'"
    using onPeerHasAllPieces_inv [OF inv1, of p] assms(2,3) keeps_from [of p ?t1 _ t] by fastforce
  moreover have "\<exists>t'. apply_bitfield p bm t2 = Some t' \<and> keeps p t t'"
    using apply_bitfield_inv [OF inv2 _ _ bm] assms(2,3) f2 keeps_from [of p t2 _ t] by fastforce
  ultimately show ?thesis using assms(4)
    unfolding peerSentBitfield_def Let_def bf'_def [symmetric] bm_def [symmetric] t2_def [symmetric] by simp
qed


section \<open>Closing the torrent\<close>

lemma closePeers_inv:
  assumes "avail_inv t" "set ps \<subseteq> set (conns t)"
  shows "\<exists>t'. closePeers ps t = Some t' \<and> avail_inv t' \<and> conns t' = conns t \<and> info t' = info t \<and> same_reqs t t' \<and>
    (\<forall>p. closed (peers t' p) \<longleftrightarrow> closed (peers t p) \<or> p \<in> set ps)"
  using assms
proof (induction ps arbitrary: t)
  case (Cons p ps)
  obtain t1 where t1: "closePeer p t = Some t1" "avail_inv t1" "closed (peers t1 p)" "same_reqs t t1" "conns t1 = conns t"
    "\<forall>q. q \<noteq> p \<longrightarrow> peers t1 q = peers t q" using closePeer_inv [OF Cons.prems(1), of p] Cons.prems(2) by auto
  obtain t2 where "closePeers ps t1 = Some t2" "avail_inv t2" "conns t2 = conns t1" "info t2 = info t1" "same_reqs t1 t2"
    "\<forall>p. closed (peers t2 p) \<longleftrightarrow> closed (peers t1 p) \<or> p \<in> set ps"
    using Cons.IH [OF t1(2)] Cons.prems(2) t1(5) by auto
  then show ?case using t1 same_reqs_trans [of t t1 t2] by (fastforce simp: same_reqs_def)
qed simp

lemma all_closed_zero:
  assumes "avail_inv t" "\<forall>p \<in> set (conns t). closed (peers t p)"
  shows "connsWithAllPieces t = {}" "allPiecesRelativeAvailabilityZero t"
proof -
  show "connsWithAllPieces t = {}" using all_invD(2) [OF assms(1)] assms(2) by auto
  have "holders t i = 0" for i using assms(2) by (auto simp: holders_def)
  then have "relativeAvailability t ! i = 0" if "i < length (relativeAvailability t)" for i
    using assms(1) that by (auto simp: avail_inv_def count_inv_def split: if_splits)
  then show "allPiecesRelativeAvailabilityZero t" by (auto simp: allPiecesRelativeAvailabilityZero_def in_set_conv_nth)
qed

lemma avail_inv_tclosed [simp]: "avail_inv (t\<lparr>tclosed := b\<rparr>) = avail_inv t"
  by (rule same_avail_inv) (simp add: same_avail_def)

text \<open>
  C23. Closing a torrent.  In a state where the counters agree with the connections, closing the torrent
  closes every connection, leaves nobody in the set of those with all pieces, and the assertion
  that every counter is zero does not fail.
\<close>

theorem closeTorrent_no_panic:
  assumes "avail_inv t" "\<not> tclosed t"
  shows "\<exists>t'. closeTorrent t = Some (t', True) \<and> tclosed t' \<and> (\<forall>p \<in> set (conns t). closed (peers t' p)) \<and>
    connsWithAllPieces t' = {} \<and> (\<forall>a \<in> set (relativeAvailability t'). a = 0)"
proof -
  let ?t = "t\<lparr>tclosed := True\<rparr>"
  have a: "avail_inv ?t" using assms(1) by simp
  have keep: "closePeers ps s = Some s' \<Longrightarrow> avail_inv s \<Longrightarrow> set ps \<subseteq> set (conns s) \<Longrightarrow> tclosed s' = tclosed s" for ps s s'
  proof (induction ps arbitrary: s)
    case (Cons p ps)
    then obtain s1 where "closePeer p s = Some s1" "closePeers ps s1 = Some s'" by (auto simp: bind_eq_Some_conv)
    then show ?case using Cons closePeer_inv [of s p] by auto
  qed simp
  obtain t' where t': "closePeers (conns ?t) ?t = Some t'" "avail_inv t'" "conns t' = conns t"
    "\<forall>p. closed (peers t' p) \<longleftrightarrow> closed (peers t p) \<or> p \<in> set (conns t)" using closePeers_inv [OF a subset_refl] by auto
  have c: "\<forall>p \<in> set (conns t'). closed (peers t' p)" using t'(3,4) by simp
  note z = all_closed_zero [OF t'(2) c]
  have "tclosed t'" using keep [OF t'(1) a subset_refl] by simp
  moreover have "closeTorrent t = Some (t', True)"
    using assms(2) t'(1) z(2) by (simp add: closeTorrent_def Let_def)
  ultimately show ?thesis using z c t'(3) by (auto simp: allPiecesRelativeAvailabilityZero_def)
qed

lemma sample_avail_inv: "avail_inv sample_torrent"
proof -
  have "holders sample_torrent i = 0" for i by (simp add: holders_def sample_peer_def)
  then have "count_inv sample_torrent"
    by (auto simp: count_inv_def haveInfo_def numPieces_def in_range_def sample_peer_def)
       (auto simp: sample_torrent_def sample_geom_def less_Suc_eq numeral_3_eq_3)
  moreover have "all_inv sample_torrent"
    by (simp add: all_inv_def sample_peer_def) (auto simp: sample_torrent_def)
  ultimately show ?thesis by (simp add: avail_inv_def)
qed

theorem closeTorrent_no_panic_witness:
  "\<exists>t'. closeTorrent sample_torrent = Some (t', True) \<and> connsWithAllPieces t' = {}"
  using closeTorrent_no_panic [OF sample_avail_inv] by (auto simp: sample_torrent_def)

section \<open>Any sequence of announcements\<close>

datatype avail_event =
    EvJoin peer_id
  | EvHave peer_id nat
  | EvBitfield peer_id "bool list"
  | EvHaveAll peer_id
  | EvHaveNone peer_id
  | EvDrop peer_id

text \<open>
  A connection joins with nothing announced and nothing requested; messages are read from open
  connections only; a bitfield comes in whole bytes.  \<open>EvHaveNone\<close> is allowed from a connection that
  has not said it has everything.
\<close>

definition fresh_peer :: "torrent_state \<Rightarrow> peer_id \<Rightarrow> bool" where
  "fresh_peer t p \<longleftrightarrow> p \<notin> set (conns t) \<and> \<not> closed (peers t p) \<and> peerPieces (peers t p) = {} \<and>
     \<not> peerSentHaveAll (peers t p)"

definition reading :: "torrent_state \<Rightarrow> peer_id \<Rightarrow> bool" where
  "reading t p \<longleftrightarrow> p \<in> set (conns t) \<and> \<not> closed (peers t p)"

fun avail_guard :: "avail_event \<Rightarrow> torrent_state \<Rightarrow> bool" where
  "avail_guard (EvJoin p) t \<longleftrightarrow> fresh_peer t p"
| "avail_guard (EvBitfield p bf) t \<longleftrightarrow> reading t p \<and> length bf mod 8 = 0"
| "avail_guard (EvHaveNone p) t \<longleftrightarrow> reading t p \<and> \<not> peerSentHaveAll (peers t p)"
| "avail_guard (EvHave p i) t \<longleftrightarrow> reading t p"
| "avail_guard (EvHaveAll p) t \<longleftrightarrow> reading t p"
| "avail_guard (EvDrop p) t \<longleftrightarrow> p \<in> set (conns t)"

fun avail_exec :: "avail_event \<Rightarrow> torrent_state \<Rightarrow> torrent_state option" where
  "avail_exec (EvJoin p) t = Some (t\<lparr>conns := conns t @ [p]\<rparr>)"
| "avail_exec (EvHave p i) t = map_option fst (peerSentHave p i t)"
| "avail_exec (EvBitfield p bf) t = peerSentBitfield p bf t"
| "avail_exec (EvHaveAll p) t = onPeerHasAllPieces p t"
| "avail_exec (EvHaveNone p) t = peerSentHaveNone p t"
| "avail_exec (EvDrop p) t = dropConnection p t"

inductive avail_reach :: "torrent_state \<Rightarrow> torrent_state \<Rightarrow> bool" where
  start: "avail_reach t t"
| event: "avail_reach t t' \<Longrightarrow> avail_guard ev t' \<Longrightarrow> avail_exec ev t' = Some t'' \<Longrightarrow> avail_reach t t''"

lemma join_inv:
  assumes "swarm_inv t" "fresh_peer t p"
  shows "swarm_inv (t\<lparr>conns := conns t @ [p]\<rparr>)"
proof -
  let ?t = "t\<lparr>conns := conns t @ [p]\<rparr>"
  have a: "avail_inv t" using assms(1) by (simp add: swarm_inv_def)
  have f: "p \<notin> set (conns t)" "\<not> closed (peers t p)" "peerPieces (peers t p) = {}" "\<not> peerSentHaveAll (peers t p)"
    using assms(2) by (simp_all add: fresh_peer_def)
  have "{q \<in> set (conns ?t). \<not> closed (peers ?t q) \<and> i \<in> peerPieces (peers ?t q)} =
      {q \<in> set (conns t). \<not> closed (peers t q) \<and> i \<in> peerPieces (peers t q)}" for i using f(3) by auto
  then have h: "holders ?t i = holders t i" for i by (simp add: holders_def)
  have "all_inv ?t" using a f by (auto simp: avail_inv_def all_inv_def)
  moreover have "count_inv ?t"
    using a f(3) h by (fastforce simp: avail_inv_def count_inv_def in_range_def haveInfo_def numPieces_def)
  ultimately have "avail_inv ?t" by (simp add: avail_inv_def)
  moreover have "same_reqs t ?t" by (simp add: same_reqs_def)
  ultimately show ?thesis using swarm_change assms(1) by blast
qed

lemma avail_exec_safe:
  assumes "swarm_inv t" "avail_guard ev t"
  shows "\<exists>t'. avail_exec ev t = Some t' \<and> swarm_inv t' \<and> info t' = info t"
proof (cases ev)
  case (EvJoin p)
  then show ?thesis using assms join_inv by auto
next
  case (EvHave p i)
  then show ?thesis using assms peerSentHave_inv [OF assms(1), of p i] by (auto simp: reading_def keeps_def)
next
  case (EvBitfield p bf)
  then show ?thesis using assms peerSentBitfield_inv [OF assms(1), of p bf] by (auto simp: reading_def keeps_def)
next
  case (EvHaveAll p)
  then show ?thesis using assms onPeerHasAllPieces_inv [OF assms(1), of p] by (auto simp: reading_def keeps_def)
next
  case (EvHaveNone p)
  then show ?thesis using assms peerSentHaveNone_inv [OF assms(1), of p] by (auto simp: reading_def keeps_def)
next
  case (EvDrop p)
  then show ?thesis using assms dropConnection_inv [OF assms(1), of p] by auto
qed

lemma avail_reach_inv: "avail_reach t t' \<Longrightarrow> swarm_inv t \<Longrightarrow> swarm_inv t' \<and> info t' = info t"
  by (induction rule: avail_reach.induct) (use avail_exec_safe in fastforce)+


text \<open>The set the counters stand for: the open connections that have the piece.\<close>

lemma availability_count:
  assumes "avail_inv t" "haveInfo t" "i < numPieces t"
  shows "availability t i = int (card {p \<in> set (conns t). \<not> closed (peers t p) \<and> peerHasPiece t p i})"
proof -
  note a = all_invD [OF assms(1)]
  have c: "count_inv t" using assms(1) by (simp add: avail_inv_def)
  note cD = count_invD [OF c assms(2)]
  let ?open = "{p \<in> set (conns t). \<not> closed (peers t p)}"
  let ?H = "{p \<in> ?open. i \<in> peerPieces (peers t p)}"
  have "peerHasPiece t p i \<longleftrightarrow> p \<in> connsWithAllPieces t \<or> i \<in> peerPieces (peers t p)" if "p \<in> ?open" for p
  proof -
    have sub: "peerPieces (peers t p) \<subseteq> {..<numPieces t}" using cD(2) that by (auto simp: in_range_def)
    have "card (peerPieces (peers t p)) = numPieces t \<Longrightarrow> peerPieces (peers t p) = {..<numPieces t}"
      using card_subset_eq [OF _ sub] by simp
    then show ?thesis using that assms(2,3) a(2) [of p]
      by (auto simp: peerHasPiece_def peerHasAllPieces_def split: if_splits)
  qed
  then have "{p \<in> set (conns t). \<not> closed (peers t p) \<and> peerHasPiece t p i} = connsWithAllPieces t \<union> ?H"
    using a(2) by auto
  moreover have "connsWithAllPieces t \<inter> ?H = {}" using a(2,3) by auto
  moreover have "connsWithAllPieces t \<subseteq> set (conns t)" using a(2) by auto
  then have "finite (connsWithAllPieces t)" using finite_subset by blast
  ultimately have "card {p \<in> set (conns t). \<not> closed (peers t p) \<and> peerHasPiece t p i} =
      card (connsWithAllPieces t) + card ?H" by (simp add: card_Un_disjoint)
  moreover have "card ?H = holders t i" by (simp add: holders_def conj_assoc)
  ultimately show ?thesis using cD(3) [OF assms(3)] by (simp add: availability_def)
qed



section \<open>Saying nothing after everything\<close>

text \<open>
  \<open>peerSentHaveNone\<close> withdraws the announced pieces only of a connection that did not say it has
  everything, so one that did stays in the set of connections with all pieces.
\<close>

lemma peerSentHaveNone_leaves:
  assumes "peerSentHaveAll (peers t p)" "\<not> DropMutuallyCompletePeers (config t)"
  shows "peerSentHaveNone p t = Some (upd_peer p (\<lambda>cn. cn\<lparr>peerPieces := {}, peerSentHaveAll := False\<rparr>) t)"
  using assms by (simp add: peerSentHaveNone_def peerPiecesChanged_def maybeDropMutuallyCompletePeer_def upd_peer_def)

lemma stale_counter_panics:
  assumes "conns t = [p]" "\<not> closed (peers t p)" "p \<in> connsWithAllPieces t" "\<not> tclosed t"
    "a \<in> set (relativeAvailability t)" "a \<noteq> 0"
  shows "closeTorrent t = None"
proof -
  have "closePeer p (t\<lparr>tclosed := True\<rparr>) = Some ((upd_peer p (\<lambda>cn. cn\<lparr>closed := True\<rparr>) t)
      \<lparr>tclosed := True, connsWithAllPieces := connsWithAllPieces t - {p}\<rparr>)"
    using assms(2,3) by (simp add: closePeer_def decPeerPieceAvailability_def deleteConnWithAllPieces_def upd_peer_def)
  then show ?thesis using assms
    by (auto simp: closeTorrent_def Let_def allPiecesRelativeAvailabilityZero_def upd_peer_def)
qed



definition sample_single :: torrent_state where
  "sample_single = sample_torrent\<lparr>conns := [0], connsWithAllPieces := {0}, pendingPieces := {}\<rparr>"


end
