(* ===== verification/Pieces.thy ===== *)
theory Pieces
  imports Availability
begin

text \<open>
  Priorities, completion and hashing of pieces (\<^verbatim>\<open>piece.go\<close>, \<^verbatim>\<open>torrent.go\<close>).  A piece is pending when
  it is wanted and is neither complete nor on its way to be; pieces whose chunks are all there
  are queued for hashing, hashed by at most two hashers, and marked in the storage.  What the
  storage says about the completion of a piece is an argument.
\<close>

section \<open>Priorities\<close>

abbreviation (input) PiecePriorityNone :: nat where "PiecePriorityNone \<equiv> 0"
abbreviation (input) PiecePriorityNormal :: nat where "PiecePriorityNormal \<equiv> 1"
abbreviation (input) PiecePriorityHigh :: nat where "PiecePriorityHigh \<equiv> 2"
abbreviation (input) PiecePriorityReadahead :: nat where "PiecePriorityReadahead \<equiv> 3"
abbreviation (input) PiecePriorityNow :: nat where "PiecePriorityNow \<equiv> 5"

definition Raise :: "nat \<Rightarrow> nat \<Rightarrow> nat \<times> bool" where
  "Raise pp maybe = (if maybe > pp then (maybe, True) else (pp, False))"

definition purePriority :: "torrent_state \<Rightarrow> nat \<Rightarrow> nat" where
  "purePriority t i =
     (let ret = foldl (\<lambda>ret prio. fst (Raise ret prio)) PiecePriorityNone (filePrios t i);
          ret = (if i \<in> readerNowPieces t then fst (Raise ret PiecePriorityNow) else ret);
          ret = (if i \<in> readerReadaheadPieces t then fst (Raise ret PiecePriorityReadahead) else ret)
      in fst (Raise ret (piecePrio t i)))"

definition uncachedPriority :: "torrent_state \<Rightarrow> nat \<Rightarrow> nat" where
  "uncachedPriority t i =
     (if i \<in> hashing t \<or> i \<in> marking t \<or> pieceComplete t i \<or> i \<in> piecesQueuedForHash t then PiecePriorityNone
      else purePriority t i)"

text \<open>Wake the peers that could now request from the piece; new connections are dialled elsewhere.\<close>

definition priority_wake :: "nat \<Rightarrow> string \<Rightarrow> peer_id \<Rightarrow> torrent_state \<Rightarrow> torrent_state" where
  "priority_wake piece reason p t =
     (if \<not> isLowOnRequests (peers t p) then t
      else if \<not> peerHasPiece t p piece then t
      else if Interested (peers t p) \<and> peerChoking (peers t p) \<and> piece \<notin> peerAllowedFast (peers t p) then t
      else updateRequests p reason t)"

definition piecePriorityChanged :: "nat \<Rightarrow> string \<Rightarrow> torrent_state \<Rightarrow> torrent_state" where
  "piecePriorityChanged piece reason t =
     (if piece \<in> pendingPieces t then iterPeers (priority_wake piece reason) (conns t) t else t)"

definition updatePiecePriority :: "nat \<Rightarrow> string \<Rightarrow> torrent_state \<Rightarrow> torrent_state" where
  "updatePiecePriority piece reason t =
     (if uncachedPriority t piece = PiecePriorityNone then
        if piece \<notin> pendingPieces t then t
        else piecePriorityChanged piece reason (t\<lparr>pendingPieces := pendingPieces t - {piece}\<rparr>)
      else
        if piece \<in> pendingPieces t then t
        else piecePriorityChanged piece reason (t\<lparr>pendingPieces := insert piece (pendingPieces t)\<rparr>))"

fun updatePiecePriorities_loop :: "nat list \<Rightarrow> string \<Rightarrow> torrent_state \<Rightarrow> torrent_state" where
  "updatePiecePriorities_loop [] reason t = t"
| "updatePiecePriorities_loop (i # is) reason t = updatePiecePriorities_loop is reason (updatePiecePriority i reason t)"

definition updatePiecePriorities :: "nat \<Rightarrow> nat \<Rightarrow> string \<Rightarrow> torrent_state \<Rightarrow> torrent_state" where
  "updatePiecePriorities begin' end' reason t = updatePiecePriorities_loop [begin'..<end'] reason t"

definition updateAllPiecePriorities :: "string \<Rightarrow> torrent_state \<Rightarrow> torrent_state" where
  "updateAllPiecePriorities reason t = updatePiecePriorities 0 (numPieces t) reason t"

definition SetPriority :: "nat \<Rightarrow> nat \<Rightarrow> torrent_state \<Rightarrow> torrent_state" where
  "SetPriority i prio t = updatePiecePriority i ''Piece.SetPriority'' (t\<lparr>piecePrio := (piecePrio t)(i := prio)\<rparr>)"

definition download_piece :: "nat \<Rightarrow> torrent_state \<Rightarrow> torrent_state" where
  "download_piece i t =
     (case Raise (piecePrio t i) PiecePriorityNormal of (prio, raised) \<Rightarrow>
        if raised then updatePiecePriority i ''Torrent.DownloadPieces'' (t\<lparr>piecePrio := (piecePrio t)(i := prio)\<rparr>) else t)"

definition downloadPiecesLocked :: "nat \<Rightarrow> nat \<Rightarrow> torrent_state \<Rightarrow> torrent_state" where
  "downloadPiecesLocked begin' end' t = fold download_piece [begin'..<end'] t"

definition cancel_piece :: "string \<Rightarrow> nat \<Rightarrow> torrent_state \<Rightarrow> torrent_state" where
  "cancel_piece reason i t =
     (if piecePrio t i = PiecePriorityNone then t
      else updatePiecePriority i reason (t\<lparr>piecePrio := (piecePrio t)(i := PiecePriorityNone)\<rparr>))"

definition cancelPiecesLocked :: "nat \<Rightarrow> nat \<Rightarrow> string \<Rightarrow> torrent_state \<Rightarrow> torrent_state" where
  "cancelPiecesLocked begin' end' reason t = fold (cancel_piece reason) [begin'..<end'] t"

section \<open>Completion\<close>

definition piece_start :: "torrent_state \<Rightarrow> nat \<Rightarrow> u32" where
  "piece_start t i = word_of_nat i * chunksPerPiece t"

definition pendAllChunkSpecs :: "nat \<Rightarrow> torrent_state \<Rightarrow> torrent_state" where
  "pendAllChunkSpecs i t = t\<lparr>dirtyChunks := dirtyChunks t - {r. piece_start t i \<le> r \<and> r < piece_start t (i + 1)}\<rparr>"

fun cancelRequestList :: "u32 list \<Rightarrow> torrent_state \<Rightarrow> torrent_state option" where
  "cancelRequestList [] t = Some t"
| "cancelRequestList (r # rs) t = do { (t, _) \<leftarrow> cancelRequest r t; cancelRequestList rs t }"

definition cancelRequestsForPiece :: "nat \<Rightarrow> torrent_state \<Rightarrow> torrent_state option" where
  "cancelRequestsForPiece i t =
     (case info t of None \<Rightarrow> None
      | Some g \<Rightarrow>
          let start = piece_start t i in
          cancelRequestList (u32_range start (start + pieceNumChunks g (int i))) t)"

definition sendHave :: "peer_id \<Rightarrow> nat \<Rightarrow> torrent_state \<Rightarrow> torrent_state option" where
  "sendHave p i t =
     (if i \<in> sentHaves (peers t p) then Some t
      else do {
        (t, _) \<leftarrow> writeMsg p (zero_message\<lparr>MType := mtHave, Index := word_of_nat i\<rparr>) t;
        Some (upd_peer p (\<lambda>cn. cn\<lparr>sentHaves := insert i (sentHaves cn)\<rparr>) t)
      })"

fun announce_piece :: "nat \<Rightarrow> peer_id list \<Rightarrow> torrent_state \<Rightarrow> torrent_state option" where
  "announce_piece i [] t = Some t"
| "announce_piece i (p # ps) t = do {
     t \<leftarrow> sendHave p i t;
     t \<leftarrow> maybeDropMutuallyCompletePeer p t;
     announce_piece i ps t
   }"

definition onPieceCompleted :: "nat \<Rightarrow> torrent_state \<Rightarrow> torrent_state option" where
  "onPieceCompleted i t = do {
     let t = pendAllChunkSpecs i t;
     t \<leftarrow> cancelRequestsForPiece i t;
     announce_piece i (conns t) t
   }"

definition incomplete_wake :: "nat \<Rightarrow> peer_id \<Rightarrow> torrent_state \<Rightarrow> torrent_state" where
  "incomplete_wake i p t = (if peerHasPiece t p i then updateRequests p ''piece incomplete'' t else t)"

definition onIncompletePiece :: "nat \<Rightarrow> torrent_state \<Rightarrow> torrent_state" where
  "onIncompletePiece i t =
     (let t = (if pieceAllDirty t i then pendAllChunkSpecs i t else t) in
      if \<not> wantPieceIndex t i then t
      else iterPeers (incomplete_wake i) (conns t) t)"

definition pieceCompletionChanged :: "nat \<Rightarrow> string \<Rightarrow> torrent_state \<Rightarrow> torrent_state option" where
  "pieceCompletionChanged i reason t = do {
     t \<leftarrow> (if pieceComplete t i then onPieceCompleted i t else Some (onIncompletePiece i t));
     Some (updatePiecePriority i reason t)
   }"

text \<open>What the storage says: whether the piece is complete, and whether it knows.\<close>

type_synonym completion = "bool \<times> bool"

definition pieceCompleteUncached :: "completion \<Rightarrow> torrent_state \<Rightarrow> completion" where
  "pieceCompleteUncached c t = (if \<not> storageOpen t then (False, True) else c)"

definition updatePieceCompletion :: "completion \<Rightarrow> nat \<Rightarrow> torrent_state \<Rightarrow> (torrent_state \<times> bool) option" where
  "updatePieceCompletion c i t = do {
     let uncached = pieceCompleteUncached c t;
     let cached = (pieceComplete t i, i \<in> storageCompletionOk t);
     let changed = (cached \<noteq> uncached);
     let t = t\<lparr>storageCompletionOk := (if snd uncached then insert i (storageCompletionOk t) else storageCompletionOk t - {i}),
               completedPieces := (if fst uncached then insert i (completedPieces t) else completedPieces t - {i})\<rparr>;
     t \<leftarrow> (if changed then pieceCompletionChanged i ''Torrent.updatePieceCompletion'' t else Some t);
     Some (t, changed)
   }"

section \<open>Hashing\<close>

definition getPieceToHash :: "torrent_state \<Rightarrow> nat option" where
  "getPieceToHash t = List.find (\<lambda>i. i \<notin> hashing t) (bitmap_iter (piecesQueuedForHash t))"

definition tryCreatePieceHasher :: "torrent_state \<Rightarrow> torrent_state option" where
  "tryCreatePieceHasher t =
     (if \<not> storageOpen t then None
      else case getPieceToHash t of
        None \<Rightarrow> None
      | Some i \<Rightarrow>
          let t = t\<lparr>piecesQueuedForHash := piecesQueuedForHash t - {i}, hashing := insert i (hashing t)\<rparr>;
              t = updatePiecePriority i ''Torrent.tryCreatePieceHasher'' t
          in Some (t\<lparr>activePieceHashes := activePieceHashes t + 1\<rparr>))"

lemma updatePiecePriority_active [simp]: "activePieceHashes (updatePiecePriority i reason t) = activePieceHashes t"
proof -
  have u: "activePieceHashes (updateRequests p reason t) = activePieceHashes t" for p reason t
    by (simp add: updateRequests_def upd_peer_def)
  have "activePieceHashes (iterPeers (priority_wake j reason) ps t) = activePieceHashes t" for j ps t
    by (induction ps arbitrary: t) (simp_all add: priority_wake_def u)
  then show ?thesis by (simp add: updatePiecePriority_def piecePriorityChanged_def)
qed

lemma tryCreate_active: "tryCreatePieceHasher t = Some t' \<Longrightarrow> activePieceHashes t' = activePieceHashes t + 1"
  by (auto simp: tryCreatePieceHasher_def Let_def split: if_splits option.splits)

function tryCreateMorePieceHashers :: "torrent_state \<Rightarrow> torrent_state" where
  "tryCreateMorePieceHashers t =
     (if \<not> tclosed t \<and> activePieceHashes t < 2 then
        (case tryCreatePieceHasher t of None \<Rightarrow> t | Some t' \<Rightarrow> tryCreateMorePieceHashers t')
      else t)"
  by pat_completeness auto
termination
  by (relation "measure (\<lambda>t. 2 - activePieceHashes t)") (auto dest: tryCreate_active)

declare tryCreateMorePieceHashers.simps [simp del]

definition queuePieceCheck :: "nat \<Rightarrow> torrent_state \<Rightarrow> torrent_state" where
  "queuePieceCheck i t =
     (if i \<in> piecesQueuedForHash t then t
      else
        let t = t\<lparr>piecesQueuedForHash := insert i (piecesQueuedForHash t)\<rparr>;
            t = updatePiecePriority i ''Torrent.queuePieceCheck'' t
        in tryCreateMorePieceHashers t)"

text \<open>\<^verbatim>\<open>Peer.receiveChunk\<close> after the write, with the check of a piece that is all there.\<close>

definition receiveChunk_finish :: "peer_id \<Rightarrow> request_spec \<Rightarrow> bool \<Rightarrow> torrent_state \<Rightarrow> torrent_state option" where
  "receiveChunk_finish p ppReq failed t = do {
     (t, all) \<leftarrow> receiveChunk_written p ppReq failed t;
     Some (if all then queuePieceCheck (unat (RIndex ppReq)) t else t)
   }"

definition clearPieceTouchers :: "nat \<Rightarrow> torrent_state \<Rightarrow> torrent_state" where
  "clearPieceTouchers i t =
     t\<lparr>peers := (\<lambda>p. if p \<in> dirtiers t i then (peers t p)\<lparr>peerTouchedPieces := peerTouchedPieces (peers t p) - {i}\<rparr>
                     else peers t p),
       dirtiers := (dirtiers t)(i := {})\<rparr>"

definition score_dirtiers :: "bool \<Rightarrow> nat \<Rightarrow> torrent_state \<Rightarrow> torrent_state" where
  "score_dirtiers good i t =
     t\<lparr>peers := (\<lambda>p. if p \<in> dirtiers t i then
          (if good then (peers t p)\<lparr>PiecesDirtiedGood := PiecesDirtiedGood (peers t p) + 1\<rparr>
           else (peers t p)\<lparr>PiecesDirtiedBad := PiecesDirtiedBad (peers t p) + 1\<rparr>)
        else peers t p)\<rparr>"

text \<open>The one peer that alone is to blame for a piece that failed its check.\<close>

definition sole_dirtier :: "nat \<Rightarrow> torrent_state \<Rightarrow> peer_id option" where
  "sole_dirtier i t =
     (let touchers = {p \<in> dirtiers t i. \<not> trusted (peers t p)} in
      if card touchers = 1 then Some (Min touchers) else None)"

text \<open>
  \<^verbatim>\<open>pieceHashed\<close> gives up the lock while it marks a good piece in the storage: up to there, and the
  rest.  The result of the first part is whether there is a rest, and whom to ban.
\<close>

definition pieceHashed_begin ::
  "completion \<Rightarrow> nat \<Rightarrow> bool \<Rightarrow> bool \<Rightarrow> torrent_state \<Rightarrow> (torrent_state \<times> bool \<times> peer_id option) option" where
  "pieceHashed_begin c i passed ioErr t =
     (let t = t\<lparr>numVerifies := (numVerifies t)(i := numVerifies t i + 1)\<rparr> in
      if tclosed t then Some (t, False, None)
      else
        let t = t\<lparr>marking := insert i (marking t)\<rparr> in
        if passed then Some (clearPieceTouchers i (score_dirtiers True i t), True, None)
        else
          let blame = (dirtiers t i \<noteq> {} \<and> pieceAllDirty t i \<and> \<not> ioErr);
              ban = (if blame then sole_dirtier i t else None);
              t = (if blame then clearPieceTouchers i (score_dirtiers False i t) else t)
          in do {
            let t = onIncompletePiece i t;
            (t, _) \<leftarrow> updatePieceCompletion c i t;
            Some (t\<lparr>marking := marking t - {i}\<rparr>, False, ban)
          })"

definition pieceHashed_marked :: "completion \<Rightarrow> nat \<Rightarrow> torrent_state \<Rightarrow> torrent_state option" where
  "pieceHashed_marked c i t =
     (if tclosed t then Some (t\<lparr>marking := marking t - {i}\<rparr>)
      else do {
        (t, _) \<leftarrow> updatePieceCompletion c i (pendAllChunkSpecs i t);
        Some (t\<lparr>marking := marking t - {i}\<rparr>)
      })"

text \<open>
  \<^verbatim>\<open>pieceHasher\<close> once the piece is hashed: the peers with a banned address are dropped after a good
  piece, then \<open>pieceHashed\<close>, and, in \<open>pieceHasher_end\<close>, room for the next hasher.
\<close>

fun dropPeers :: "peer_id list \<Rightarrow> torrent_state \<Rightarrow> torrent_state option" where
  "dropPeers [] t = Some t"
| "dropPeers (p # ps) t = do { t \<leftarrow> dropConnection p t; dropPeers ps t }"

definition pieceHasher_begin ::
  "peer_id set \<Rightarrow> completion \<Rightarrow> nat \<Rightarrow> bool \<Rightarrow> bool \<Rightarrow> torrent_state \<Rightarrow> (torrent_state \<times> bool \<times> peer_id option) option" where
  "pieceHasher_begin bad c i correct ioErr t = do {
     t \<leftarrow> (if correct then dropPeers (filter (\<lambda>p. p \<in> bad) (conns t)) t else Some t);
     let t = t\<lparr>hashing := hashing t - {i}\<rparr>;
     pieceHashed_begin c i correct ioErr t
   }"

definition pieceHasher_end :: "nat \<Rightarrow> torrent_state \<Rightarrow> torrent_state" where
  "pieceHasher_end i t =
     (let t = updatePiecePriority i ''Torrent.pieceHasher'' t;
          t = t\<lparr>activePieceHashes := activePieceHashes t - 1\<rparr>
      in tryCreateMorePieceHashers t)"


section \<open>What the operations on peers leave alone\<close>

definition frame_of :: "torrent_state \<Rightarrow> torrent_state \<Rightarrow> torrent_state" where
  "frame_of t t' = t\<lparr>peers := peers t', requestState := requestState t', connsWithAllPieces := connsWithAllPieces t',
     relativeAvailability := relativeAvailability t', conns := conns t'\<rparr>"

definition peer_frame :: "torrent_state \<Rightarrow> torrent_state \<Rightarrow> bool" where
  "peer_frame t t' \<longleftrightarrow> t' = frame_of t t'"

lemmas peer_frame_simps = peer_frame_def frame_of_def

named_theorems piece_frames

lemma peer_frame_refl [simp, piece_frames]: "peer_frame t t"
  by (simp add: peer_frame_simps)

lemma peer_frame_trans: "peer_frame t t' \<Longrightarrow> peer_frame t' t'' \<Longrightarrow> peer_frame t t''"
proof -
  assume 1: "peer_frame t t'" and 2: "peer_frame t' t''"
  have "frame_of (frame_of t t') t'' = frame_of t t''" by (simp add: frame_of_def)
  then show ?thesis using 1 2 unfolding peer_frame_def by metis
qed

lemma peer_frame_env: "env_frame t t' \<Longrightarrow> peer_frame t t'"
  unfolding env_frame_def by (auto simp: peer_frame_simps)

lemma peer_frame_only: "only_peer p t t' \<Longrightarrow> peer_frame t t'"
  by (simp add: only_peer_def peer_frame_env)

lemma peer_frame_upd [piece_frames]: "peer_frame t (upd_peer p f t)"
  by (simp add: peer_frame_simps upd_peer_def)

lemma peer_frame_updateRequests [piece_frames]: "peer_frame t (updateRequests p reason t)"
  by (rule peer_frame_only [OF only_peer_updateRequests])

lemma peer_frame_iterPeers [piece_frames]:
  assumes "\<And>p t. peer_frame t (f p t)"
  shows "peer_frame t (iterPeers f ps t)"
proof (induction ps arbitrary: t)
  case (Cons p ps)
  show ?case using peer_frame_trans [OF assms Cons.IH] by simp
qed simp

lemma peer_frame_fields:
  assumes "peer_frame t t'"
  shows "info t' = info t" "config t' = config t" "hashing t' = hashing t" "marking t' = marking t"
    "piecesQueuedForHash t' = piecesQueuedForHash t" "completedPieces t' = completedPieces t"
    "pendingPieces t' = pendingPieces t" "activePieceHashes t' = activePieceHashes t" "tclosed t' = tclosed t"
    "dirtyChunks t' = dirtyChunks t" "filePrios t' = filePrios t" "piecePrio t' = piecePrio t"
    "readerNowPieces t' = readerNowPieces t" "readerReadaheadPieces t' = readerReadaheadPieces t"
    "storageCompletionOk t' = storageCompletionOk t" "storageOpen t' = storageOpen t" "numVerifies t' = numVerifies t"
    "dirtiers t' = dirtiers t" "pendingWrites t' = pendingWrites t" "tchunkSize t' = tchunkSize t" "now t' = now t"
    "initialPieceCheckDisabled t' = initialPieceCheckDisabled t"
    "dataDownloadDisallowed t' = dataDownloadDisallowed t" "dataUploadDisallowed t' = dataUploadDisallowed t"
    "userOnWriteChunkErr t' = userOnWriteChunkErr t"
  by (subst assms [unfolded peer_frame_def], simp add: frame_of_def)+

lemma peer_frame_decPieces: "decPieces is t = Some t' \<Longrightarrow> peer_frame t t'"
proof (induction "is" arbitrary: t)
  case (Cons i "is")
  then obtain t1 where t1: "decPieceAvailability i t = Some t1" "decPieces is t1 = Some t'"
    by (auto simp: bind_eq_Some_conv)
  have "peer_frame t t1" using t1(1)
    by (auto simp: decPieceAvailability_def peer_frame_simps split: if_splits)
  then show ?case using peer_frame_trans Cons.IH [OF t1(2)] by blast
qed simp

lemma peer_frame_decPeer: "decPeerPieceAvailability p t = Some t' \<Longrightarrow> peer_frame t t'"
proof -
  assume a: "decPeerPieceAvailability p t = Some t'"
  let ?t = "t\<lparr>connsWithAllPieces := connsWithAllPieces t - {p}\<rparr>"
  have "peer_frame t ?t"
    by (simp add: peer_frame_simps)
  moreover have "peer_frame ?t t'"
    using a peer_frame_decPieces by (auto simp: decPeerPieceAvailability_def deleteConnWithAllPieces_def split: if_splits)
  ultimately show ?thesis by (rule peer_frame_trans)
qed

lemma peer_frame_closePeer:
  assumes "closePeer p t = Some t'"
  shows "peer_frame t t'"
proof (cases "closed (peers t p)")
  case False
  then have "decPeerPieceAvailability p (upd_peer p (\<lambda>cn. cn\<lparr>closed := True\<rparr>) t) = Some t'"
    using assms by (simp add: closePeer_def)
  then show ?thesis by (rule peer_frame_trans [OF peer_frame_upd peer_frame_decPeer])
qed (use assms in \<open>simp add: closePeer_def\<close>)

lemma peer_frame_deletePeerConn:
  assumes "deletePeerConn p t = Some (t', ret)"
  shows "peer_frame t t'"
proof -
  let ?t = "t\<lparr>conns := removeAll p (conns t)\<rparr>"
  have "peer_frame t ?t"
    by (simp add: peer_frame_simps)
  moreover have "deleteAllRequests p ''Torrent.deletePeerConn'' ?t = Some t'"
    using assms by (auto simp: deletePeerConn_def Let_def bind_eq_Some_conv split: if_splits)
  ultimately show ?thesis using peer_frame_trans peer_frame_env [OF env_frame_deleteAllRequests] by blast
qed

lemma peer_frame_drop: "dropConnection p t = Some t' \<Longrightarrow> peer_frame t t'"
  using peer_frame_trans [OF peer_frame_closePeer peer_frame_deletePeerConn]
  by (auto simp: dropConnection_def bind_eq_Some_conv)

lemma peer_frame_maybeDrop: "maybeDropMutuallyCompletePeer p t = Some t' \<Longrightarrow> peer_frame t t'"
  using peer_frame_drop by (auto simp: maybeDropMutuallyCompletePeer_def split: if_splits)


section \<open>The piece operations keep the swarm consistent\<close>

definition same_swarm :: "torrent_state \<Rightarrow> torrent_state \<Rightarrow> bool" where
  "same_swarm t t' \<longleftrightarrow> same_reqs t t' \<and> same_avail t t'"

lemma same_swarm_refl [simp]: "same_swarm t t"
  by (simp add: same_swarm_def)

lemma same_swarm_trans: "same_swarm t t' \<Longrightarrow> same_swarm t' t'' \<Longrightarrow> same_swarm t t''"
  using same_reqs_trans same_avail_trans unfolding same_swarm_def by blast

lemma same_swarm_inv: "same_swarm t t' \<Longrightarrow> swarm_inv t \<Longrightarrow> swarm_inv t'"
  using swarm_same by (simp add: same_swarm_def)

lemma same_swarm_updateRequests: "same_swarm t (updateRequests p reason t)"
  by (simp add: same_swarm_def same_reqs_updateRequests same_avail_updateRequests)

lemma same_swarm_iterPeers:
  assumes "\<And>p t. same_swarm t (f p t)"
  shows "same_swarm t (iterPeers f ps t)"
proof (induction ps arbitrary: t)
  case (Cons p ps)
  show ?case using same_swarm_trans [OF assms Cons.IH] by simp
qed simp

lemma same_swarm_wakes:
  "same_swarm t (priority_wake i reason p t)" "same_swarm t (incomplete_wake i p t)"
  "peer_frame t (priority_wake i reason p t)" "peer_frame t (incomplete_wake i p t)"
  by (simp_all add: priority_wake_def incomplete_wake_def same_swarm_updateRequests peer_frame_updateRequests)

lemma same_swarm_other:
  "info t' = info t \<Longrightarrow> conns t' = conns t \<Longrightarrow> connsWithAllPieces t' = connsWithAllPieces t \<Longrightarrow>
   relativeAvailability t' = relativeAvailability t \<Longrightarrow> peers t' = peers t \<Longrightarrow> requestState t' = requestState t \<Longrightarrow>
   same_swarm t t'"
  by (simp add: same_swarm_def same_reqs_def same_avail_def)

lemma piecePriorityChanged_frame: "same_swarm t (piecePriorityChanged i reason t)" "peer_frame t (piecePriorityChanged i reason t)"
  by (auto simp: piecePriorityChanged_def intro: same_swarm_iterPeers peer_frame_iterPeers same_swarm_wakes)

definition pending_to :: "torrent_state \<Rightarrow> nat \<Rightarrow> nat set" where
  "pending_to t i = (if uncachedPriority t i = 0 then pendingPieces t - {i} else insert i (pendingPieces t))"

lemma updatePiecePriority_frame:
  "same_swarm t (updatePiecePriority i reason t)"
  "peer_frame (t\<lparr>pendingPieces := pending_to t i\<rparr>) (updatePiecePriority i reason t)"
proof -
  let ?t = "t\<lparr>pendingPieces := pending_to t i\<rparr>"
  have "same_swarm t ?t" by (rule same_swarm_other) simp_all
  then have s: "same_swarm t (piecePriorityChanged i reason ?t)"
    using same_swarm_trans piecePriorityChanged_frame(1) by blast
  have same: "?t = t" if "(uncachedPriority t i = 0) = (i \<notin> pendingPieces t)"
    using that by (auto simp: pending_to_def insert_absorb)
  have "updatePiecePriority i reason t = (if (uncachedPriority t i = 0) = (i \<notin> pendingPieces t) then t
      else piecePriorityChanged i reason ?t)" by (simp add: updatePiecePriority_def pending_to_def)
  then show "same_swarm t (updatePiecePriority i reason t)" "peer_frame ?t (updatePiecePriority i reason t)"
    using s same piecePriorityChanged_frame(2) by (auto split: if_splits)
qed

lemma uncached_frame:
  assumes "peer_frame t t'"
  shows "uncachedPriority t' i = uncachedPriority t i"
  using peer_frame_fields [OF assms]
  by (simp only: uncachedPriority_def purePriority_def pieceComplete_def)

lemma uncached_pending [simp]: "uncachedPriority (t\<lparr>pendingPieces := P\<rparr>) i = uncachedPriority t i"
  by (simp add: uncachedPriority_def purePriority_def pieceComplete_def)

text \<open>
  The pending pieces are the wanted ones that are not complete and not being checked; \<open>pending_but\<close>
  says so of all pieces but one.
\<close>

definition pending_but :: "nat set \<Rightarrow> torrent_state \<Rightarrow> bool" where
  "pending_but X t \<longleftrightarrow> (\<forall>j. j \<notin> X \<longrightarrow> (j \<in> pendingPieces t \<longleftrightarrow> j < numPieces t \<and> uncachedPriority t j \<noteq> 0))"

lemma pending_but_mono: "pending_but X t \<Longrightarrow> X \<subseteq> Y \<Longrightarrow> pending_but Y t"
  by (auto simp: pending_but_def)

lemma pending_but_frame:
  assumes "peer_frame t t'"
  shows "pending_but X t' = pending_but X t"
  using peer_frame_fields [OF assms] by (simp add: pending_but_def uncached_frame [OF assms] numPieces_def)

lemma updatePiecePriority_pending:
  assumes "pending_but X t" "i < numPieces t"
  shows "pending_but (X - {i}) (updatePiecePriority i reason t)"
proof -
  have "pending_but (X - {i}) (t\<lparr>pendingPieces := pending_to t i\<rparr>)"
    using assms by (auto simp: pending_but_def pending_to_def numPieces_def)
  then show ?thesis using pending_but_frame [OF updatePiecePriority_frame(2)] by simp
qed

text \<open>The stage of the pieces in the pipeline of checks.\<close>

definition same_stage :: "torrent_state \<Rightarrow> torrent_state \<Rightarrow> bool" where
  "same_stage t t' \<longleftrightarrow> info t' = info t \<and> config t' = config t \<and> hashing t' = hashing t \<and> marking t' = marking t \<and>
     piecesQueuedForHash t' = piecesQueuedForHash t \<and> activePieceHashes t' = activePieceHashes t \<and>
     tclosed t' = tclosed t \<and> storageOpen t' = storageOpen t"

lemma same_stage_refl [simp]: "same_stage t t"
  by (simp add: same_stage_def)

lemma same_stage_trans: "same_stage t t' \<Longrightarrow> same_stage t' t'' \<Longrightarrow> same_stage t t''"
  by (simp add: same_stage_def)

lemma same_stage_frame: "peer_frame t t' \<Longrightarrow> same_stage t t'"
  by (simp add: same_stage_def peer_frame_fields)

lemma same_stage_updatePiecePriority: "same_stage t (updatePiecePriority i reason t)"
  using same_stage_frame [OF updatePiecePriority_frame(2)] by (simp add: same_stage_def)


lemma cancelRequest_swarm:
  assumes "swarm_inv t"
  shows "\<exists>t' q. cancelRequest r t = Some (t', q) \<and> swarm_inv t' \<and> peer_frame t t' \<and> conns t' = conns t"
proof -
  obtain t' where t': "cancelRequest r t = Some (t', vowner (abs_req t) r)" "req_inv t'"
    using cancelRequest_refines assms by (auto simp: swarm_inv_def)
  have e: "env_frame t t'"
    using t'(1) only_peer_cancel by (auto simp: cancelRequest_def Let_def bind_eq_Some_conv only_peer_def split: if_splits option.splits)
  then show ?thesis using t' assms same_avail_inv [OF env_frame_same_avail [OF e]] peer_frame_env [OF e] env_frame_fields(2) [OF e]
    by (auto simp: swarm_inv_def)
qed

lemma cancelRequestList_swarm:
  "swarm_inv t \<Longrightarrow> \<exists>t'. cancelRequestList rs t = Some t' \<and> swarm_inv t' \<and> peer_frame t t' \<and> conns t' = conns t"
proof (induction rs arbitrary: t)
  case (Cons r rs)
  then obtain t1 q where t1: "cancelRequest r t = Some (t1, q)" "swarm_inv t1" "peer_frame t t1" "conns t1 = conns t"
    using cancelRequest_swarm by blast
  then show ?case using Cons.IH [OF t1(2)] peer_frame_trans [OF t1(3)] by auto
qed simp

lemma have_message: "MustMarshalBinary (zero_message\<lparr>MType := mtHave, Index := x\<rparr>) \<noteq> None"
  by (simp add: MustMarshalBinary_def MarshalBinary_def message_body_def zero_message_def)

lemma sendHave_swarm:
  assumes "swarm_inv t"
  shows "\<exists>t'. sendHave p i t = Some t' \<and> swarm_inv t' \<and> peer_frame t t' \<and> conns t' = conns t"
proof (cases "i \<in> sentHaves (peers t p)")
  case False
  obtain b where "MustMarshalBinary (zero_message\<lparr>MType := mtHave, Index := word_of_nat i\<rparr>) = Some b"
    using have_message [of "word_of_nat i"] by (metis not_None_eq)
  then obtain t1 ok where t1: "writeMsg p (zero_message\<lparr>MType := mtHave, Index := word_of_nat i\<rparr>) t = Some (t1, ok)"
    "same_reqs t t1" "t1 = upd_peer p (\<lambda>cn. cn\<lparr>writeBuffer := writeBuffer cn @ b\<rparr>) t" by (rule writeMsg_frame)
  let ?t2 = "upd_peer p (\<lambda>cn. cn\<lparr>sentHaves := insert i (sentHaves cn)\<rparr>) t1"
  have "same_reqs t1 ?t2" by (intro frame_intros) simp_all
  then have r: "same_reqs t ?t2" using same_reqs_trans t1(2) by blast
  have "only_peer p t1 ?t2" by (intro peer_intros) (simp add: fixed_fields_def)
  then have "only_peer p t ?t2" by (rule only_peer_trans [OF only_peer_writeMsg [OF t1(1)]])
  then have e: "env_frame t ?t2" by (simp only: only_peer_def)
  have "swarm_inv ?t2" using swarm_same [OF assms r env_frame_same_avail [OF e]] .
  moreover have "sendHave p i t = Some ?t2" using False t1(1) unfolding sendHave_def by simp
  ultimately show ?thesis using peer_frame_env [OF e] env_frame_fields(2) [OF e] by blast
qed (use assms in \<open>simp add: sendHave_def\<close>)

lemma maybeDrop_swarm:
  assumes "swarm_inv t" "p \<in> set (conns t)"
  shows "\<exists>t'. maybeDropMutuallyCompletePeer p t = Some t' \<and> swarm_inv t' \<and> peer_frame t t' \<and>
    (conns t' = conns t \<or> conns t' = removeAll p (conns t))"
  using peerPiecesChanged_inv [OF assms] peer_frame_maybeDrop by (auto simp: peerPiecesChanged_def keeps_def)

lemma announce_piece_swarm:
  "swarm_inv t \<Longrightarrow> distinct ps \<Longrightarrow> set ps \<subseteq> set (conns t) \<Longrightarrow>
   \<exists>t'. announce_piece i ps t = Some t' \<and> swarm_inv t' \<and> peer_frame t t'"
proof (induction ps arbitrary: t)
  case (Cons p ps)
  obtain t1 where t1: "sendHave p i t = Some t1" "swarm_inv t1" "peer_frame t t1" "conns t1 = conns t"
    using sendHave_swarm [OF Cons.prems(1)] by blast
  obtain t2 where t2: "maybeDropMutuallyCompletePeer p t1 = Some t2" "swarm_inv t2" "peer_frame t1 t2"
    "conns t2 = conns t1 \<or> conns t2 = removeAll p (conns t1)"
    using maybeDrop_swarm [OF t1(2), of p] t1(4) Cons.prems(3) by auto
  have "set ps \<subseteq> set (conns t2)" using t2(4) t1(4) Cons.prems(2,3) by auto
  then obtain t3 where "announce_piece i ps t2 = Some t3" "swarm_inv t3" "peer_frame t2 t3"
    using Cons.IH [OF t2(2)] Cons.prems(2) by auto
  then show ?case using t1(1) t2(1) peer_frame_trans [OF peer_frame_trans [OF t1(3) t2(3)]] by auto
qed simp

lemma pendAll_fields [simp]:
  "same_swarm t (pendAllChunkSpecs i t)" "same_stage t (pendAllChunkSpecs i t)"
  "pendingPieces (pendAllChunkSpecs i t) = pendingPieces t" "completedPieces (pendAllChunkSpecs i t) = completedPieces t"
  "uncachedPriority (pendAllChunkSpecs i t) j = uncachedPriority t j" "info (pendAllChunkSpecs i t) = info t"
  "conns (pendAllChunkSpecs i t) = conns t" "numPieces (pendAllChunkSpecs i t) = numPieces t"
  by (simp_all add: pendAllChunkSpecs_def same_swarm_other same_stage_def uncachedPriority_def purePriority_def
      pieceComplete_def numPieces_def)

lemma pendAll_pending [simp]: "pending_but X (pendAllChunkSpecs i t) = pending_but X t"
  by (simp add: pending_but_def)

lemma conns_distinct: "swarm_inv t \<Longrightarrow> distinct (conns t)"
  by (simp add: swarm_inv_def avail_inv_def all_inv_def)

lemma onPieceCompleted_swarm:
  assumes "swarm_inv t" "haveInfo t"
  shows "\<exists>t'. onPieceCompleted i t = Some t' \<and> swarm_inv t' \<and> peer_frame (pendAllChunkSpecs i t) t'"
proof -
  let ?t1 = "pendAllChunkSpecs i t"
  have s1: "swarm_inv ?t1" by (rule same_swarm_inv [OF pendAll_fields(1) assms(1)])
  obtain g where g: "info ?t1 = Some g" using assms(2) by (auto simp: haveInfo_def)
  obtain t2 where t2: "cancelRequestsForPiece i ?t1 = Some t2" "swarm_inv t2" "peer_frame ?t1 t2" "conns t2 = conns ?t1"
    using cancelRequestList_swarm [OF s1] g by (fastforce simp: cancelRequestsForPiece_def Let_def)
  obtain t3 where "announce_piece i (conns t2) t2 = Some t3" "swarm_inv t3" "peer_frame t2 t3"
    using announce_piece_swarm [OF t2(2) conns_distinct [OF t2(2)] subset_refl] by blast
  then show ?thesis using t2 peer_frame_trans [OF t2(3)] by (auto simp: onPieceCompleted_def Let_def)
qed

lemma onIncompletePiece_frame:
  "same_swarm t (onIncompletePiece i t)" "same_stage t (onIncompletePiece i t)"
  "pending_but X (onIncompletePiece i t) = pending_but X t" "completedPieces (onIncompletePiece i t) = completedPieces t"
proof -
  let ?t = "if pieceAllDirty t i then pendAllChunkSpecs i t else t"
  have pf: "peer_frame ?t (onIncompletePiece i t)"
    by (auto simp: onIncompletePiece_def Let_def intro: peer_frame_iterPeers same_swarm_wakes)
  have "same_swarm ?t (onIncompletePiece i t)"
    by (auto simp: onIncompletePiece_def Let_def intro: same_swarm_iterPeers same_swarm_wakes)
  then show "same_swarm t (onIncompletePiece i t)" using same_swarm_trans [of t ?t] by simp
  show "same_stage t (onIncompletePiece i t)" using same_stage_trans [OF _ same_stage_frame [OF pf], of t] by simp
  show "pending_but X (onIncompletePiece i t) = pending_but X t" using pending_but_frame [OF pf] by simp
  show "completedPieces (onIncompletePiece i t) = completedPieces t" using peer_frame_fields(6) [OF pf] by simp
qed

lemma completion_inv:
  assumes "swarm_inv t" "haveInfo t" "i < numPieces t" "pending_but X t"
  shows "\<exists>t' ch. updatePieceCompletion c i t = Some (t', ch) \<and> swarm_inv t' \<and> same_stage t t' \<and> pending_but (X \<union> {i}) t' \<and>
    (i \<notin> X \<longrightarrow> pending_but X t') \<and>
    completedPieces t' = (if fst (pieceCompleteUncached c t) then insert i (completedPieces t) else completedPieces t - {i})"
proof -
  let ?un = "pieceCompleteUncached c t"
  define t1 where "t1 = t\<lparr>storageCompletionOk := (if snd ?un then insert i (storageCompletionOk t) else storageCompletionOk t - {i}),
    completedPieces := (if fst ?un then insert i (completedPieces t) else completedPieces t - {i})\<rparr>"
  let ?ch = "(pieceComplete t i, i \<in> storageCompletionOk t) \<noteq> ?un"
  have s1: "swarm_inv t1" by (rule same_swarm_inv [OF _ assms(1)]) (rule same_swarm_other, simp_all add: t1_def)
  have st1: "same_stage t t1" by (simp add: same_stage_def t1_def)
  have h1: "haveInfo t1" "numPieces t1 = numPieces t" using assms(2) by (simp_all add: t1_def haveInfo_def numPieces_def)
  have unc: "j \<noteq> i \<Longrightarrow> uncachedPriority t1 j = uncachedPriority t j" for j
    by (simp add: uncachedPriority_def purePriority_def pieceComplete_def t1_def)
  have "pendingPieces t1 = pendingPieces t" by (simp add: t1_def)
  then have p1: "pending_but (X \<union> {i}) t1" using assms(4) unc h1 by (auto simp: pending_but_def)
  show ?thesis
  proof (cases ?ch)
    case True
    obtain t2 where t2: "(if pieceComplete t1 i then onPieceCompleted i t1 else Some (onIncompletePiece i t1)) = Some t2"
      "swarm_inv t2" "same_stage t1 t2" "pending_but (X \<union> {i}) t2" "completedPieces t2 = completedPieces t1"
    proof (cases "pieceComplete t1 i")
      case True
      from onPieceCompleted_swarm [OF s1 h1(1), of i] obtain t2 where t2: "onPieceCompleted i t1 = Some t2" "swarm_inv t2"
        "peer_frame (pendAllChunkSpecs i t1) t2" by blast
      have "same_stage t1 t2" using same_stage_trans [OF pendAll_fields(2) same_stage_frame [OF t2(3)]] .
      moreover have "pending_but (X \<union> {i}) t2" using pending_but_frame [OF t2(3)] p1 by simp
      moreover have "completedPieces t2 = completedPieces t1" using peer_frame_fields(6) [OF t2(3)] by simp
      ultimately show ?thesis using that True t2(1,2) by simp
    next
      case False
      then show ?thesis using that [of "onIncompletePiece i t1"] onIncompletePiece_frame(2-4) p1
          same_swarm_inv [OF onIncompletePiece_frame(1) s1] by simp
    qed
    let ?t3 = "updatePiecePriority i ''Torrent.updatePieceCompletion'' t2"
    have n2: "i < numPieces t2" using t2(3) h1(2) assms(3) by (simp add: same_stage_def numPieces_def)
    have "pending_but ((X \<union> {i}) - {i}) ?t3" by (rule updatePiecePriority_pending [OF t2(4) n2])
    then have "pending_but (X \<union> {i}) ?t3" "i \<notin> X \<longrightarrow> pending_but X ?t3" by (auto elim: pending_but_mono)
    moreover have "swarm_inv ?t3" using same_swarm_inv [OF updatePiecePriority_frame(1) t2(2)] .
    moreover have "same_stage t ?t3"
      using same_stage_trans [OF same_stage_trans [OF st1 t2(3)] same_stage_updatePiecePriority] .
    moreover have "completedPieces ?t3 = completedPieces t1"
      using peer_frame_fields(6) [OF updatePiecePriority_frame(2) [where t = t2 and i = i and reason = "''Torrent.updatePieceCompletion''"]] t2(5)
      by simp
    moreover have "updatePieceCompletion c i t = Some (?t3, True)"
      using True t2(1) unfolding updatePieceCompletion_def Let_def t1_def [symmetric]
      by (simp add: pieceCompletionChanged_def)
    moreover have "completedPieces t1 = (if fst ?un then insert i (completedPieces t) else completedPieces t - {i})"
      by (simp add: t1_def)
    ultimately show ?thesis by (intro exI [of _ ?t3] exI [of _ True]) simp
  next
    case False
    have "?un = (i \<in> completedPieces t, i \<in> storageCompletionOk t)" using False by (simp add: pieceComplete_def)
    then have "fst ?un = (i \<in> completedPieces t)" by simp
    then have eq: "completedPieces t1 = completedPieces t" by (auto simp: t1_def)
    then have "uncachedPriority t1 j = uncachedPriority t j" for j
      using unc [of j] by (cases "j = i") (simp_all add: uncachedPriority_def purePriority_def pieceComplete_def t1_def)
    then have "pending_but X t1" using assms(4) h1(2) \<open>pendingPieces t1 = _\<close> by (simp add: pending_but_def)
    moreover have "updatePieceCompletion c i t = Some (t1, False)"
      using False unfolding updatePieceCompletion_def Let_def t1_def [symmetric] by simp
    moreover have "completedPieces t1 = (if fst ?un then insert i (completedPieces t) else completedPieces t - {i})"
      by (simp add: t1_def)
    ultimately show ?thesis using s1 st1 p1 by (intro exI [of _ t1] exI [of _ False]) simp
  qed
qed


section \<open>The pipeline of checks\<close>

lemma pending_but_change:
  assumes "pending_but X t" "pendingPieces t' = pendingPieces t" "info t' = info t"
    "\<And>j. j \<noteq> i \<Longrightarrow> uncachedPriority t' j = uncachedPriority t j"
  shows "pending_but (X \<union> {i}) t'"
  using assms by (auto simp: pending_but_def numPieces_def)

text \<open>
  The pieces being hashed and queued are pieces of the torrent, the pending pieces are exact but for
  those in \<open>X\<close>, and there are as many hashers as pieces being hashed and hashers past that (\<open>m\<close> of
  them), at most two.
\<close>

definition pipe_but :: "nat set \<Rightarrow> nat \<Rightarrow> torrent_state \<Rightarrow> bool" where
  "pipe_but X m t \<longleftrightarrow> swarm_inv t \<and> haveInfo t \<and> pending_but X t \<and>
     hashing t \<union> piecesQueuedForHash t \<subseteq> {..<numPieces t} \<and>
     activePieceHashes t = card (hashing t) + m \<and> activePieceHashes t \<le> 2"

abbreviation pipe_inv :: "nat \<Rightarrow> torrent_state \<Rightarrow> bool" where
  "pipe_inv \<equiv> pipe_but {}"

lemma pipe_swarm: "pipe_but X m t \<Longrightarrow> swarm_inv t"
  by (simp add: pipe_but_def)

lemma pipe_but_same:
  assumes "pipe_but X m t" "swarm_inv t'" "same_stage t t'" "pending_but Y t'"
  shows "pipe_but Y m t'"
  using assms by (simp add: pipe_but_def same_stage_def haveInfo_def numPieces_def)

lemma update_pipe:
  assumes "pipe_but X m t" "i < numPieces t"
  shows "pipe_but (X - {i}) m (updatePiecePriority i reason t)"
proof (rule pipe_but_same [OF assms(1)])
  show "swarm_inv (updatePiecePriority i reason t)"
    using same_swarm_inv [OF updatePiecePriority_frame(1)] assms(1) by (simp add: pipe_but_def)
  show "pending_but (X - {i}) (updatePiecePriority i reason t)"
    using updatePiecePriority_pending assms by (simp add: pipe_but_def)
qed (rule same_stage_updatePiecePriority)

lemma pipe_change:
  assumes "pipe_but X m t" "same_swarm t t'" "same_stage t t'" "pendingPieces t' = pendingPieces t"
    "\<And>j. j \<noteq> i \<Longrightarrow> uncachedPriority t' j = uncachedPriority t j"
  shows "pipe_but (X \<union> {i}) m t'"
proof (rule pipe_but_same [OF assms(1) _ assms(3)])
  show "swarm_inv t'" using same_swarm_inv [OF assms(2)] assms(1) by (simp add: pipe_but_def)
  show "pending_but (X \<union> {i}) t'"
    by (rule pending_but_change [where t = t]) (use assms in \<open>simp_all add: pipe_but_def same_stage_def\<close>)
qed

lemma find_Some: "List.find P xs = Some x \<Longrightarrow> P x \<and> x \<in> set xs"
  by (auto simp: find_Some_iff)

lemma tryCreatePieceHasher_inv:
  assumes "pipe_inv m t" "activePieceHashes t < 2" "tryCreatePieceHasher t = Some t'"
  shows "pipe_inv m t'"
proof -
  from assms(3) obtain i where i: "getPieceToHash t = Some i"
    by (auto simp: tryCreatePieceHasher_def split: if_splits option.splits)
  have fin: "finite (piecesQueuedForHash t)" "finite (hashing t)"
    using assms(1) finite_subset [of _ "{..<numPieces t}"] by (auto simp: pipe_but_def)
  have "i \<notin> hashing t \<and> i \<in> set (bitmap_iter (piecesQueuedForHash t))"
    using i unfolding getPieceToHash_def by (rule find_Some)
  then have q: "i \<notin> hashing t" "i \<in> piecesQueuedForHash t" using fin(1) by (auto simp: bitmap_iter_def)
  then have n: "i < numPieces t" using assms(1) by (auto simp: pipe_but_def)
  define t0 where "t0 = t\<lparr>piecesQueuedForHash := piecesQueuedForHash t - {i}, hashing := insert i (hashing t)\<rparr>"
  define t1 where "t1 = updatePiecePriority i ''Torrent.tryCreatePieceHasher'' t0"
  have t': "t' = t1\<lparr>activePieceHashes := activePieceHashes t1 + 1\<rparr>"
    using assms(3) i by (simp add: tryCreatePieceHasher_def Let_def t0_def t1_def split: if_splits)
  have "same_swarm t t0" by (rule same_swarm_other) (simp_all add: t0_def)
  moreover have "same_swarm t0 t1" unfolding t1_def by (rule updatePiecePriority_frame(1))
  moreover have "same_swarm t1 t'" by (rule same_swarm_other) (simp_all add: t')
  ultimately have "swarm_inv t'"
    using same_swarm_inv [OF same_swarm_trans [OF same_swarm_trans]] assms(1) by (auto simp: pipe_but_def)
  moreover have st: "same_stage t0 t1" unfolding t1_def by (rule same_stage_updatePiecePriority)
  have "pending_but ({} \<union> {i}) t0"
    by (rule pending_but_change [where t = t])
      (use assms(1) in \<open>auto simp: pipe_but_def t0_def uncachedPriority_def purePriority_def pieceComplete_def\<close>)
  then have "pending_but {} t1" unfolding t1_def
    using updatePiecePriority_pending [of "{i}" t0 i] n by (simp add: numPieces_def t0_def)
  then have "pending_but {} t'" by (simp add: t' pending_but_def uncachedPriority_def purePriority_def pieceComplete_def numPieces_def)
  ultimately show ?thesis
    using assms(1,2) st q n fin by (auto simp: pipe_but_def same_stage_def t' t0_def haveInfo_def numPieces_def)
qed

lemma tryCreateMore_inv: "pipe_inv m t \<Longrightarrow> pipe_inv m (tryCreateMorePieceHashers t)"
proof (induction t rule: tryCreateMorePieceHashers.induct)
  case (1 t)
  then show ?case using tryCreatePieceHasher_inv [OF 1(2)]
    by (subst tryCreateMorePieceHashers.simps) (auto split: option.splits)
qed

lemma queuePieceCheck_inv:
  assumes "pipe_inv m t" "i < numPieces t"
  shows "pipe_inv m (queuePieceCheck i t)"
proof (cases "i \<in> piecesQueuedForHash t")
  case False
  define t0 where "t0 = t\<lparr>piecesQueuedForHash := insert i (piecesQueuedForHash t)\<rparr>"
  define t1 where "t1 = updatePiecePriority i ''Torrent.queuePieceCheck'' t0"
  have "same_swarm t t0" by (rule same_swarm_other) (simp_all add: t0_def)
  then have "same_swarm t t1" using same_swarm_trans updatePiecePriority_frame(1) unfolding t1_def by blast
  then have sw: "swarm_inv t1" using same_swarm_inv assms(1) by (auto simp: pipe_but_def)
  have st: "same_stage t0 t1" unfolding t1_def by (rule same_stage_updatePiecePriority)
  have "pending_but ({} \<union> {i}) t0"
    by (rule pending_but_change [where t = t])
      (use assms(1) in \<open>auto simp: pipe_but_def t0_def uncachedPriority_def purePriority_def pieceComplete_def\<close>)
  then have "pending_but {} t1" unfolding t1_def
    using updatePiecePriority_pending [of "{i}" t0 i] assms(2) by (simp add: numPieces_def t0_def)
  then have "pipe_inv m t1"
    using assms sw st by (auto simp: pipe_but_def same_stage_def t0_def haveInfo_def numPieces_def)
  then show ?thesis using False tryCreateMore_inv by (simp add: queuePieceCheck_def t0_def t1_def Let_def)
qed (use assms in \<open>simp add: queuePieceCheck_def\<close>)


lemmas priority_simps = uncachedPriority_def purePriority_def pieceComplete_def

lemma piecePrio_pipe:
  assumes "pipe_inv m t" "i < numPieces t"
  shows "pipe_inv m (updatePiecePriority i reason (t\<lparr>piecePrio := (piecePrio t)(i := prio)\<rparr>))"
proof -
  let ?t = "t\<lparr>piecePrio := (piecePrio t)(i := prio)\<rparr>"
  have "pipe_but ({} \<union> {i}) m ?t"
  proof (rule pipe_change [OF assms(1)])
    show "same_swarm t ?t" by (rule same_swarm_other) simp_all
  qed (simp_all add: same_stage_def priority_simps)
  from update_pipe [OF this, of i reason] assms(2) show ?thesis by (simp add: numPieces_def)
qed

lemma SetPriority_pipe: "pipe_inv m t \<Longrightarrow> i < numPieces t \<Longrightarrow> pipe_inv m (SetPriority i prio t)"
  by (simp add: SetPriority_def piecePrio_pipe)

lemma numPieces_updatePiecePriority [simp]: "numPieces (updatePiecePriority i reason t) = numPieces t"
  using same_stage_updatePiecePriority [of t i reason] by (simp add: same_stage_def numPieces_def)

lemma numPieces_upd [simp]:
  "numPieces (t\<lparr>piecePrio := f\<rparr>) = numPieces t" "numPieces (t\<lparr>hashing := H\<rparr>) = numPieces t"
  "numPieces (t\<lparr>piecesQueuedForHash := H\<rparr>) = numPieces t" "numPieces (t\<lparr>activePieceHashes := n\<rparr>) = numPieces t"
  "numPieces (t\<lparr>readerReadaheadPieces := H\<rparr>) = numPieces t" "numPieces (t\<lparr>readerNowPieces := H\<rparr>) = numPieces t"
  by (simp_all add: numPieces_def)

lemma download_pipe: "pipe_inv m t \<Longrightarrow> \<forall>i \<in> set is. i < numPieces t \<Longrightarrow> pipe_inv m (fold download_piece is t)"
proof (induction "is" arbitrary: t)
  case (Cons i "is")
  then have "pipe_inv m (download_piece i t)" "numPieces (download_piece i t) = numPieces t"
    by (auto simp: download_piece_def piecePrio_pipe Raise_def)
  then show ?case using Cons by simp
qed simp

lemma cancel_pipe: "pipe_inv m t \<Longrightarrow> \<forall>i \<in> set is. i < numPieces t \<Longrightarrow> pipe_inv m (fold (cancel_piece reason) is t)"
proof (induction "is" arbitrary: t)
  case (Cons i "is")
  then have "pipe_inv m (cancel_piece reason i t)" "numPieces (cancel_piece reason i t) = numPieces t"
    by (auto simp: cancel_piece_def piecePrio_pipe)
  then show ?case using Cons by simp
qed simp

text \<open>A state in which only the priorities have changed is put right by going over all pieces.\<close>

lemma updatePiecePriorities_pipe:
  "pipe_but X m t \<Longrightarrow> \<forall>i \<in> set is. i < numPieces t \<Longrightarrow> pipe_but (X - set is) m (updatePiecePriorities_loop is reason t)"
proof (induction "is" arbitrary: X t)
  case (Cons i "is")
  have "pipe_but (X - {i}) m (updatePiecePriority i reason t)" using update_pipe Cons.prems by simp
  from Cons.IH [OF this] Cons.prems(2) show ?case by (simp add: Diff_insert2 [symmetric])
qed simp

lemma dropPeers_swarm:
  "swarm_inv t \<Longrightarrow> distinct ps \<Longrightarrow> set ps \<subseteq> set (conns t) \<Longrightarrow>
   \<exists>t'. dropPeers ps t = Some t' \<and> swarm_inv t' \<and> peer_frame t t'"
proof (induction ps arbitrary: t)
  case (Cons p ps)
  from dropConnection_inv [OF Cons.prems(1), of p] obtain t1 where
    t1: "dropConnection p t = Some t1" "swarm_inv t1" "conns t1 = removeAll p (conns t)" using Cons.prems(3) by auto
  then have "set ps \<subseteq> set (conns t1)" using Cons.prems(2,3) by auto
  then obtain t2 where "dropPeers ps t1 = Some t2" "swarm_inv t2" "peer_frame t1 t2"
    using Cons.IH [OF t1(2)] Cons.prems(2) by auto
  then show ?case using t1(1) peer_frame_trans [OF peer_frame_drop [OF t1(1)]] by auto
qed simp


lemma touchers_frame:
  "same_swarm t (clearPieceTouchers i t)" "same_stage t (clearPieceTouchers i t)"
  "same_swarm t (score_dirtiers good i t)" "same_stage t (score_dirtiers good i t)"
  by (simp_all add: same_swarm_def same_reqs_def same_avail_def same_stage_def clearPieceTouchers_def score_dirtiers_def)

lemma touchers_priority:
  "uncachedPriority (clearPieceTouchers i t) j = uncachedPriority t j" "pendingPieces (clearPieceTouchers i t) = pendingPieces t"
  "uncachedPriority (score_dirtiers good i t) j = uncachedPriority t j" "pendingPieces (score_dirtiers good i t) = pendingPieces t"
  by (simp_all add: clearPieceTouchers_def score_dirtiers_def priority_simps)

lemma touchers_pipe:
  assumes "pipe_but X m t"
  shows "pipe_but X m (clearPieceTouchers i (score_dirtiers good i t))"
proof -
  let ?t = "clearPieceTouchers i (score_dirtiers good i t)"
  have sw: "same_swarm t ?t" using same_swarm_trans touchers_frame by blast
  have st: "same_stage t ?t" using same_stage_trans touchers_frame by blast
  have "pending_but X ?t"
    using assms st by (simp add: pending_but_def pipe_but_def touchers_priority numPieces_def same_stage_def)
  with st show ?thesis using pipe_but_same [OF assms same_swarm_inv [OF sw pipe_swarm [OF assms]]] by blast
qed

lemma onIncomplete_pipe: "pipe_but X m t \<Longrightarrow> pipe_but X m (onIncompletePiece i t)"
  by (rule pipe_but_same, assumption)
    (auto simp: pipe_but_def onIncompletePiece_frame(2,3) intro: same_swarm_inv [OF onIncompletePiece_frame(1)])

lemma completion_pipe:
  assumes "pipe_but X m t" "i < numPieces t"
  obtains t' ch where "updatePieceCompletion c i t = Some (t', ch)" "pipe_but (X \<union> {i}) m t'" "same_stage t t'"
proof -
  obtain t' ch where t': "updatePieceCompletion c i t = Some (t', ch)" "swarm_inv t'" "same_stage t t'" "pending_but (X \<union> {i}) t'"
    using completion_inv [of t i X c] assms by (auto simp: pipe_but_def)
  then show ?thesis using that pipe_but_same [OF assms(1)] by blast
qed

lemma marking_pipe:
  assumes "pipe_but X m t" "M - {i} = marking t - {i}"
  shows "pipe_but (X \<union> {i}) m (t\<lparr>marking := M\<rparr>)"
proof -
  let ?t = "t\<lparr>marking := M\<rparr>"
  have "same_swarm t ?t" by (rule same_swarm_other) simp_all
  then have "swarm_inv ?t" using same_swarm_inv assms(1) by (auto simp: pipe_but_def)
  moreover have "pending_but (X \<union> {i}) ?t"
    by (rule pending_but_change [where t = t])
      (use assms in \<open>auto simp: pipe_but_def priority_simps\<close>)
  ultimately show ?thesis using assms(1) by (simp add: pipe_but_def haveInfo_def numPieces_def)
qed

lemma verifies_pipe: "pipe_but X m t \<Longrightarrow> pipe_but X m (t\<lparr>numVerifies := f\<rparr>)"
proof (rule pipe_but_same, assumption)
  assume "pipe_but X m t"
  moreover have "same_swarm t (t\<lparr>numVerifies := f\<rparr>)" by (rule same_swarm_other) simp_all
  ultimately show "swarm_inv (t\<lparr>numVerifies := f\<rparr>)" "pending_but X (t\<lparr>numVerifies := f\<rparr>)"
    using same_swarm_inv by (auto simp: pipe_but_def pending_but_def priority_simps numPieces_def)
qed (simp add: same_stage_def)

lemma pieceHashed_begin_pipe:
  assumes "pipe_but {i} m t" "i < numPieces t" "i \<notin> pendingPieces t"
  shows "\<exists>t' rest ban. pieceHashed_begin c i passed ioErr t = Some (t', rest, ban) \<and> pipe_but {i} m t' \<and>
    (rest \<longrightarrow> pipe_inv m t' \<and> i \<in> marking t') \<and> (rest = (passed \<and> \<not> tclosed t)) \<and> numPieces t' = numPieces t"
proof -
  define t0 where "t0 = t\<lparr>numVerifies := (numVerifies t)(i := numVerifies t i + 1)\<rparr>"
  define t1 where "t1 = t0\<lparr>marking := insert i (marking t0)\<rparr>"
  have p0: "pipe_but {i} m t0" unfolding t0_def by (rule verifies_pipe [OF assms(1)])
  have f: "numPieces t1 = numPieces t" "numPieces t0 = numPieces t" "tclosed t0 = tclosed t" "pendingPieces t1 = pendingPieces t"
    "i \<in> marking t1" by (simp_all add: t0_def t1_def numPieces_def)
  have p1: "pipe_but {i} m t1" using marking_pipe [OF p0, of _ i] by (simp add: t1_def)
  have np: "pipe_but {i} m t2 \<Longrightarrow> same_stage t1 t2 \<Longrightarrow> numPieces t2 = numPieces t" for t2
    using f(1) by (simp add: same_stage_def numPieces_def)
  consider "tclosed t" | "\<not> tclosed t" passed | "\<not> tclosed t" "\<not> passed" by blast
  then show ?thesis
  proof cases
    case 1
    then have "pieceHashed_begin c i passed ioErr t = Some (t0, False, None)"
      by (simp add: pieceHashed_begin_def t0_def)
    then show ?thesis using 1 p0 f(2) by blast
  next
    case 2
    let ?t2 = "clearPieceTouchers i (score_dirtiers True i t1)"
    have st: "same_stage t1 ?t2" using same_stage_trans touchers_frame by blast
    have p2: "pipe_but {i} m ?t2" by (rule touchers_pipe [OF p1])
    have m2: "i \<in> marking ?t2" "i \<notin> pendingPieces ?t2" using st f assms(3) by (simp_all add: same_stage_def touchers_priority)
    then have "pipe_inv m ?t2" using p2 by (auto simp: pipe_but_def pending_but_def uncachedPriority_def)
    moreover have "pieceHashed_begin c i passed ioErr t = Some (?t2, True, None)"
      unfolding pieceHashed_begin_def Let_def t0_def [symmetric] t1_def [symmetric] using 2 f(3) by simp
    ultimately show ?thesis using 2 p2 m2 np [OF p2 st] by blast
  next
    case 3
    define blame where "blame = (dirtiers t1 i \<noteq> {} \<and> pieceAllDirty t1 i \<and> \<not> ioErr)"
    define t2 where "t2 = (if blame then clearPieceTouchers i (score_dirtiers False i t1) else t1)"
    have p2: "pipe_but {i} m t2" by (simp add: t2_def touchers_pipe [OF p1] p1)
    have st2: "same_stage t1 t2" using same_stage_trans [OF touchers_frame(4) touchers_frame(2)] by (simp add: t2_def)
    let ?t3 = "onIncompletePiece i t2"
    have p3: "pipe_but {i} m ?t3" by (rule onIncomplete_pipe [OF p2])
    have st3: "same_stage t1 ?t3" by (rule same_stage_trans [OF st2 onIncompletePiece_frame(2)])
    have "i < numPieces ?t3" using np [OF p3 st3] assms(2) by simp
    from completion_pipe [OF p3 this] obtain t4 ch where
      t4: "updatePieceCompletion c i ?t3 = Some (t4, ch)" "pipe_but ({i} \<union> {i}) m t4" "same_stage ?t3 t4" .
    have p5: "pipe_but {i} m (t4\<lparr>marking := marking t4 - {i}\<rparr>)" using marking_pipe [OF t4(2), of _ i] by simp
    have "numPieces t4 = numPieces t" using np [OF _ same_stage_trans [OF st3 t4(3)]] t4(2) by simp
    moreover have "pieceHashed_begin c i passed ioErr t =
        Some (t4\<lparr>marking := marking t4 - {i}\<rparr>, False, if blame then sole_dirtier i t1 else None)"
      unfolding pieceHashed_begin_def Let_def t0_def [symmetric] t1_def [symmetric] blame_def [symmetric] t2_def [symmetric]
      using 3 f(3) t4(1) by simp
    moreover have "numPieces (t4\<lparr>marking := marking t4 - {i}\<rparr>) = numPieces t4" by (simp add: numPieces_def)
    ultimately show ?thesis using 3 p5 by auto
  qed
qed


lemma pieceHashed_marked_pipe:
  assumes "pipe_inv m t" "i < numPieces t"
  shows "\<exists>t'. pieceHashed_marked c i t = Some t' \<and> pipe_but {i} m t' \<and> numPieces t' = numPieces t"
proof (cases "tclosed t")
  case True
  then show ?thesis using marking_pipe [OF assms(1), of _ i] by (simp add: pieceHashed_marked_def numPieces_def)
next
  case False
  let ?t1 = "pendAllChunkSpecs i t"
  have p1: "pipe_inv m ?t1"
    by (rule pipe_but_same [OF assms(1) same_swarm_inv [OF pendAll_fields(1) pipe_swarm [OF assms(1)]]])
      (use assms(1) in \<open>simp_all add: pipe_but_def\<close>)
  have "i < numPieces ?t1" using assms(2) by simp
  from completion_pipe [OF p1 this] obtain t2 ch where
    t2: "updatePieceCompletion c i ?t1 = Some (t2, ch)" "pipe_but ({} \<union> {i}) m t2" "same_stage ?t1 t2" .
  have "pipe_but {i} m (t2\<lparr>marking := marking t2 - {i}\<rparr>)" using marking_pipe [OF t2(2), of _ i] by simp
  moreover have "numPieces (t2\<lparr>marking := marking t2 - {i}\<rparr>) = numPieces t"
    using same_stage_trans [OF pendAll_fields(2) t2(3)] by (simp add: same_stage_def numPieces_def)
  ultimately show ?thesis using False t2(1) by (simp add: pieceHashed_marked_def)
qed

lemma pieceHasher_end_pipe:
  assumes "pipe_but {i} (Suc m) t" "i < numPieces t"
  shows "pipe_inv m (pieceHasher_end i t)"
proof -
  define t1 where "t1 = updatePiecePriority i ''Torrent.pieceHasher'' t"
  let ?t2 = "t1\<lparr>activePieceHashes := activePieceHashes t1 - 1\<rparr>"
  have p1: "pipe_inv (Suc m) t1" using update_pipe [OF assms, of "''Torrent.pieceHasher''"] by (simp add: t1_def)
  have "same_swarm t1 ?t2" by (rule same_swarm_other) simp_all
  then have "swarm_inv ?t2" using same_swarm_inv p1 by (auto simp: pipe_but_def)
  then have "pipe_inv m ?t2"
    using p1 by (auto simp: pipe_but_def pending_but_def priority_simps numPieces_def haveInfo_def)
  then show ?thesis using tryCreateMore_inv by (simp add: pieceHasher_end_def Let_def t1_def)
qed

lemma pieceHasher_begin_pipe:
  assumes "pipe_inv m t" "i \<in> hashing t"
  shows "\<exists>t' rest ban. pieceHasher_begin bad c i correct ioErr t = Some (t', rest, ban) \<and> pipe_but {i} (Suc m) t' \<and>
    (rest \<longrightarrow> pipe_inv (Suc m) t' \<and> i \<in> marking t') \<and> numPieces t' = numPieces t"
proof -
  have sw: "swarm_inv t" by (rule pipe_swarm [OF assms(1)])
  obtain t1 where t1: "(if correct then dropPeers (filter (\<lambda>p. p \<in> bad) (conns t)) t else Some t) = Some t1"
    "swarm_inv t1" "peer_frame t t1"
  proof (cases correct)
    case True
    have "distinct (filter (\<lambda>p. p \<in> bad) (conns t))" using conns_distinct [OF sw] by simp
    then show ?thesis using that True dropPeers_swarm [OF sw, of "filter (\<lambda>p. p \<in> bad) (conns t)"] by auto
  qed (use that sw in simp)
  define t2 where "t2 = t1\<lparr>hashing := hashing t1 - {i}\<rparr>"
  have p1: "pipe_inv m t1" by (rule pipe_but_same [OF assms(1) t1(2) same_stage_frame [OF t1(3)]])
    (use assms(1) pending_but_frame [OF t1(3)] in \<open>simp add: pipe_but_def\<close>)
  have h1: "i \<in> hashing t1" "numPieces t1 = numPieces t"
    using assms(2) peer_frame_fields(1,3) [OF t1(3)] by (simp_all add: numPieces_def)
  have "hashing t1 \<subseteq> {..<numPieces t1}" using p1 by (simp add: pipe_but_def)
  with h1 have h: "i \<in> hashing t1" "i < numPieces t1" "finite (hashing t1)" "numPieces t1 = numPieces t"
    by (auto intro: finite_subset)
  have "same_swarm t1 t2" by (rule same_swarm_other) (simp_all add: t2_def)
  then have "swarm_inv t2" using same_swarm_inv t1(2) by blast
  moreover have "pending_but ({} \<union> {i}) t2"
    by (rule pending_but_change [where t = t1]) (use p1 in \<open>auto simp: pipe_but_def t2_def priority_simps\<close>)
  moreover have "card (hashing t1) = Suc (card (hashing t1 - {i}))" by (rule card.remove [OF h(3) h(1)])
  moreover have "hashing t2 = hashing t1 - {i}" "haveInfo t2 = haveInfo t1" "numPieces t2 = numPieces t1"
    "piecesQueuedForHash t2 = piecesQueuedForHash t1" "activePieceHashes t2 = activePieceHashes t1"
    by (simp_all add: t2_def haveInfo_def numPieces_def)
  ultimately have p2: "pipe_but {i} (Suc m) t2" using p1 unfolding pipe_but_def by auto
  have eq: "pieceHasher_begin bad c i correct ioErr t = pieceHashed_begin c i correct ioErr t2"
    unfolding pieceHasher_begin_def t1(1) by (simp add: t2_def)
  have np: "i \<notin> pendingPieces t2" using p1 h(1) by (auto simp: pipe_but_def pending_but_def uncachedPriority_def t2_def)
  have "i < numPieces t2" "numPieces t2 = numPieces t" using h by (simp_all add: t2_def numPieces_def)
  from pieceHashed_begin_pipe [OF p2 this(1) np, of c correct ioErr] this(2) show ?thesis
    unfolding eq by auto
qed

text \<open>
  The runs of the pipeline.  The second component lists the pieces of the hashers that have given
  up the lock to mark their piece in the storage.  \<open>PsHashed\<close> is what a hasher does once it has the
  hash of its piece, \<open>PsMarked\<close> what it does when it has the lock again.
\<close>

datatype piece_event =
    PsSetPriority nat nat
  | PsDownload nat nat
  | PsCancel nat nat
  | PsReaders "nat set" "nat set"
  | PsVerify nat
  | PsChanged completion nat
  | PsHashed "peer_id set" completion nat bool bool
  | PsMarked completion nat
  | PsDrop peer_id
  | PsClose

type_synonym pipe_state = "torrent_state \<times> nat list"

fun piece_guard :: "piece_event \<Rightarrow> pipe_state \<Rightarrow> bool" where
  "piece_guard (PsSetPriority i prio) (t, ms) \<longleftrightarrow> i < numPieces t"
| "piece_guard (PsDownload i j) (t, ms) \<longleftrightarrow> j \<le> numPieces t"
| "piece_guard (PsCancel i j) (t, ms) \<longleftrightarrow> j \<le> numPieces t"
| "piece_guard (PsReaders N R) (t, ms) \<longleftrightarrow> True"
| "piece_guard (PsVerify i) (t, ms) \<longleftrightarrow> i < numPieces t"
| "piece_guard (PsChanged c i) (t, ms) \<longleftrightarrow> i < numPieces t"
| "piece_guard (PsHashed bad c i correct ioErr) (t, ms) \<longleftrightarrow> i \<in> hashing t"
| "piece_guard (PsMarked c i) (t, ms) \<longleftrightarrow> i \<in> set ms"
| "piece_guard (PsDrop p) (t, ms) \<longleftrightarrow> p \<in> set (conns t)"
| "piece_guard PsClose (t, ms) \<longleftrightarrow> True"

fun piece_exec :: "piece_event \<Rightarrow> pipe_state \<Rightarrow> pipe_state option" where
  "piece_exec (PsSetPriority i prio) (t, ms) = Some (SetPriority i prio t, ms)"
| "piece_exec (PsDownload i j) (t, ms) = Some (downloadPiecesLocked i j t, ms)"
| "piece_exec (PsCancel i j) (t, ms) = Some (cancelPiecesLocked i j ''Torrent.CancelPieces'' t, ms)"
| "piece_exec (PsReaders N R) (t, ms) =
     Some (updateAllPiecePriorities ''reader'' (t\<lparr>readerNowPieces := N, readerReadaheadPieces := R\<rparr>), ms)"
| "piece_exec (PsVerify i) (t, ms) = Some (queuePieceCheck i t, ms)"
| "piece_exec (PsChanged c i) (t, ms) = map_option (\<lambda>(t', _). (t', ms)) (updatePieceCompletion c i t)"
| "piece_exec (PsHashed bad c i correct ioErr) (t, ms) = do {
     (t, rest, _) \<leftarrow> pieceHasher_begin bad c i correct ioErr t;
     Some (if rest then (t, i # ms) else (pieceHasher_end i t, ms))
   }"
| "piece_exec (PsMarked c i) (t, ms) = do {
     t \<leftarrow> pieceHashed_marked c i t;
     Some (pieceHasher_end i t, remove1 i ms)
   }"
| "piece_exec (PsDrop p) (t, ms) = map_option (\<lambda>t'. (t', ms)) (dropConnection p t)"
| "piece_exec PsClose (t, ms) = map_option (\<lambda>(t', _). (t', ms)) (closeTorrent t)"

inductive piece_reach :: "torrent_state \<Rightarrow> pipe_state \<Rightarrow> bool" where
  "piece_reach t (t, [])"
| "piece_reach t s \<Longrightarrow> piece_guard ev s \<Longrightarrow> piece_exec ev s = Some s' \<Longrightarrow> piece_reach t s'"


lemma closeTorrent_pipe:
  assumes "pipe_inv m t"
  obtains t' ok where "closeTorrent t = Some (t', ok)" "pipe_inv m t'" "info t' = info t"
proof (cases "tclosed t")
  case False
  let ?t = "t\<lparr>tclosed := True\<rparr>"
  have sw: "swarm_inv t" by (rule pipe_swarm [OF assms])
  have a: "avail_inv ?t" using sw by (simp add: swarm_inv_def)
  obtain t' where t': "closePeers (conns ?t) ?t = Some t'" "avail_inv t'" "conns t' = conns t" "same_reqs ?t t'" "info t' = info t"
    "\<forall>p. closed (peers t' p) \<longleftrightarrow> closed (peers t p) \<or> p \<in> set (conns t)" using closePeers_inv [OF a subset_refl] by auto
  have pf: "closePeers ps s = Some s' \<Longrightarrow> peer_frame s s'" for ps s s'
    by (induction ps arbitrary: s) (auto simp: bind_eq_Some_conv intro: peer_frame_trans [OF peer_frame_closePeer])
  have "same_swarm t ?t" by (rule same_swarm_other) simp_all
  then have "swarm_inv ?t" using same_swarm_inv sw by blast
  then have p1: "pipe_inv m ?t" using assms by (simp add: pipe_but_def pending_but_def priority_simps haveInfo_def numPieces_def)
  have "swarm_inv t'" using \<open>swarm_inv ?t\<close> t'(2,4) same_reqs_inv by (auto simp: swarm_inv_def)
  then have "pipe_inv m t'"
    by (rule pipe_but_same [OF p1 _ same_stage_frame [OF pf [OF t'(1)]]])
      (use p1 pending_but_frame [OF pf [OF t'(1)]] in \<open>simp add: pipe_but_def\<close>)
  moreover have "closeTorrent t = Some (t', True)"
    using False t'(1) all_closed_zero(2) [OF t'(2)] t'(3,6) by (simp add: closeTorrent_def)
  ultimately show ?thesis using that t'(5) by blast
qed (use assms that [of t False] in \<open>simp add: closeTorrent_def\<close>)

definition pipeline_inv :: "pipe_state \<Rightarrow> bool" where
  "pipeline_inv s \<longleftrightarrow> pipe_inv (length (snd s)) (fst s) \<and> (\<forall>i \<in> set (snd s). i < numPieces (fst s))"

lemma tryCreateMore_numPieces [simp]: "numPieces (tryCreateMorePieceHashers t) = numPieces t"
proof (induction t rule: tryCreateMorePieceHashers.induct)
  case (1 t)
  have "numPieces t' = numPieces t" if "tryCreatePieceHasher t = Some t'" for t'
    using that by (auto simp: tryCreatePieceHasher_def Let_def split: if_splits option.splits)
  then show ?case using 1 by (subst tryCreateMorePieceHashers.simps) (auto split: option.splits)
qed

lemma readers_pipe:
  assumes "pipe_inv m t"
  shows "pipe_inv m (updateAllPiecePriorities reason (t\<lparr>readerNowPieces := N, readerReadaheadPieces := R\<rparr>))"
proof -
  let ?t = "t\<lparr>readerNowPieces := N, readerReadaheadPieces := R\<rparr>"
  have "same_swarm t ?t" by (rule same_swarm_other) simp_all
  then have sw: "swarm_inv ?t" using same_swarm_inv pipe_swarm [OF assms] by blast
  have "j \<in> pendingPieces t \<Longrightarrow> j < numPieces t" for j using assms by (auto simp: pipe_but_def pending_but_def)
  then have "pending_but {..<numPieces t} ?t" by (auto simp: pending_but_def numPieces_def)
  then have "pipe_but {..<numPieces t} m ?t"
    by (intro pipe_but_same [OF assms sw]) (simp_all add: same_stage_def)
  moreover have "numPieces ?t = numPieces t" by (simp add: numPieces_def)
  ultimately have "pipe_but ({..<numPieces t} - set [0..<numPieces t]) m (updatePiecePriorities_loop [0..<numPieces t] reason ?t)"
    by (intro updatePiecePriorities_pipe) simp_all
  then show ?thesis using \<open>numPieces ?t = _\<close> by (simp add: updateAllPiecePriorities_def updatePiecePriorities_def lessThan_atLeast0)
qed


lemma numPieces_exec [simp]:
  "numPieces (SetPriority i prio t) = numPieces t" "numPieces (queuePieceCheck i t) = numPieces t"
  "numPieces (pieceHasher_end i t) = numPieces t"
  by (simp_all add: SetPriority_def queuePieceCheck_def pieceHasher_end_def Let_def)

lemma numPieces_folds [simp]:
  "numPieces (fold download_piece is t) = numPieces t" "numPieces (fold (cancel_piece reason) is t) = numPieces t"
  "numPieces (updatePiecePriorities_loop is reason t) = numPieces t"
  by (induction "is" arbitrary: t) (simp_all add: download_piece_def cancel_piece_def split: prod.split)

lemma piece_exec_safe:
  assumes "pipeline_inv s" "piece_guard ev s"
  shows "\<exists>s'. piece_exec ev s = Some s' \<and> pipeline_inv s'"
proof -
  obtain t ms where s: "s = (t, ms)" by (cases s)
  have p: "pipe_inv (length ms) t" and m: "\<forall>i \<in> set ms. i < numPieces t" using assms(1) by (simp_all add: s pipeline_inv_def)
  have inv: "pipe_inv (length ms) t' \<Longrightarrow> numPieces t' = numPieces t \<Longrightarrow> pipeline_inv (t', ms)" for t'
    using m by (simp add: pipeline_inv_def)
  show ?thesis
  proof (cases ev)
    case (PsHashed bad c i correct ioErr)
    then have i: "i \<in> hashing t" "i < numPieces t" using assms(2) p by (auto simp: s pipe_but_def)
    obtain t' rest ban where t': "pieceHasher_begin bad c i correct ioErr t = Some (t', rest, ban)"
      "pipe_but {i} (Suc (length ms)) t'" "rest \<longrightarrow> pipe_inv (Suc (length ms)) t'" "numPieces t' = numPieces t"
      using pieceHasher_begin_pipe [OF p i(1), of bad c correct ioErr] by blast
    then show ?thesis using PsHashed s i(2) m pieceHasher_end_pipe [OF t'(2)] by (auto simp: pipeline_inv_def)
  next
    case (PsMarked c i)
    then have i: "i \<in> set ms" "i < numPieces t" using assms(2) m by (auto simp: s)
    then obtain n where n: "length ms = Suc n" by (cases ms) auto
    obtain t' where t': "pieceHashed_marked c i t = Some t'" "pipe_but {i} (length ms) t'" "numPieces t' = numPieces t"
      using pieceHashed_marked_pipe [OF p i(2)] by blast
    then have "pipe_inv n (pieceHasher_end i t')" using pieceHasher_end_pipe i(2) n by simp
    then show ?thesis using PsMarked s t'(1,3) i m n by (auto simp: pipeline_inv_def length_remove1 dest: notin_set_remove1)
  next
    case (PsDrop p)
    then obtain t' where t': "dropConnection p t = Some t'" "swarm_inv t'" "info t' = info t"
      using dropConnection_inv [OF pipe_swarm [OF p], of p] assms(2) s by auto
    have "pipe_inv (length ms) t'"
      by (rule pipe_but_same [OF p t'(2) same_stage_frame [OF peer_frame_drop [OF t'(1)]]])
        (use p pending_but_frame [OF peer_frame_drop [OF t'(1)]] in \<open>simp add: pipe_but_def\<close>)
    then show ?thesis using PsDrop s t' inv by (simp add: numPieces_def)
  next
    case (PsChanged c i)
    then have i: "i < numPieces t" using assms(2) s by simp
    obtain t' ch where t': "updatePieceCompletion c i t = Some (t', ch)" "swarm_inv t'" "same_stage t t'" "pending_but {} t'"
      using completion_inv [of t i "{}" c] p i by (auto simp: pipe_but_def)
    then show ?thesis using PsChanged s inv [OF pipe_but_same [OF p t'(2-4)]] by (simp add: same_stage_def numPieces_def)
  next
    case PsClose
    obtain t' ok where "closeTorrent t = Some (t', ok)" "pipe_inv (length ms) t'" "info t' = info t"
      by (rule closeTorrent_pipe [OF p])
    then show ?thesis using PsClose s inv by (simp add: numPieces_def)
  qed (use assms(2) p in \<open>auto simp: s downloadPiecesLocked_def cancelPiecesLocked_def updateAllPiecePriorities_def
      updatePiecePriorities_def intro!: inv SetPriority_pipe download_pipe cancel_pipe queuePieceCheck_inv
      readers_pipe [unfolded updateAllPiecePriorities_def updatePiecePriorities_def, simplified]\<close>)
qed

lemma piece_reach_inv: "piece_reach t s \<Longrightarrow> pipe_inv 0 t \<Longrightarrow> pipeline_inv s"
proof (induction rule: piece_reach.induct)
  case (1 t)
  then show ?case by (simp add: pipeline_inv_def)
next
  case (2 t s ev s')
  then show ?case using piece_exec_safe [of s ev] by fastforce
qed



definition sample_wanted :: torrent_state where
  "sample_wanted = sample_torrent\<lparr>storageOpen := True, piecePrio := (\<lambda>_. 1), pendingPieces := {0, 1, 2}\<rparr>"

lemma sample_wanted_pipe: "pipe_inv 0 sample_wanted"
proof -
  have "same_swarm sample_torrent sample_wanted" by (rule same_swarm_other) (simp_all add: sample_wanted_def)
  moreover have "swarm_inv sample_torrent" using sample_avail_inv sample_req_inv by (simp add: swarm_inv_def)
  ultimately have "swarm_inv sample_wanted" by (rule same_swarm_inv)
  moreover have "numPieces sample_wanted = 3"
    by (simp add: numPieces_def sample_wanted_def sample_torrent_def sample_geom_def)
  moreover have "uncachedPriority sample_wanted j = 1" for j
    by (simp add: priority_simps Raise_def sample_wanted_def sample_torrent_def)
  ultimately show ?thesis
    by (auto simp: pipe_but_def pending_but_def sample_wanted_def haveInfo_def) (auto simp: sample_torrent_def)
qed


lemma tryCreateMore_saturates:
  "let t' = tryCreateMorePieceHashers t in
     tclosed t' \<or> activePieceHashes t' \<ge> 2 \<or> \<not> storageOpen t' \<or>
     (finite (piecesQueuedForHash t') \<longrightarrow> piecesQueuedForHash t' \<subseteq> hashing t')"
proof (induction t rule: tryCreateMorePieceHashers.induct)
  case (1 t)
  have "piecesQueuedForHash t \<subseteq> hashing t" if "tryCreatePieceHasher t = None" "storageOpen t" "finite (piecesQueuedForHash t)"
    using that by (auto simp: tryCreatePieceHasher_def getPieceToHash_def Let_def find_None_iff split: option.splits)
  then show ?case using 1 by (subst tryCreateMorePieceHashers.simps) (auto simp: Let_def split: option.splits)
qed

text \<open>
  C21. Hashing never stalls.  A hasher that ends starts others, and stops doing so only when the torrent is closed, two hashers are at work, the storage is shut, or every queued
  piece is already being hashed.
\<close>

theorem hashing_never_stalls:
  assumes "pipe_but {i} (Suc m) t" "i < numPieces t"
  shows "let t' = pieceHasher_end i t in
     pipe_inv m t' \<and>
     (tclosed t' \<or> activePieceHashes t' = 2 \<or> \<not> storageOpen t' \<or> piecesQueuedForHash t' \<subseteq> hashing t')"
proof -
  let ?t' = "pieceHasher_end i t"
  have p: "pipe_inv m ?t'" by (rule pieceHasher_end_pipe [OF assms])
  then have "finite (piecesQueuedForHash ?t')" using finite_subset [of _ "{..<numPieces ?t'}"] by (auto simp: pipe_but_def)
  moreover have "activePieceHashes ?t' \<le> 2" using p by (simp add: pipe_but_def)
  moreover obtain s where "?t' = tryCreateMorePieceHashers s" by (simp add: pieceHasher_end_def Let_def)
  ultimately show ?thesis using p tryCreateMore_saturates [of s] by (auto simp: Let_def)
qed

theorem hashing_never_stalls_witness:
  "let t' = pieceHasher_end 0 (sample_wanted\<lparr>activePieceHashes := 1\<rparr>) in
     pipe_inv 0 t' \<and> (tclosed t' \<or> activePieceHashes t' = 2 \<or> \<not> storageOpen t' \<or> piecesQueuedForHash t' \<subseteq> hashing t')"
proof -
  let ?t = "sample_wanted\<lparr>activePieceHashes := 1\<rparr>"
  have h: "hashing sample_wanted = {}" "numPieces sample_wanted = 3"
    by (simp_all add: numPieces_def sample_wanted_def sample_torrent_def sample_geom_def)
  have "same_swarm sample_wanted ?t" by (rule same_swarm_other) simp_all
  then have "swarm_inv ?t" using same_swarm_inv pipe_swarm [OF sample_wanted_pipe] by blast
  then have "pipe_but {0} (Suc 0) ?t"
    using sample_wanted_pipe h by (auto simp: pipe_but_def haveInfo_def pending_but_def priority_simps)
  from hashing_never_stalls [OF this] h(2) show ?thesis by simp
qed

end
