(* ===== verification/Bencode.thy ===== *)
theory Bencode
  imports Torrent_Prelude "HOL-Library.List_Lexorder"
begin

text \<open>
  Package \<^verbatim>\<open>bencode\<close>, values of type \<^verbatim>\<open>interface{}\<close>: the decoder (\<^verbatim>\<open>decode.go\<close>) and what
  the encoder (\<^verbatim>\<open>encode.go\<close>) writes for its results.  The decoder reads a finite stream; what the
  code throws with \<^verbatim>\<open>panic\<close> is \<open>Throw\<close>, and running out of fuel is a third outcome, which the fuel
  \<open>decode_fuel\<close> of a stream rules out.  Strings are compared as Go does, byte by byte.
\<close>

section \<open>Numbers in text\<close>

abbreviation (input) ch_plus :: byte where "ch_plus \<equiv> 43"
abbreviation (input) ch_minus :: byte where "ch_minus \<equiv> 45"
abbreviation (input) ch_0 :: byte where "ch_0 \<equiv> 48"
abbreviation (input) ch_1 :: byte where "ch_1 \<equiv> 49"
abbreviation (input) ch_9 :: byte where "ch_9 \<equiv> 57"
abbreviation (input) ch_colon :: byte where "ch_colon \<equiv> 58"
abbreviation (input) ch_d :: byte where "ch_d \<equiv> 100"
abbreviation (input) ch_e :: byte where "ch_e \<equiv> 101"
abbreviation (input) ch_i :: byte where "ch_i \<equiv> 105"
abbreviation (input) ch_l :: byte where "ch_l \<equiv> 108"

text \<open>\<^verbatim>\<open>strconv\<close>: base ten, 64 bits; a range error is raised at the digit that overflows.\<close>

datatype num_error = ErrSyntax | ErrRange

fun parse_digits :: "bytes \<Rightarrow> nat \<Rightarrow> num_error + nat" where
  "parse_digits [] n = Inr n"
| "parse_digits (c # cs) n =
     (if c < ch_0 \<or> ch_9 < c then Inl ErrSyntax
      else
        let n1 = n * 10 + (unat c - 48) in
        if n1 \<ge> 2 ^ 64 then Inl ErrRange else parse_digits cs n1)"

definition ParseUint :: "bytes \<Rightarrow> num_error + nat" where
  "ParseUint s = (if s = [] then Inl ErrSyntax else parse_digits s 0)"

definition split_sign :: "bytes \<Rightarrow> bool \<times> bytes" where
  "split_sign s =
     (case s of [] \<Rightarrow> (False, [])
      | c # cs \<Rightarrow> if c = ch_minus then (True, cs) else if c = ch_plus then (False, cs) else (False, s))"

definition ParseInt :: "bytes \<Rightarrow> num_error + int" where
  "ParseInt s =
     (if s = [] then Inl ErrSyntax
      else case split_sign s of (neg, s') \<Rightarrow>
        (case ParseUint s' of
           Inl e \<Rightarrow> Inl e
         | Inr un \<Rightarrow>
             if \<not> neg \<and> un \<ge> 2 ^ 63 then Inl ErrRange
             else if neg \<and> un > 2 ^ 63 then Inl ErrRange
             else Inr (if neg then - int un else int un)))"

text \<open>\<^verbatim>\<open>big.Int.SetString\<close> in base ten.\<close>

definition is_digit :: "byte \<Rightarrow> bool" where
  "is_digit c \<longleftrightarrow> ch_0 \<le> c \<and> c \<le> ch_9"

definition digits_value :: "bytes \<Rightarrow> nat" where
  "digits_value = foldl (\<lambda>n c. n * 10 + (unat c - 48)) 0"

definition big_SetString :: "bytes \<Rightarrow> int option" where
  "big_SetString s =
     (case split_sign s of (neg, s') \<Rightarrow>
        if s' \<noteq> [] \<and> list_all is_digit s' then Some (if neg then - int (digits_value s') else int (digits_value s'))
        else None)"

text \<open>\<^verbatim>\<open>strconv.AppendInt\<close> and \<^verbatim>\<open>big.Int.String\<close>.\<close>

fun AppendUint :: "nat \<Rightarrow> bytes" where
  "AppendUint n = (if n < 10 then [word_of_nat (48 + n)] else AppendUint (n div 10) @ [word_of_nat (48 + n mod 10)])"

declare AppendUint.simps [simp del]

definition AppendInt :: "int \<Rightarrow> bytes" where
  "AppendInt n = (if n < 0 then ch_minus # AppendUint (nat (- n)) else AppendUint (nat n))"

section \<open>The decoder\<close>

datatype what =
    WUnexpectedEOF | WNum num_error | WUnknownType byte | WNonStringKey | WUnsorted bytes bytes | WMissing bytes
  | WFailedInt | WUnexpectedE | WInputError

text \<open>
  Errors: \<open>EValue\<close> is the \<^verbatim>\<open>reflect.ValueError\<close> of a call on a value of the wrong kind, \<open>EKey\<close> and
  \<open>EField\<close> wrap what went wrong with a key or the value of a key, and \<open>ECrash\<close> is a panic that is not an
  error or is a runtime error, which \<^verbatim>\<open>Decode\<close> does not recover from.
\<close>

datatype berror =
    EEOF | EErrUnexpectedEOF | ESyntax int what | ELeadingDigit | EStrLen int | EShort nat int
  | EUnmarshalType string | EValue | EUnmarshaler | EDictInto
  | EKey berror | EField bytes berror | EMissing bytes | EParsing bytes
  | EMarshalType | EMarshaler | EUnused nat | ECrash

record decoder =
  dinput :: bytes
  dOffset :: int
  dbuf :: bytes
  dMaxStrLen :: int

datatype 'a res = NoFuel | Throw berror | Ret 'a decoder

definition rbind :: "'a res \<Rightarrow> ('a \<Rightarrow> decoder \<Rightarrow> 'b res) \<Rightarrow> 'b res" where
  "rbind m f = (case m of NoFuel \<Rightarrow> NoFuel | Throw e \<Rightarrow> Throw e | Ret x d \<Rightarrow> f x d)"

lemma rbind_simps [simp]:
  "rbind NoFuel f = NoFuel" "rbind (Throw e) f = Throw e" "rbind (Ret x d) f = f x d"
  by (simp_all add: rbind_def)

abbreviation (input) DefaultDecodeMaxStrLen :: int where "DefaultDecodeMaxStrLen \<equiv> 134217727"

definition getMaxStrLen :: "decoder \<Rightarrow> int" where
  "getMaxStrLen d = (if dMaxStrLen d = 0 then DefaultDecodeMaxStrLen else dMaxStrLen d)"

lemma getMaxStrLen_upd [simp]:
  "getMaxStrLen (d\<lparr>dinput := i\<rparr>) = getMaxStrLen d" "getMaxStrLen (d\<lparr>dOffset := off\<rparr>) = getMaxStrLen d"
  "getMaxStrLen (d\<lparr>dbuf := b\<rparr>) = getMaxStrLen d"
  by (simp_all add: getMaxStrLen_def)

definition readByte :: "decoder \<Rightarrow> byte res" where
  "readByte d =
     (case dinput d of
        [] \<Rightarrow> Throw (ESyntax (dOffset d) WUnexpectedEOF)
      | b # bs \<Rightarrow> Ret b (d\<lparr>dinput := bs, dOffset := dOffset d + 1\<rparr>))"

function readUntil :: "byte \<Rightarrow> decoder \<Rightarrow> unit res" where
  "readUntil sep d =
     (case readByte d of
        NoFuel \<Rightarrow> NoFuel
      | Throw e \<Rightarrow> Throw e
      | Ret b d \<Rightarrow> if b = sep then Ret () d else readUntil sep (d\<lparr>dbuf := dbuf d @ [b]\<rparr>))"
  by pat_completeness auto
termination
  by (relation "measure (\<lambda>(sep, d). length (dinput d))") (auto simp: readByte_def split: list.splits)

declare readUntil.simps [simp del]

definition checkBufferedInt :: "decoder \<Rightarrow> berror option" where
  "checkBufferedInt d =
     (let b = dbuf d in
      if length b \<le> 1 then None
      else
        let b = (if hd b = ch_minus then tl b else b) in
        if hd b < ch_1 \<or> ch_9 < hd b then Some ELeadingDigit else None)"

definition readInt :: "decoder \<Rightarrow> berror option res" where
  "readInt d = rbind (readUntil ch_e d) (\<lambda>_ d. Ret (checkBufferedInt d) d)"

definition parseStringLength :: "decoder \<Rightarrow> (int \<times> berror option) res" where
  "parseStringLength d =
     (let start = dOffset d - 1 in
      rbind (readUntil ch_colon d) (\<lambda>_ d.
        case checkBufferedInt d of
          Some e \<Rightarrow> Ret (0, Some e) d
        | None \<Rightarrow>
            (case ParseInt (dbuf d) of
               Inl e \<Rightarrow> Throw (ESyntax start (WNum e))
             | Inr len \<Rightarrow>
                 Ret (len, if len > getMaxStrLen d then Some (EStrLen len) else None) (d\<lparr>dbuf := []\<rparr>))))"

definition readBytes :: "int \<Rightarrow> decoder \<Rightarrow> bytes res" where
  "readBytes len d =
     (let b = take (nat len) (dinput d) in
      if int (length b) \<noteq> len then Throw (EShort (length b) len)
      else Ret b (d\<lparr>dinput := drop (nat len) (dinput d)\<rparr>))"

section \<open>Values of type interface\<close>

text \<open>
  What \<^verbatim>\<open>parseValueInterface\<close> makes: an \<^verbatim>\<open>int64\<close>, a \<^verbatim>\<open>*big.Int\<close>, a string, a slice or a map; a map is
  the list of its entries in the order they were added.
\<close>

datatype bvalue = BInt int | BBig int | BStr bytes | BList "bvalue list" | BDict "(bytes \<times> bvalue) list"

definition parseIntInterface :: "decoder \<Rightarrow> bvalue res" where
  "parseIntInterface d =
     (let start = dOffset d - 1 in
      rbind (readInt d) (\<lambda>err d.
        case err of
          Some e \<Rightarrow> Throw e
        | None \<Rightarrow>
            (case ParseInt (dbuf d) of
               Inr n \<Rightarrow> Ret (BInt n) (d\<lparr>dbuf := []\<rparr>)
             | Inl ErrRange \<Rightarrow>
                 (case big_SetString (dbuf d) of
                    None \<Rightarrow> Throw (ESyntax start WFailedInt)
                  | Some i \<Rightarrow> Ret (BBig i) (d\<lparr>dbuf := []\<rparr>))
             | Inl ErrSyntax \<Rightarrow> Throw (ESyntax start (WNum ErrSyntax)))))"

definition parseStringInterface :: "decoder \<Rightarrow> bytes res" where
  "parseStringInterface d =
     rbind (parseStringLength d) (\<lambda>(len, err) d.
       case err of
         Some e \<Rightarrow> Throw e
       | None \<Rightarrow> rbind (readBytes len d) (\<lambda>b d. Ret b (d\<lparr>dOffset := dOffset d + int (length b)\<rparr>)))"

text \<open>
  \<open>None\<close> is the pair \<^verbatim>\<open>nil, false\<close> of an end byte.  The loops over the entries of a dict and the
  elements of a list are functions of what has been read so far.
\<close>

fun parseValueInterface :: "nat \<Rightarrow> decoder \<Rightarrow> bvalue option res"
  and parseDictInterface :: "nat \<Rightarrow> bytes option \<Rightarrow> (bytes \<times> bvalue) list \<Rightarrow> decoder \<Rightarrow> bvalue res"
  and parseListInterface :: "nat \<Rightarrow> bvalue list \<Rightarrow> decoder \<Rightarrow> bvalue res" where
  "parseValueInterface 0 d = NoFuel"
| "parseValueInterface (Suc n) d =
     (case dinput d of
        [] \<Rightarrow> Throw EEOF
      | b # bs \<Rightarrow>
          let d = d\<lparr>dinput := bs, dOffset := dOffset d + 1\<rparr> in
          if b = ch_e then Ret None d
          else if b = ch_d then rbind (parseDictInterface n None [] d) (\<lambda>v. Ret (Some v))
          else if b = ch_l then rbind (parseListInterface n [] d) (\<lambda>v. Ret (Some v))
          else if b = ch_i then rbind (parseIntInterface d) (\<lambda>v. Ret (Some v))
          else if is_digit b then rbind (parseStringInterface (d\<lparr>dbuf := dbuf d @ [b]\<rparr>)) (\<lambda>s. Ret (Some (BStr s)))
          else Throw (ESyntax (dOffset d - 1) (WUnknownType b)))"
| "parseDictInterface 0 lastKey dict d = NoFuel"
| "parseDictInterface (Suc n) lastKey dict d =
     (let start = dOffset d in
      rbind (parseValueInterface n d) (\<lambda>keyi d.
        case keyi of
          None \<Rightarrow> Ret (BDict dict) d
        | Some (BStr key) \<Rightarrow>
            if lastKey \<noteq> None \<and> key \<le> the lastKey then Throw (ESyntax start (WUnsorted key (the lastKey)))
            else
              let start = dOffset d in
              rbind (parseValueInterface n d) (\<lambda>valuei d.
                case valuei of
                  None \<Rightarrow> Throw (ESyntax start (WMissing key))
                | Some v \<Rightarrow> parseDictInterface n (Some key) (dict @ [(key, v)]) d)
        | Some _ \<Rightarrow> Throw (ESyntax (dOffset d) WNonStringKey)))"
| "parseListInterface 0 list d = NoFuel"
| "parseListInterface (Suc n) list d =
     rbind (parseValueInterface n d) (\<lambda>valuei d.
       case valuei of None \<Rightarrow> Ret (BList list) d | Some v \<Rightarrow> parseListInterface n (list @ [v]) d)"

section \<open>What the encoder writes\<close>

definition enc_string :: "bytes \<Rightarrow> bytes" where
  "enc_string s = AppendInt (int (length s)) @ [ch_colon] @ s"

fun encode_value :: "bvalue \<Rightarrow> bytes" where
  "encode_value (BInt n) = [ch_i] @ AppendInt n @ [ch_e]"
| "encode_value (BBig n) = [ch_i] @ AppendInt n @ [ch_e]"
| "encode_value (BStr s) = enc_string s"
| "encode_value (BList vs) = [ch_l] @ concat (map encode_value vs) @ [ch_e]"
| "encode_value (BDict kvs) =
     [ch_d] @ concat (map (\<lambda>(k, e). enc_string k @ e) (sort_key fst (map (\<lambda>(k, v). (k, encode_value v)) kvs))) @ [ch_e]"


section \<open>Numbers: printing and parsing\<close>

lemma unat_byte_of [simp]: "n < 256 \<Longrightarrow> unat (word_of_nat n :: byte) = n"
  by (simp add: unat_of_nat)

lemma is_digit_nat: "is_digit c \<longleftrightarrow> 48 \<le> unat c \<and> unat c \<le> 57"
  by (simp add: is_digit_def word_le_nat_alt)

lemma digit_of [simp]: "k < 10 \<Longrightarrow> is_digit (word_of_nat (48 + k))"
  by (simp add: is_digit_nat del: of_nat_add)

lemma digit_eq: "is_digit c \<Longrightarrow> word_of_nat (48 + (unat c - 48)) = c"
  by (simp add: is_digit_nat)

lemma digits_value_snoc [simp]: "digits_value (s @ [c]) = digits_value s * 10 + (unat c - 48)"
  by (simp add: digits_value_def)

lemma digits_value_Nil [simp]: "digits_value [] = 0"
  by (simp add: digits_value_def)

lemma AppendUint_props: "list_all is_digit (AppendUint n) \<and> AppendUint n \<noteq> [] \<and> digits_value (AppendUint n) = n \<and>
  (n \<noteq> 0 \<longrightarrow> hd (AppendUint n) \<noteq> ch_0) \<and> (n < 10 \<longleftrightarrow> length (AppendUint n) = 1)"
proof (induction n rule: AppendUint.induct)
  case (1 n)
  show ?case
  proof (cases "n < 10")
    case True
    have "(word_of_nat (48 + n) :: byte) \<noteq> 48" if "0 < n"
    proof
      assume "(word_of_nat (48 + n) :: byte) = 48"
      then have "unat (word_of_nat (48 + n) :: byte) = unat (48 :: byte)" by simp
      then show False using True that by (simp del: of_nat_add)
    qed
    then show ?thesis using True digits_value_snoc [of "[]" "word_of_nat (48 + n)"]
      by (simp add: AppendUint.simps [of n] del: of_nat_add)
  next
    case False
    then have "n div 10 \<noteq> 0" by auto
    then show ?thesis using 1 False
      by (simp add: AppendUint.simps [of n] digits_value_snoc del: of_nat_add)
  qed
qed

lemma digits_value_pos:
  "list_all is_digit s \<Longrightarrow> s \<noteq> [] \<Longrightarrow> hd s \<noteq> ch_0 \<Longrightarrow> digits_value s > 0"
proof (induction s rule: rev_induct)
  case (snoc c s)
  show ?case
  proof (cases "s = []")
    case True
    then have "unat c \<noteq> 48" using snoc.prems(3) by (auto simp: word_unat_eq_iff)
    then show ?thesis using True snoc.prems(1) digits_value_snoc [of "[]" c] by (simp add: is_digit_nat)
  qed (use snoc in auto)
qed simp

lemma AppendUint_canonical:
  "list_all is_digit s \<Longrightarrow> s \<noteq> [] \<Longrightarrow> hd s \<noteq> ch_0 \<or> length s = 1 \<Longrightarrow> AppendUint (digits_value s) = s"
proof (induction s rule: rev_induct)
  case (snoc c s)
  have c: "is_digit c" "unat c - 48 < 10" using snoc.prems(1) by (simp_all add: is_digit_nat) linarith
  show ?case
  proof (cases "s = []")
    case True
    then show ?thesis using c digits_value_snoc [of "[]" c] digit_eq [OF c(1)]
      by (simp add: AppendUint.simps [of "unat c - 48"])
  next
    case False
    then have h: "hd s \<noteq> ch_0" "list_all is_digit s" using snoc.prems by auto
    then have pos: "digits_value s > 0" using digits_value_pos False by blast
    have v: "(digits_value s * 10 + (unat c - 48)) div 10 = digits_value s" "(digits_value s * 10 + (unat c - 48)) mod 10 = unat c - 48"
      using c(2) by simp_all
    have "AppendUint (digits_value s) = s" using snoc.IH h False by blast
    then show ?thesis unfolding digits_value_snoc
      by (subst AppendUint.simps) (use pos v digit_eq [OF c(1)] in simp)
  qed
qed simp

lemma parse_digits_value:
  "list_all is_digit s \<Longrightarrow> n < 2 ^ 64 \<Longrightarrow>
   parse_digits s n = (let v = foldl (\<lambda>n c. n * 10 + (unat c - 48)) n s in if v < 2 ^ 64 then Inr v else Inl ErrRange)"
proof (induction s arbitrary: n)
  case (Cons c s)
  have mono: "n \<le> foldl (\<lambda>n c. n * 10 + (unat c - 48)) n s" for n and s :: bytes
  proof (induction s arbitrary: n)
    case (Cons c s)
    show ?case using Cons.IH [of "n * 10 + (unat c - 48)"] by simp
  qed simp
  have "\<not> (c < ch_0 \<or> ch_9 < c)" using Cons.prems(1) by (auto simp: is_digit_def)
  then show ?case using Cons mono [of "n * 10 + (unat c - 48)" s] by (auto simp: Let_def simp del: power_numeral)
qed (simp add: Let_def)

lemma parse_digits_Inr: "parse_digits s n = Inr v \<Longrightarrow> list_all is_digit s"
  by (induction s arbitrary: n) (auto simp: is_digit_def Let_def split: if_splits)

lemma ParseUint_digits:
  "list_all is_digit s \<Longrightarrow> s \<noteq> [] \<Longrightarrow> ParseUint s = (if digits_value s < 2 ^ 64 then Inr (digits_value s) else Inl ErrRange)"
  using parse_digits_value [of s 0] by (simp add: ParseUint_def digits_value_def Let_def)

lemma ParseUint_Inr: "ParseUint s = Inr v \<Longrightarrow> list_all is_digit s \<and> s \<noteq> [] \<and> v = digits_value s"
  using parse_digits_Inr [of s 0 v] ParseUint_digits [of s] by (auto simp: ParseUint_def split: if_splits)

lemma digit_sign: "list_all is_digit s \<Longrightarrow> split_sign s = (False, s)"
  by (cases s) (auto simp: split_sign_def is_digit_nat)

lemma ParseInt_AppendInt:
  "ParseInt (AppendInt n) = (if - (2 ^ 63) \<le> n \<and> n < 2 ^ 63 then Inr n else Inl ErrRange)"
proof (cases "n < 0")
  case True
  have p: "list_all is_digit (AppendUint (nat (- n)))" "AppendUint (nat (- n)) \<noteq> []" "digits_value (AppendUint (nat (- n))) = nat (- n)"
    using AppendUint_props by blast+
  then show ?thesis using True
    by (auto simp: ParseInt_def AppendInt_def split_sign_def ParseUint_digits [OF p(1,2)])
next
  case False
  have p: "list_all is_digit (AppendUint (nat n))" "AppendUint (nat n) \<noteq> []" "digits_value (AppendUint (nat n)) = nat n"
    using AppendUint_props by blast+
  then show ?thesis using False
    by (auto simp: ParseInt_def AppendInt_def digit_sign [OF p(1)] ParseUint_digits [OF p(1,2)])
qed

lemma big_AppendInt: "big_SetString (AppendInt n) = Some n"
proof (cases "n < 0")
  case True
  then show ?thesis using AppendUint_props [of "nat (- n)"] by (simp add: big_SetString_def AppendInt_def split_sign_def)
next
  case False
  then show ?thesis using AppendUint_props [of "nat n"] digit_sign by (simp add: big_SetString_def AppendInt_def)
qed


lemma canonical_text:
  assumes "checkBufferedInt d = None" "split_sign (dbuf d) = (neg, s)" "list_all is_digit s" "s \<noteq> []"
  shows "dbuf d = AppendInt (if neg then - int (digits_value s) else int (digits_value s))"
proof -
  obtain c cs where c: "dbuf d = c # cs" using assms(2,4) by (cases "dbuf d") (auto simp: split_sign_def)
  consider "c = ch_minus" | "c = ch_plus" | "c \<noteq> ch_minus" "c \<noteq> ch_plus" by blast
  then show ?thesis
  proof cases
    case 1
    then have s: "neg" "s = cs" using assms(2) c by (auto simp: split_sign_def)
    then have "hd s \<noteq> ch_0" using assms(1,4) c 1 by (auto simp: checkBufferedInt_def Let_def split: if_splits)
    then have "digits_value s > 0" "AppendUint (digits_value s) = s"
      using digits_value_pos AppendUint_canonical assms(3,4) by blast+
    then show ?thesis using s c 1 by (simp add: AppendInt_def)
  next
    case 2
    then have "s = cs" using assms(2) c by (auto simp: split_sign_def)
    then show ?thesis using assms(1,4) c 2 by (cases cs) (auto simp: checkBufferedInt_def Let_def)
  next
    case 3
    then have s: "\<not> neg" "s = dbuf d" using assms(2) c by (auto simp: split_sign_def)
    then have "hd s \<noteq> ch_0 \<or> length s = 1" using assms(1) c 3 by (auto simp: checkBufferedInt_def Let_def split: if_splits)
    then show ?thesis using AppendUint_canonical assms(3,4) s by (simp add: AppendInt_def)
  qed
qed

lemma int_text:
  assumes "checkBufferedInt d = None" "ParseInt (dbuf d) = Inr n"
  shows "dbuf d = AppendInt n \<and> - (2 ^ 63) \<le> n \<and> n < 2 ^ 63"
proof -
  obtain neg s where s: "split_sign (dbuf d) = (neg, s)" by fastforce
  from assms(2) s obtain un where un: "ParseUint s = Inr un" "n = (if neg then - int un else int un)"
    by (auto simp: ParseInt_def split: if_splits sum.splits)
  then have "dbuf d = AppendInt n" using canonical_text [OF assms(1) s] ParseUint_Inr [OF un(1)] by auto
  then show ?thesis using assms(2) ParseInt_AppendInt [of n] by (auto split: if_splits)
qed

lemma big_text:
  assumes "checkBufferedInt d = None" "ParseInt (dbuf d) = Inl ErrRange" "big_SetString (dbuf d) = Some n"
  shows "dbuf d = AppendInt n \<and> \<not> (- (2 ^ 63) \<le> n \<and> n < 2 ^ 63)"
proof -
  obtain neg s where s: "split_sign (dbuf d) = (neg, s)" by fastforce
  then have "dbuf d = AppendInt n"
    using canonical_text [OF assms(1) s] assms(3) by (auto simp: big_SetString_def split: if_splits)
  then show ?thesis using assms(2) ParseInt_AppendInt [of n] by (auto split: if_splits)
qed

lemma AppendUint_last_free: "x \<in> set (AppendUint n) \<Longrightarrow> is_digit x"
  using AppendUint_props [of n] by (auto simp: list_all_iff)

lemma AppendInt_no_sep: "ch_e \<notin> set (AppendInt n)" "n \<ge> 0 \<Longrightarrow> ch_colon \<notin> set (AppendInt n)" "AppendInt n \<noteq> []"
  using AppendUint_last_free [of ch_e] AppendUint_last_free [of ch_colon] AppendUint_props [of "nat n"]
  by (auto simp: AppendInt_def is_digit_def)

lemma check_AppendInt: "dbuf d = AppendInt n \<Longrightarrow> checkBufferedInt d = None"
proof -
  assume a: "dbuf d = AppendInt n"
  have first: "\<not> (hd (AppendUint k) < ch_1 \<or> ch_9 < hd (AppendUint k))" if "k \<noteq> 0" for k
  proof -
    have p: "AppendUint k \<noteq> []" "hd (AppendUint k) \<noteq> ch_0" using AppendUint_props [of k] that by auto
    then have "is_digit (hd (AppendUint k))" using AppendUint_last_free by (metis hd_in_set)
    moreover have "unat (hd (AppendUint k)) \<noteq> 48" using p(2) by (auto simp: word_unat_eq_iff)
    ultimately show ?thesis by (auto simp: is_digit_nat word_less_nat_alt)
  qed
  have minus: "hd (AppendUint k) \<noteq> ch_minus" for k
  proof
    assume h: "hd (AppendUint k) = ch_minus"
    have "AppendUint k \<noteq> []" using AppendUint_props [of k] by blast
    then have "is_digit ch_minus" using AppendUint_last_free [of ch_minus k] h hd_in_set by metis
    then show False by (simp add: is_digit_nat)
  qed
  show ?thesis
  proof (cases "n < 0")
    case True
    then show ?thesis using first [of "nat (- n)"] AppendUint_props [of "nat (- n)"] a
      by (auto simp: AppendInt_def checkBufferedInt_def Let_def)
  next
    case False
    show ?thesis
    proof (cases "nat n = 0")
      case True
      then show ?thesis using False a AppendUint_props [of 0] by (simp add: AppendInt_def checkBufferedInt_def)
    next
      case n0: False
      then show ?thesis using False first [OF n0] minus [of "nat n"] a by (simp add: AppendInt_def checkBufferedInt_def Let_def)
    qed
  qed
qed

lemma readUntil_found:
  "dinput d = s @ sep # rest \<Longrightarrow> sep \<notin> set s \<Longrightarrow>
   readUntil sep d = Ret () (d\<lparr>dinput := rest, dOffset := dOffset d + int (length s) + 1, dbuf := dbuf d @ s\<rparr>)"
proof (induction s arbitrary: d)
  case Nil
  then show ?case by (simp add: readUntil.simps [of sep d] readByte_def)
next
  case (Cons b s)
  let ?d = "d\<lparr>dinput := s @ sep # rest, dOffset := dOffset d + 1, dbuf := dbuf d @ [b]\<rparr>"
  have "readUntil sep d = readUntil sep ?d" using Cons.prems by (subst readUntil.simps) (auto simp: readByte_def)
  then show ?case using Cons.IH [of ?d] Cons.prems(2) by (simp add: algebra_simps)
qed

lemma readUntil_cases:
  obtains s rest where "dinput d = s @ sep # rest" "sep \<notin> set s"
    "readUntil sep d = Ret () (d\<lparr>dinput := rest, dOffset := dOffset d + int (length s) + 1, dbuf := dbuf d @ s\<rparr>)"
  | e where "readUntil sep d = Throw e" "sep \<notin> set (dinput d)"
proof (cases "sep \<in> set (dinput d)")
  case True
  then show ?thesis using that(1) readUntil_found split_list_first by metis
next
  case False
  then have "\<exists>e. readUntil sep d = Throw e"
  proof (induction "dinput d" arbitrary: d)
    case Nil
    then show ?case by (subst readUntil.simps) (simp add: readByte_def)
  next
    case (Cons b bs)
    let ?d = "d\<lparr>dinput := bs, dOffset := dOffset d + 1, dbuf := dbuf d @ [b]\<rparr>"
    have "readUntil sep d = readUntil sep ?d" using Cons.hyps(2) [symmetric] Cons.prems by (subst readUntil.simps) (auto simp: readByte_def)
    then show ?case using Cons.hyps(1) [of ?d] Cons.prems Cons.hyps(2) [symmetric] by simp
  qed
  then show ?thesis using that(2) False by blast
qed


section \<open>Decoding accepts exactly what the encoder writes\<close>

text \<open>The values the decoder makes: small integers as \<open>BInt\<close>, dict keys in strictly ascending order.\<close>

fun wf_value :: "bvalue \<Rightarrow> bool" where
  "wf_value (BInt n) \<longleftrightarrow> - (2 ^ 63) \<le> n \<and> n < 2 ^ 63"
| "wf_value (BBig n) \<longleftrightarrow> \<not> (- (2 ^ 63) \<le> n \<and> n < 2 ^ 63)"
| "wf_value (BStr s) \<longleftrightarrow> True"
| "wf_value (BList vs) \<longleftrightarrow> list_all wf_value vs"
| "wf_value (BDict kvs) \<longleftrightarrow> sorted_wrt (<) (map fst kvs) \<and> list_all (\<lambda>(k, v). wf_value v) kvs"

text \<open>All strings, those of keys included, are within a limit.\<close>

fun strs_within :: "int \<Rightarrow> bvalue \<Rightarrow> bool" where
  "strs_within m (BInt n) \<longleftrightarrow> True"
| "strs_within m (BBig n) \<longleftrightarrow> True"
| "strs_within m (BStr s) \<longleftrightarrow> int (length s) \<le> m"
| "strs_within m (BList vs) \<longleftrightarrow> list_all (strs_within m) vs"
| "strs_within m (BDict kvs) \<longleftrightarrow> list_all (\<lambda>(k, v). int (length k) \<le> m \<and> strs_within m v) kvs"

definition advance :: "bytes \<Rightarrow> decoder \<Rightarrow> decoder" where
  "advance rest d = d\<lparr>dinput := rest, dOffset := dOffset d + (int (length (dinput d)) - int (length rest))\<rparr>"

lemma advance_sel [simp]:
  "dinput (advance rest d) = rest" "dbuf (advance rest d) = dbuf d" "dMaxStrLen (advance rest d) = dMaxStrLen d"
  "getMaxStrLen (advance rest d) = getMaxStrLen d"
  by (simp_all add: advance_def getMaxStrLen_def)

lemma advance_advance [simp]: "advance r2 (advance r1 d) = advance r2 d"
  by (simp add: advance_def)

lemma advance_step: "dinput d = b # bs \<Longrightarrow> d\<lparr>dinput := bs, dOffset := dOffset d + 1\<rparr> = advance bs d"
  by (simp add: advance_def)

lemma enc_string_parts: "\<exists>c cs. AppendInt (int n) = c # cs \<and> is_digit c \<and> ch_colon \<notin> set (c # cs)"
proof -
  have "AppendInt (int n) = AppendUint n" by (simp add: AppendInt_def)
  moreover obtain c cs where "AppendUint n = c # cs" using AppendUint_props [of n] by (cases "AppendUint n") auto
  moreover have "ch_colon \<notin> set (AppendInt (int n))" by (rule AppendInt_no_sep) simp
  moreover have "is_digit c" using AppendUint_last_free [of c n] \<open>AppendUint n = c # cs\<close> by simp
  ultimately show ?thesis by auto
qed

lemma parseStringInterface_enc:
  assumes "AppendInt (int (length s)) = c # cs" "dinput d = cs @ ch_colon # s @ rest" "dbuf d = [c]"
    "int (length s) \<le> getMaxStrLen d" "length s < 2 ^ 63"
  shows "parseStringInterface d = Ret s ((advance rest d)\<lparr>dbuf := []\<rparr>)"
proof -
  have n: "ch_colon \<notin> set (c # cs)" using AppendInt_no_sep(2) [of "int (length s)"] assms(1) by simp
  let ?d = "d\<lparr>dinput := s @ rest, dOffset := dOffset d + int (length cs) + 1, dbuf := c # cs\<rparr>"
  have r: "readUntil ch_colon d = Ret () ?d" using readUntil_found [OF assms(2)] n assms(3) by simp
  have "checkBufferedInt ?d = None" using check_AppendInt [of ?d "int (length s)"] assms(1) by simp
  moreover have "ParseInt (c # cs) = Inr (int (length s))"
    using ParseInt_AppendInt [of "int (length s)"] assms(1,5) by simp
  moreover have "getMaxStrLen ?d = getMaxStrLen d" by (simp add: getMaxStrLen_def)
  ultimately show ?thesis using r assms(2,4)
    by (simp add: parseStringInterface_def parseStringLength_def readBytes_def advance_def Let_def)
qed

lemma parseIntInterface_enc:
  assumes "dinput d = AppendInt n @ ch_e # rest" "dbuf d = []"
  shows "parseIntInterface d = Ret (if - (2 ^ 63) \<le> n \<and> n < 2 ^ 63 then BInt n else BBig n) (advance rest d)"
proof -
  let ?d = "d\<lparr>dinput := rest, dOffset := dOffset d + int (length (AppendInt n)) + 1, dbuf := AppendInt n\<rparr>"
  have "readUntil ch_e d = Ret () ?d" using readUntil_found [OF assms(1) AppendInt_no_sep(1)] assms(2) by simp
  moreover have "checkBufferedInt ?d = None" by (rule check_AppendInt) simp
  ultimately show ?thesis using assms
    by (simp add: parseIntInterface_def readInt_def ParseInt_AppendInt big_AppendInt advance_def Let_def)
qed

text \<open>Fuel: one unit for every call, two calls at most for every byte.\<close>

definition decode_fuel :: "bytes \<Rightarrow> nat" where
  "decode_fuel bs = 2 * length bs + 2"


text \<open>Reading only ever moves forward, and the offset counts what was read.\<close>

definition ate :: "decoder \<Rightarrow> decoder \<Rightarrow> bool" where
  "ate d d' \<longleftrightarrow> (\<exists>pre. dinput d = pre @ dinput d' \<and> dOffset d' = dOffset d + int (length pre) \<and>
     dMaxStrLen d' = dMaxStrLen d)"

definition bites :: "decoder \<Rightarrow> decoder \<Rightarrow> bool" where
  "bites d d' \<longleftrightarrow> ate d d' \<and> length (dinput d') < length (dinput d)"

lemma ate_refl [simp]: "ate d d"
  by (simp add: ate_def)

lemma ate_trans: "ate d d' \<Longrightarrow> ate d' d'' \<Longrightarrow> ate d d''"
  by (force simp: ate_def)

lemma ate_le: "ate d d' \<Longrightarrow> length (dinput d') \<le> length (dinput d)"
  by (auto simp: ate_def)

lemma bites_ate: "bites d d' \<Longrightarrow> ate d d'"
  by (simp add: bites_def)

lemma bites_trans: "bites d d' \<Longrightarrow> ate d' d'' \<Longrightarrow> bites d d''" "ate d d' \<Longrightarrow> bites d' d'' \<Longrightarrow> bites d d''"
  using ate_trans ate_le by (fastforce simp: bites_def)+

lemma ate_buf [simp]: "ate d (d'\<lparr>dbuf := b\<rparr>) = ate d d'" "ate (d\<lparr>dbuf := b\<rparr>) d' = ate d d'"
  "bites d (d'\<lparr>dbuf := b\<rparr>) = bites d d'" "bites (d\<lparr>dbuf := b\<rparr>) d' = bites d d'"
  by (simp_all add: ate_def bites_def)

lemma bites_byte: "dinput d = b # bs \<Longrightarrow> bites d (d\<lparr>dinput := bs, dOffset := dOffset d + 1\<rparr>)"
  by (auto simp: bites_def ate_def intro: exI [of _ "[b]"])

lemma bites_readUntil: "readUntil sep d = Ret u d' \<Longrightarrow> bites d d'"
  by (cases rule: readUntil_cases [where d = d and sep = sep]) (auto simp: bites_def ate_def)

lemma rbind_eq_Ret: "rbind m f = Ret y d' \<longleftrightarrow> (\<exists>x d. m = Ret x d \<and> f x d = Ret y d')"
  by (cases m) simp_all

lemma rbind_eq_NoFuel: "rbind m f = NoFuel \<longleftrightarrow> m = NoFuel \<or> (\<exists>x d. m = Ret x d \<and> f x d = NoFuel)"
  by (cases m) simp_all

lemma bites_parseInt: "parseIntInterface d = Ret v d' \<Longrightarrow> bites d d'"
  by (auto simp: parseIntInterface_def readInt_def rbind_eq_Ret Let_def dest!: bites_readUntil
      split: option.splits sum.splits num_error.splits)

lemma bites_parseStringLength: "parseStringLength d = Ret x d' \<Longrightarrow> bites d d'"
  by (auto simp: parseStringLength_def rbind_eq_Ret Let_def dest!: bites_readUntil split: option.splits sum.splits)

lemma ate_readBytes: "readBytes n d = Ret b d1 \<Longrightarrow> ate d (d1\<lparr>dOffset := dOffset d1 + int (length b)\<rparr>)"
  by (auto simp: readBytes_def ate_def Let_def split: if_splits intro!: exI [of _ "take (nat n) (dinput d)"])

lemma bites_parseString: "parseStringInterface d = Ret s d' \<Longrightarrow> bites d d'"
  by (auto simp: parseStringInterface_def rbind_eq_Ret split: option.splits
      dest!: bites_parseStringLength ate_readBytes intro: bites_trans)

lemma no_NoFuel [simp]: "parseIntInterface d \<noteq> NoFuel" "parseStringInterface d \<noteq> NoFuel" "readUntil sep d \<noteq> NoFuel"
  "parseStringLength d \<noteq> NoFuel" "readInt d \<noteq> NoFuel"
proof -
  show u: "readUntil sep d \<noteq> NoFuel" for sep d by (cases rule: readUntil_cases [where d = d and sep = sep]) auto
  show "readInt d \<noteq> NoFuel" "parseStringLength d \<noteq> NoFuel" "parseIntInterface d \<noteq> NoFuel" "parseStringInterface d \<noteq> NoFuel"
    by (auto simp: readInt_def parseStringLength_def parseIntInterface_def parseStringInterface_def readBytes_def u rbind_eq_NoFuel
        Let_def split: option.splits sum.splits num_error.splits if_splits)
qed

lemma bites_interface_all:
  "(\<forall>d v d'. parseValueInterface n d = Ret v d' \<longrightarrow> bites d d') \<and>
   (\<forall>k acc d v d'. parseDictInterface n k acc d = Ret v d' \<longrightarrow> bites d d') \<and>
   (\<forall>vs d v d'. parseListInterface n vs d = Ret v d' \<longrightarrow> bites d d')"
proof (induction n)
  case (Suc n)
  then have ih: "parseValueInterface n d = Ret v d' \<Longrightarrow> bites d d'" "parseDictInterface n k acc d = Ret w d' \<Longrightarrow> bites d d'"
    "parseListInterface n vs d = Ret w d' \<Longrightarrow> bites d d'" for d v d' k acc w vs by blast+
  have "bites d d'" if "parseValueInterface (Suc n) d = Ret v d'" for d v d'
  proof -
    from that obtain b bs where b: "dinput d = b # bs" by (cases "dinput d") auto
    let ?d = "d\<lparr>dinput := bs, dOffset := dOffset d + 1\<rparr>"
    have "ate ?d d'"
      using that b by (auto simp: rbind_eq_Ret Let_def split: if_splits intro: bites_ate dest!: bites_parseInt bites_parseString ih)
    then show ?thesis using bites_trans(1) [OF bites_byte [OF b]] by blast
  qed
  moreover have "bites d d'" if p: "parseDictInterface (Suc n) k acc d = Ret v d'" for d k acc v d'
  proof -
    from p obtain keyi d1 where k: "parseValueInterface n d = Ret keyi d1" by (auto simp: rbind_eq_Ret Let_def)
    note b1 = ih(1) [OF k]
    show ?thesis
    proof (cases keyi)
      case (Some kv)
      then obtain key where key: "keyi = Some (BStr key)" using p k by (cases kv) (auto simp: Let_def)
      then obtain v d2 d3 where "parseValueInterface n d1 = Ret (Some v) d2"
        "parseDictInterface n (Some key) (acc @ [(key, v)]) d2 = Ret d3 d'"
        using p k by (auto simp: rbind_eq_Ret Let_def split: option.splits if_splits)
      then show ?thesis using b1 ih bites_trans bites_ate by blast
    qed (use p k b1 in \<open>simp add: Let_def\<close>)
  qed
  moreover have "bites d d'" if p: "parseListInterface (Suc n) vs d = Ret v d'" for d vs v d'
    using p by (auto simp: rbind_eq_Ret split: option.splits dest!: ih intro: bites_trans(1) bites_ate)
  ultimately show ?case by blast
qed simp

lemmas bites_interface =
  bites_interface_all [THEN conjunct1, rule_format] bites_interface_all [THEN conjunct2, THEN conjunct1, rule_format]
  bites_interface_all [THEN conjunct2, THEN conjunct2, rule_format]

lemma fuel_interface_all:
  "(\<forall>d. 2 * length (dinput d) + 1 \<le> n \<longrightarrow> parseValueInterface n d \<noteq> NoFuel) \<and>
   (\<forall>k acc d. 2 * length (dinput d) + 2 \<le> n \<longrightarrow> parseDictInterface n k acc d \<noteq> NoFuel) \<and>
   (\<forall>vs d. 2 * length (dinput d) + 2 \<le> n \<longrightarrow> parseListInterface n vs d \<noteq> NoFuel)"
proof (induction n)
  case (Suc n)
  then have ih: "2 * length (dinput d) + 1 \<le> n \<Longrightarrow> parseValueInterface n d \<noteq> NoFuel"
    "2 * length (dinput d) + 2 \<le> n \<Longrightarrow> parseDictInterface n k acc d \<noteq> NoFuel"
    "2 * length (dinput d) + 2 \<le> n \<Longrightarrow> parseListInterface n vs d \<noteq> NoFuel" for d k acc vs by blast+
  have less: "parseValueInterface n d = Ret v d' \<Longrightarrow> length (dinput d') < length (dinput d)" for d v d'
    using bites_interface(1) by (simp add: bites_def)
  have "parseValueInterface (Suc n) d \<noteq> NoFuel" if "2 * length (dinput d) + 1 \<le> Suc n" for d
    using that ih(2,3) by (auto simp: Let_def rbind_eq_NoFuel split: list.splits if_splits)
  moreover have "parseDictInterface (Suc n) k acc d \<noteq> NoFuel" if l: "2 * length (dinput d) + 2 \<le> Suc n" for d k acc
  proof -
    have n1: "parseValueInterface n d \<noteq> NoFuel" using ih(1) l by simp
    have "parseValueInterface n d1 \<noteq> NoFuel" if "parseValueInterface n d = Ret x d1" for x d1
      using ih(1) less [OF that] l by simp
    moreover have "parseDictInterface n k acc d2 \<noteq> NoFuel" if "parseValueInterface n d = Ret x d1" "parseValueInterface n d1 = Ret y d2"
      for x d1 y d2 k acc using ih(2) less [OF that(1)] less [OF that(2)] l by simp
    ultimately show ?thesis using n1
      by (auto simp: Let_def rbind_eq_NoFuel split: option.splits bvalue.splits if_splits)
  qed
  moreover have "parseListInterface (Suc n) vs d \<noteq> NoFuel" if l: "2 * length (dinput d) + 2 \<le> Suc n" for d vs
  proof -
    have "parseValueInterface n d \<noteq> NoFuel" using ih(1) l by simp
    moreover have "parseListInterface n vs d1 \<noteq> NoFuel" if "parseValueInterface n d = Ret x d1" for x d1 vs
      using ih(3) less [OF that] l by simp
    ultimately show ?thesis by (auto simp: rbind_eq_NoFuel split: option.splits)
  qed
  ultimately show ?case by blast
qed simp


definition enc_entry :: "bytes \<times> bvalue \<Rightarrow> bytes" where
  "enc_entry kv = enc_string (fst kv) @ encode_value (snd kv)"

lemma enc_entry_pair [simp]: "enc_entry (k, v) = enc_string k @ encode_value v"
  by (simp add: enc_entry_def)

lemma sort_key_sorted: "sorted (map f xs) \<Longrightarrow> sort_key f xs = xs"
  by (induction xs) (auto simp: insort_is_Cons)

lemma encode_dict_sorted:
  assumes "sorted_wrt (<) (map fst kvs)"
  shows "encode_value (BDict kvs) = ch_d # concat (map enc_entry kvs) @ [ch_e]"
proof -
  have "map fst (map (\<lambda>(k, v). (k, encode_value v)) kvs) = map fst kvs" by (simp add: case_prod_beta comp_def)
  then have "sorted (map fst (map (\<lambda>(k, v). (k, encode_value v)) kvs))"
    using assms strict_sorted_imp_sorted by metis
  then have "sort_key fst (map (\<lambda>(k, v). (k, encode_value v)) kvs) = map (\<lambda>(k, v). (k, encode_value v)) kvs"
    by (rule sort_key_sorted)
  then show ?thesis by (simp add: enc_entry_def [abs_def] case_prod_beta comp_def)
qed

lemma parseString_reads:
  assumes "parseStringInterface d = Ret s d'" "dbuf d = [c]" "is_digit c"
  shows "c # dinput d = enc_string s @ dinput d'" "int (length s) \<le> getMaxStrLen d" "dbuf d' = []"
    "int (length s) < 2 ^ 63"
proof -
  obtain len d1 where l: "parseStringLength d = Ret (len, None) d1" "s = take (nat len) (dinput d1)" "int (length s) = len"
    "dinput d' = drop (nat len) (dinput d1)" "dbuf d' = dbuf d1"
    using assms(1) by (auto simp: parseStringInterface_def rbind_eq_Ret readBytes_def Let_def getMaxStrLen_def
        split: option.splits if_splits)
  have "\<exists>t. dinput d = t @ ch_colon # dinput d1 \<and> c # t = AppendInt len \<and> len \<le> getMaxStrLen d \<and> len < 2 ^ 63 \<and> dbuf d1 = []"
  proof (cases rule: readUntil_cases [where d = d and sep = ch_colon])
    case (1 t rest)
    let ?d = "d\<lparr>dinput := rest, dOffset := dOffset d + int (length t) + 1, dbuf := c # t\<rparr>"
    have r: "readUntil ch_colon d = Ret () ?d" using 1(3) assms(2) by simp
    have cb: "checkBufferedInt ?d = None" and pi: "ParseInt (dbuf ?d) = Inr len" and m: "len \<le> getMaxStrLen d" "d1 = ?d\<lparr>dbuf := []\<rparr>"
      using l(1) unfolding parseStringLength_def r
      by (auto simp: Let_def getMaxStrLen_def split: option.splits sum.splits if_splits)
    then show ?thesis using int_text [OF cb pi] 1(1) by auto
  next
    case (2 e)
    then show ?thesis using l(1) by (simp add: parseStringLength_def Let_def)
  qed
  then obtain t where t: "dinput d = t @ ch_colon # dinput d1" "c # t = AppendInt len" "len \<le> getMaxStrLen d" "len < 2 ^ 63"
    "dbuf d1 = []" by blast
  have "len \<ge> 0" using t(2) assms(3) by (auto simp: AppendInt_def is_digit_nat split: if_splits)
  then show "c # dinput d = enc_string s @ dinput d'" "int (length s) \<le> getMaxStrLen d" "dbuf d' = []" "int (length s) < 2 ^ 63"
    using t l(2-5) by (simp_all add: enc_string_def)
qed

lemma parseInt_reads:
  assumes "parseIntInterface d = Ret v d'" "dbuf d = []"
  shows "ch_i # dinput d = encode_value v @ dinput d' \<and> wf_value v \<and> strs_within m v \<and> dbuf d' = []"
proof (cases rule: readUntil_cases [where d = d and sep = ch_e])
  case (1 t rest)
  let ?d = "d\<lparr>dinput := rest, dOffset := dOffset d + int (length t) + 1, dbuf := t\<rparr>"
  have r: "readUntil ch_e d = Ret () ?d" using 1(3) assms(2) by simp
  have cb: "checkBufferedInt ?d = None" and d': "d' = ?d\<lparr>dbuf := []\<rparr>" and
    pi: "(\<exists>n. ParseInt t = Inr n \<and> v = BInt n) \<or> (\<exists>n. ParseInt t = Inl ErrRange \<and> big_SetString t = Some n \<and> v = BBig n)"
    using assms(1) unfolding parseIntInterface_def readInt_def r
    by (auto simp: Let_def split: option.splits sum.splits num_error.splits)
  from pi show ?thesis
  proof (elim disjE exE conjE)
    fix n assume "ParseInt t = Inr n" "v = BInt n"
    then show ?thesis using int_text [OF cb, of n] 1(1) d' by simp
  next
    fix n assume "ParseInt t = Inl ErrRange" "big_SetString t = Some n" "v = BBig n"
    then show ?thesis using big_text [OF cb, of n] 1(1) d' by simp
  qed
next
  case (2 e)
  then show ?thesis using assms(1) by (simp add: parseIntInterface_def readInt_def Let_def)
qed


definition read_as :: "decoder \<Rightarrow> bvalue option \<Rightarrow> decoder \<Rightarrow> bool" where
  "read_as d vo d' \<longleftrightarrow> dbuf d' = [] \<and> getMaxStrLen d' = getMaxStrLen d \<and>
     (case vo of
        None \<Rightarrow> dinput d = ch_e # dinput d'
      | Some v \<Rightarrow> dinput d = encode_value v @ dinput d' \<and> wf_value v \<and> strs_within (getMaxStrLen d) v)"

definition entries_read :: "bytes option \<Rightarrow> (bytes \<times> bvalue) list \<Rightarrow> decoder \<Rightarrow> decoder \<Rightarrow> bool" where
  "entries_read k kvs d d' \<longleftrightarrow> dbuf d' = [] \<and> getMaxStrLen d' = getMaxStrLen d \<and>
     dinput d = concat (map enc_entry kvs) @ ch_e # dinput d' \<and> sorted_wrt (<) (map fst kvs) \<and>
     (\<forall>x \<in> set kvs. k \<noteq> None \<longrightarrow> the k < fst x) \<and>
     (\<forall>x \<in> set kvs. wf_value (snd x) \<and> strs_within (getMaxStrLen d) (snd x) \<and> int (length (fst x)) \<le> getMaxStrLen d)"

definition elems_read :: "bvalue list \<Rightarrow> decoder \<Rightarrow> decoder \<Rightarrow> bool" where
  "elems_read vs d d' \<longleftrightarrow> dbuf d' = [] \<and> getMaxStrLen d' = getMaxStrLen d \<and>
     dinput d = concat (map encode_value vs) @ ch_e # dinput d' \<and>
     (\<forall>v \<in> set vs. wf_value v \<and> strs_within (getMaxStrLen d) v)"

lemma ate_max: "ate d d' \<Longrightarrow> getMaxStrLen d' = getMaxStrLen d"
  by (auto simp: ate_def getMaxStrLen_def)

lemma entries_read_Cons:
  assumes "read_as d (Some (BStr key)) d1" "read_as d1 (Some v) d2" "entries_read (Some key) kvs d2 d'"
    "\<not> (k \<noteq> None \<and> key \<le> the k)"
  shows "entries_read k ((key, v) # kvs) d d'"
  using assms by (auto simp: entries_read_def read_as_def enc_entry_def)

lemma reads_all:
  "(\<forall>d v d'. dbuf d = [] \<longrightarrow> parseValueInterface n d = Ret v d' \<longrightarrow> read_as d v d') \<and>
   (\<forall>k acc d w d'. dbuf d = [] \<longrightarrow> parseDictInterface n k acc d = Ret w d' \<longrightarrow>
      (\<exists>kvs. w = BDict (acc @ kvs) \<and> entries_read k kvs d d')) \<and>
   (\<forall>acc d w d'. dbuf d = [] \<longrightarrow> parseListInterface n acc d = Ret w d' \<longrightarrow>
      (\<exists>vs. w = BList (acc @ vs) \<and> elems_read vs d d'))"
proof (induction n)
  case (Suc n)
  then have ih: "dbuf d = [] \<Longrightarrow> parseValueInterface n d = Ret v d' \<Longrightarrow> read_as d v d'"
    "dbuf d = [] \<Longrightarrow> parseDictInterface n k acc d = Ret w d' \<Longrightarrow> \<exists>kvs. w = BDict (acc @ kvs) \<and> entries_read k kvs d d'"
    "dbuf d = [] \<Longrightarrow> parseListInterface n lacc d = Ret w d' \<Longrightarrow> \<exists>vs. w = BList (lacc @ vs) \<and> elems_read vs d d'"
    for d v d' k acc lacc w by blast+
  have "read_as d v d'" if e: "dbuf d = []" and p: "parseValueInterface (Suc n) d = Ret v d'" for d v d'
  proof -
    from p obtain b bs where b: "dinput d = b # bs" by (cases "dinput d") auto
    let ?d = "d\<lparr>dinput := bs, dOffset := dOffset d + 1\<rparr>"
    have m: "getMaxStrLen ?d = getMaxStrLen d" "getMaxStrLen d' = getMaxStrLen d"
      using ate_max [OF bites_ate [OF bites_interface(1) [OF p]]] by (simp_all add: getMaxStrLen_def)
    consider "b = ch_e" | "b = ch_d" | "b = ch_l" | "b = ch_i" | "b \<notin> {ch_e, ch_d, ch_l, ch_i}" by blast
    then show ?thesis
    proof cases
      case 1
      then show ?thesis using p b e by (auto simp: read_as_def Let_def getMaxStrLen_def)
    next
      case 2
      then obtain w where w: "parseDictInterface n None [] ?d = Ret w d'" "v = Some w"
        using p b by (auto simp: Let_def rbind_eq_Ret)
      from ih(2) [OF _ w(1)] e obtain kvs where "w = BDict kvs" "entries_read None kvs ?d d'" by auto
      then show ?thesis using w(2) b 2 m encode_dict_sorted [of kvs]
        by (auto simp: read_as_def entries_read_def list_all_iff)
    next
      case 3
      then obtain w where w: "parseListInterface n [] ?d = Ret w d'" "v = Some w"
        using p b by (auto simp: Let_def rbind_eq_Ret)
      from ih(3) [OF _ w(1)] e obtain vs where "w = BList vs" "elems_read vs ?d d'" by auto
      then show ?thesis using w(2) b 3 m by (auto simp: read_as_def elems_read_def list_all_iff)
    next
      case 4
      then obtain w where w: "parseIntInterface ?d = Ret w d'" "v = Some w"
        using p b by (auto simp: Let_def rbind_eq_Ret)
      then show ?thesis using parseInt_reads [OF w(1)] e b 4 m by (simp add: read_as_def)
    next
      case 5
      then obtain s where s: "parseStringInterface (?d\<lparr>dbuf := [b]\<rparr>) = Ret s d'" "v = Some (BStr s)" "is_digit b"
        using p b e by (auto simp: Let_def rbind_eq_Ret split: if_splits)
      then show ?thesis using parseString_reads [OF s(1) _ s(3)] b m by (simp add: read_as_def)
    qed
  qed
  moreover have "\<exists>kvs. w = BDict (acc @ kvs) \<and> entries_read k kvs d d'"
    if e: "dbuf d = []" and p: "parseDictInterface (Suc n) k acc d = Ret w d'" for d k acc w d'
  proof -
    from p obtain keyi d1 where k: "parseValueInterface n d = Ret keyi d1" by (auto simp: rbind_eq_Ret Let_def)
    note r1 = ih(1) [OF e k]
    show ?thesis
    proof (cases keyi)
      case None
      then show ?thesis using p k r1 by (intro exI [of _ "[]"]) (auto simp: Let_def entries_read_def read_as_def)
    next
      case (Some kv)
      then obtain key where key: "keyi = Some (BStr key)" using p k by (cases kv) (auto simp: Let_def)
      then obtain v d2 where v: "parseValueInterface n d1 = Ret (Some v) d2" "\<not> (k \<noteq> None \<and> key \<le> the k)"
        "parseDictInterface n (Some key) (acc @ [(key, v)]) d2 = Ret w d'"
        using p k by (auto simp: rbind_eq_Ret Let_def split: option.splits if_splits)
      have e1: "dbuf d1 = []" using r1 by (simp add: read_as_def)
      note r2 = ih(1) [OF e1 v(1)]
      have "dbuf d2 = []" using r2 by (simp add: read_as_def)
      from ih(2) [OF this v(3)] obtain kvs where "w = BDict ((acc @ [(key, v)]) @ kvs)" "entries_read (Some key) kvs d2 d'" by blast
      then show ?thesis using entries_read_Cons [OF r1 [unfolded key] r2 _ v(2)] by (intro exI [of _ "(key, v) # kvs"]) simp
    qed
  qed
  moreover have "\<exists>vs. w = BList (acc @ vs) \<and> elems_read vs d d'"
    if e: "dbuf d = []" and p: "parseListInterface (Suc n) acc d = Ret w d'" for d acc w d'
  proof -
    from p obtain vi d1 where v: "parseValueInterface n d = Ret vi d1" by (auto simp: rbind_eq_Ret)
    note r1 = ih(1) [OF e v]
    show ?thesis
    proof (cases vi)
      case None
      then show ?thesis using p v r1 by (intro exI [of _ "[]"]) (auto simp: elems_read_def read_as_def)
    next
      case (Some x)
      have "dbuf d1 = []" using r1 by (simp add: read_as_def)
      then obtain vs where "w = BList ((acc @ [x]) @ vs)" "elems_read vs d1 d'" using ih(3) p v Some by fastforce
      then show ?thesis using r1 Some by (intro exI [of _ "x # vs"]) (auto simp: elems_read_def read_as_def)
    qed
  qed
  ultimately show ?case by blast
qed simp


text \<open>The converse: what the encoder wrote is read back.\<close>

definition parses :: "bvalue \<Rightarrow> bool" where
  "parses v \<longleftrightarrow> (\<forall>n d rest. wf_value v \<longrightarrow> strs_within (getMaxStrLen d) v \<longrightarrow> getMaxStrLen d < 2 ^ 63 \<longrightarrow>
     dinput d = encode_value v @ rest \<longrightarrow> dbuf d = [] \<longrightarrow> 2 * length (dinput d) + 1 \<le> n \<longrightarrow>
     parseValueInterface n d = Ret (Some v) (advance rest d))"

lemma parsesD:
  "parses v \<Longrightarrow> wf_value v \<Longrightarrow> strs_within (getMaxStrLen d) v \<Longrightarrow> getMaxStrLen d < 2 ^ 63 \<Longrightarrow>
   dinput d = encode_value v @ rest \<Longrightarrow> dbuf d = [] \<Longrightarrow> 2 * length (dinput d) + 1 \<le> n \<Longrightarrow>
   parseValueInterface n d = Ret (Some v) (advance rest d)"
  by (simp add: parses_def)

lemma parses_end: "dinput d = ch_e # rest \<Longrightarrow> 1 \<le> n \<Longrightarrow> parseValueInterface n d = Ret None (advance rest d)"
  by (cases n) (simp_all add: Let_def advance_step)

lemma parses_BStr: "parses (BStr s)"
  unfolding parses_def
proof (intro allI impI)
  fix n d rest
  assume a: "strs_within (getMaxStrLen d) (BStr s)" "getMaxStrLen d < 2 ^ 63" "dinput d = encode_value (BStr s) @ rest" "dbuf d = []"
    "2 * length (dinput d) + 1 \<le> n"
  obtain c cs where c: "AppendInt (int (length s)) = c # cs" "is_digit c" using enc_string_parts by blast
  have i: "dinput d = c # cs @ ch_colon # s @ rest" using a(3) c(1) by (simp add: enc_string_def)
  let ?d = "(advance (cs @ ch_colon # s @ rest) d)\<lparr>dbuf := [c]\<rparr>"
  have "parseStringInterface ?d = Ret s ((advance rest ?d)\<lparr>dbuf := []\<rparr>)"
    by (rule parseStringInterface_enc [OF c(1)]) (use a in simp_all)
  moreover have "(advance rest ?d)\<lparr>dbuf := []\<rparr> = advance rest d" using a(4) by (simp add: advance_def)
  moreover have "c \<noteq> ch_e" "c \<noteq> ch_d" "c \<noteq> ch_l" "c \<noteq> ch_i" using c(2) by (auto simp: is_digit_nat)
  ultimately show "parseValueInterface n d = Ret (Some (BStr s)) (advance rest d)"
    using i c(2) a(4,5) advance_step [OF i] by (cases n) (simp_all add: Let_def)
qed

lemma parses_int:
  assumes "v = (if - (2 ^ 63) \<le> k \<and> k < 2 ^ 63 then BInt k else BBig k)"
  shows "parses v"
  unfolding parses_def
proof (intro allI impI)
  fix n rest and d :: decoder
  assume a: "dinput d = encode_value v @ rest" "dbuf d = []" "2 * length (dinput d) + 1 \<le> n"
  have e: "dinput d = ch_i # AppendInt k @ ch_e # rest" using a(1) assms by (auto split: if_splits)
  let ?d = "advance (AppendInt k @ ch_e # rest) d"
  have "parseIntInterface ?d = Ret v (advance rest ?d)"
    unfolding assms by (rule parseIntInterface_enc) (simp_all add: a(2))
  then show "parseValueInterface n d = Ret (Some v) (advance rest d)"
    using e a(3) advance_step [OF e] by (cases n) (simp_all add: Let_def)
qed

lemma encode_value_pos: "encode_value v \<noteq> []"
  using AppendInt_no_sep(3) by (cases v) (simp_all add: enc_string_def)

lemma parses_elems:
  "\<forall>v \<in> set vs. parses v \<and> wf_value v \<and> strs_within (getMaxStrLen d) v \<Longrightarrow> getMaxStrLen d < 2 ^ 63 \<Longrightarrow>
   dinput d = concat (map encode_value vs) @ ch_e # rest \<Longrightarrow> dbuf d = [] \<Longrightarrow> 2 * length (dinput d) + 2 \<le> n \<Longrightarrow>
   parseListInterface n acc d = Ret (BList (acc @ vs)) (advance rest d)"
proof (induction vs arbitrary: acc d n)
  case Nil
  then show ?case using parses_end [of d rest "n - 1"] by (cases n) simp_all
next
  case (Cons v vs)
  then obtain n' where n: "n = Suc n'" by (cases n) auto
  let ?r = "concat (map encode_value vs) @ ch_e # rest"
  have p: "parseValueInterface n' d = Ret (Some v) (advance ?r d)"
    by (rule parsesD) (use Cons.prems n in auto)
  obtain x xs where "encode_value v = x # xs" using encode_value_pos [of v] by (cases "encode_value v") auto
  then have "parseListInterface n' (acc @ [v]) (advance ?r d) = Ret (BList ((acc @ [v]) @ vs)) (advance rest (advance ?r d))"
    by (intro Cons.IH) (use Cons.prems n in auto)
  then show ?case using n p by simp
qed

lemma parses_entries:
  "\<forall>x \<in> set kvs. parses (snd x) \<and> wf_value (snd x) \<and> strs_within (getMaxStrLen d) (snd x) \<and> int (length (fst x)) \<le> getMaxStrLen d \<Longrightarrow>
   sorted_wrt (<) (map fst kvs) \<Longrightarrow> \<forall>x \<in> set kvs. k \<noteq> None \<longrightarrow> the k < fst x \<Longrightarrow> getMaxStrLen d < 2 ^ 63 \<Longrightarrow>
   dinput d = concat (map enc_entry kvs) @ ch_e # rest \<Longrightarrow> dbuf d = [] \<Longrightarrow> 2 * length (dinput d) + 2 \<le> n \<Longrightarrow>
   parseDictInterface n k acc d = Ret (BDict (acc @ kvs)) (advance rest d)"
proof (induction kvs arbitrary: k acc d n)
  case Nil
  then show ?case using parses_end [of d rest "n - 1"] by (cases n) (simp_all add: Let_def)
next
  case (Cons kv kvs)
  obtain key v where kv: "kv = (key, v)" by (cases kv)
  from Cons.prems obtain n' where n: "n = Suc n'" by (cases n) auto
  let ?r = "concat (map enc_entry kvs) @ ch_e # rest" and ?r1 = "encode_value v @ concat (map enc_entry kvs) @ ch_e # rest"
  have p1: "parseValueInterface n' d = Ret (Some (BStr key)) (advance ?r1 d)"
    by (rule parsesD [OF parses_BStr]) (use Cons.prems n kv in auto)
  have p2: "parseValueInterface n' (advance ?r1 d) = Ret (Some v) (advance ?r (advance ?r1 d))"
    by (rule parsesD) (use Cons.prems n kv in auto)
  obtain x xs where "encode_value v = x # xs" using encode_value_pos [of v] by (cases "encode_value v") auto
  then have p3: "parseDictInterface n' (Some key) (acc @ [kv]) (advance ?r d) = Ret (BDict ((acc @ [kv]) @ kvs)) (advance rest (advance ?r d))"
    by (intro Cons.IH) (use Cons.prems n kv in auto)
  have "\<not> (k \<noteq> None \<and> key \<le> the k)" using Cons.prems(3) kv by auto
  then show ?case using n p1 p2 p3 kv by (auto simp: Let_def)
qed

lemma parses_value: "parses v"
proof (induction v)
  case (BInt k)
  show ?case
  proof (cases "- (2 ^ 63) \<le> k \<and> k < 2 ^ 63")
    case True
    then show ?thesis by (intro parses_int [of _ k]) simp
  qed (auto simp: parses_def)
next
  case (BBig k)
  show ?case
  proof (cases "- (2 ^ 63) \<le> k \<and> k < 2 ^ 63")
    case False
    then show ?thesis by (intro parses_int [of _ k]) simp
  qed (auto simp: parses_def)
next
  case (BStr s)
  show ?case by (rule parses_BStr)
next
  case (BList vs)
  show ?case unfolding parses_def
  proof (intro allI impI)
    fix n d rest
    assume a: "wf_value (BList vs)" "strs_within (getMaxStrLen d) (BList vs)" "getMaxStrLen d < 2 ^ 63"
      "dinput d = encode_value (BList vs) @ rest" "dbuf d = []" "2 * length (dinput d) + 1 \<le> n"
    let ?r = "concat (map encode_value vs) @ ch_e # rest"
    have e: "dinput d = ch_l # ?r" using a(4) by simp
    have "parseListInterface (n - 1) [] (advance ?r d) = Ret (BList ([] @ vs)) (advance rest (advance ?r d))"
      by (rule parses_elems) (use a BList in \<open>auto simp: list_all_iff\<close>)
    then show "parseValueInterface n d = Ret (Some (BList vs)) (advance rest d)"
      using e a(6) advance_step [OF e] by (cases n) (simp_all add: Let_def)
  qed
next
  case (BDict kvs)
  show ?case unfolding parses_def
  proof (intro allI impI)
    fix n d rest
    assume a: "wf_value (BDict kvs)" "strs_within (getMaxStrLen d) (BDict kvs)" "getMaxStrLen d < 2 ^ 63"
      "dinput d = encode_value (BDict kvs) @ rest" "dbuf d = []" "2 * length (dinput d) + 1 \<le> n"
    let ?r = "concat (map enc_entry kvs) @ ch_e # rest"
    have e: "dinput d = ch_d # ?r" using a(1,4) encode_dict_sorted [of kvs] by simp
    have "parseDictInterface (n - 1) None [] (advance ?r d) = Ret (BDict ([] @ kvs)) (advance rest (advance ?r d))"
      by (rule parses_entries) (use a e BDict in \<open>fastforce simp: list_all_iff\<close>)+
    then show "parseValueInterface n d = Ret (Some (BDict kvs)) (advance rest d)"
      using e a(6) advance_step [OF e] by (cases n) (simp_all add: Let_def)
  qed
qed

end
