(* ===== verification/Bencode_Reflect.thy ===== *)
theory Bencode_Reflect
  imports Bencode "HOL-Library.AList"
begin

text \<open>
  Package \<^verbatim>\<open>bencode\<close>, values of Go types: what \<^verbatim>\<open>Unmarshal\<close> and \<^verbatim>\<open>Marshal\<close> do with them by
  reflection (\<^verbatim>\<open>decode.go\<close>, \<^verbatim>\<open>encode.go\<close>, \<^verbatim>\<open>tags.go\<close>, \<^verbatim>\<open>api.go\<close>).  A Go type is a descriptor, a value
  a tree; types with methods of their own are a parameter.
\<close>

section \<open>Types and values\<close>

record field_info =
  fname :: bytes
  fanon :: bool
  fexported :: bool
  ftag :: bytes

text \<open>
  \<open>TCustom\<close> is a named type that implements \<^verbatim>\<open>Unmarshaler\<close> and \<^verbatim>\<open>Marshaler\<close>, \<open>TIface\<close> the empty interface,
  \<open>TMap\<close> a map with string keys, \<open>TOther\<close> a type of any other kind.
\<close>

datatype gtype =
    TBool | TInt nat | TUint nat | TString | TSlice gtype | TArray nat gtype | TMap gtype
  | TStruct "(field_info \<times> gtype) list" | TPtr gtype | TIface | TCustom string | TOther string

text \<open>\<open>None\<close> is nil; a map is the list of its entries.\<close>

datatype 'c gval =
    GBool bool | GInt int | GUint int | GString bytes | GSlice "'c gval list option" | GArray "'c gval list"
  | GMap "(bytes \<times> 'c gval) list option" | GStruct "'c gval list" | GPtr "'c gval option" | GIface "bvalue option"
  | GCustom 'c | GOther

text \<open>The methods of the named types, and \<^verbatim>\<open>missinggo.IsEmptyValue\<close>, for \<^verbatim>\<open>omitempty\<close>.\<close>

record 'c methods =
  UnmarshalBencode :: "string \<Rightarrow> bytes \<Rightarrow> 'c option"
  MarshalBencode :: "string \<Rightarrow> 'c \<Rightarrow> bytes option"
  zeroCustom :: "string \<Rightarrow> 'c"
  isEmptyValue :: "'c gval \<Rightarrow> bool"

fun zero :: "'c methods \<Rightarrow> gtype \<Rightarrow> 'c gval" where
  "zero C TBool = GBool False"
| "zero C (TInt k) = GInt 0"
| "zero C (TUint k) = GUint 0"
| "zero C TString = GString []"
| "zero C (TSlice t) = GSlice None"
| "zero C (TArray n t) = GArray (replicate n (zero C t))"
| "zero C (TMap t) = GMap None"
| "zero C (TStruct fs) = GStruct (map (\<lambda>(fi, t). zero C t) fs)"
| "zero C (TPtr t) = GPtr None"
| "zero C TIface = GIface None"
| "zero C (TCustom c) = GCustom (zeroCustom C c)"
| "zero C (TOther k) = GOther"

section \<open>Tags\<close>

abbreviation (input) ch_comma :: byte where "ch_comma \<equiv> 44"

fun split_commas :: "bytes \<Rightarrow> bytes list" where
  "split_commas [] = [[]]"
| "split_commas (c # cs) =
     (if c = ch_comma then [] # split_commas cs
      else case split_commas cs of s # ss \<Rightarrow> (c # s) # ss | [] \<Rightarrow> [[c]])"

definition parseTag :: "bytes \<Rightarrow> bytes list" where
  "parseTag tagStr = split_commas tagStr"

definition tag_Ignore :: "bytes list \<Rightarrow> bool" where
  "tag_Ignore me = (hd me = [45])"

definition tag_Key :: "bytes list \<Rightarrow> bytes" where
  "tag_Key me = hd me"

definition HasOpt :: "bytes list \<Rightarrow> bytes \<Rightarrow> bool" where
  "HasOpt me opt = (if length me < 1 then False else opt \<in> set (tl me))"

text \<open>The option names, \<^verbatim>\<open>omitempty\<close> and \<^verbatim>\<open>ignore_unmarshal_type_error\<close>, as bytes.\<close>

definition OmitEmpty :: "bytes list \<Rightarrow> bool" where
  "OmitEmpty me = HasOpt me (str_bytes ''omitempty'')"

definition IgnoreUnmarshalTypeError :: "bytes list \<Rightarrow> bool" where
  "IgnoreUnmarshalTypeError me = HasOpt me (str_bytes ''ignore_unmarshal_type_error'')"

section \<open>The fields of a struct\<close>

text \<open>
  A field of a dict: its type, how to reach it (indices of embedded structs with their types, then
  that of the field), whether it can be set, and its tag.
\<close>

record dictField =
  dfType :: gtype
  dfPath :: "(nat \<times> gtype) list"
  dfSettable :: bool
  dfTags :: "bytes list"

definition deref :: "gtype \<Rightarrow> gtype" where
  "deref t = (case t of TPtr u \<Rightarrow> u | _ \<Rightarrow> t)"

lemma size_deref: "size (deref t) \<le> size t"
  by (cases t) (simp_all add: deref_def)

lemma size_deref_less: "2 * size (deref t) < Suc (Suc (Suc (Suc (Suc (2 * size t + k)))))"
  using size_deref [of t] by linarith

text \<open>\<open>None\<close> is the panic of \<^verbatim>\<open>NumField\<close> on an embedded type that is no struct.\<close>

function parseStructFields :: "gtype \<Rightarrow> (bytes \<times> dictField) list option"
  and parse_fields_from :: "nat \<Rightarrow> (field_info \<times> gtype) list \<Rightarrow> (bytes \<times> dictField) list option" where
  "parseStructFields struct = (case struct of TStruct fs \<Rightarrow> parse_fields_from 0 fs | _ \<Rightarrow> None)"
| "parse_fields_from i [] = Some []"
| "parse_fields_from i ((f, t) # fs) =
     (case parse_fields_from (Suc i) fs of
        None \<Rightarrow> None
      | Some rest \<Rightarrow>
          if fanon f then
            (case parseStructFields (deref t) of
               None \<Rightarrow> None
             | Some inner \<Rightarrow> Some (map (\<lambda>(key, df). (key, df\<lparr>dfPath := (i, t) # dfPath df\<rparr>)) inner @ rest))
          else if ftag f = [45] then Some rest
          else
            let tag = parseTag (ftag f);
                key = (if tag_Key tag = [] then fname f else tag_Key tag)
            in Some ((key, \<lparr>dfType = t, dfPath = [(i, t)], dfSettable = fexported f, dfTags = tag\<rparr>) # rest))"
  by pat_completeness auto
termination
  by (relation "measure (\<lambda>x. case x of Inl t \<Rightarrow> 2 * size t | Inr (i, fs) \<Rightarrow> 2 * size_list (size_prod (\<lambda>_. 0) size) fs + 1)")
    (auto simp: size_deref_less)

declare parseStructFields.simps [simp del]


text \<open>\<^verbatim>\<open>saveStructFields\<close> puts the fields in a map, so that the last one of a key is found.\<close>

definition getStructFieldForKey :: "gtype \<Rightarrow> bytes \<Rightarrow> dictField option option" where
  "getStructFieldForKey struct key = map_option (\<lambda>fs. map_of (rev fs) key) (parseStructFields struct)"

text \<open>
  Setting a field.  A nil pointer to an embedded struct is allocated; one that is not nil is used as
  if it were the struct, which is a \<^verbatim>\<open>ValueError\<close>.
\<close>

fun set_path :: "'c methods \<Rightarrow> (nat \<times> gtype) list \<Rightarrow> 'c gval \<Rightarrow> 'c gval \<Rightarrow> 'c gval option" where
  "set_path C ((i, t) # path) v x =
     (case v of
        GStruct vs \<Rightarrow>
          if path = [] then Some (GStruct (vs[i := x]))
          else (case vs ! i of
              GPtr None \<Rightarrow> map_option (\<lambda>w. GStruct (vs[i := GPtr (Some w)])) (set_path C path (zero C (deref t)) x)
            | w \<Rightarrow> map_option (\<lambda>w. GStruct (vs[i := w])) (set_path C path w x))
      | _ \<Rightarrow> None)"
| "set_path C [] v x = None"

definition map_put :: "bytes \<Rightarrow> 'c gval \<Rightarrow> 'c gval \<Rightarrow> 'c gval" where
  "map_put key x m =
     (case m of GMap (Some kvs) \<Rightarrow> GMap (Some (AList.update key x kvs)) | _ \<Rightarrow> GMap (Some [(key, x)]))"

section \<open>Reading a value of no matter what type\<close>

definition copyN :: "int \<Rightarrow> decoder \<Rightarrow> unit res" where
  "copyN len d =
     (let b = take (nat len) (dinput d);
          d = d\<lparr>dinput := drop (nat len) (dinput d), dOffset := dOffset d + int (length b), dbuf := dbuf d @ b\<rparr>
      in if int (length b) \<noteq> len then Throw (ESyntax (dOffset d) WUnexpectedEOF) else Ret () d)"

fun readOneValue :: "nat \<Rightarrow> decoder \<Rightarrow> bool res"
  and readValues :: "nat \<Rightarrow> decoder \<Rightarrow> unit res" where
  "readOneValue 0 d = NoFuel"
| "readOneValue (Suc n) d =
     (case dinput d of
        [] \<Rightarrow> Throw EEOF
      | b # bs \<Rightarrow>
          if b = ch_e then Ret False d
          else
            let start = length (dbuf d);
                d = d\<lparr>dinput := bs, dOffset := dOffset d + 1, dbuf := dbuf d @ [b]\<rparr> in
            if b = ch_d \<or> b = ch_l then
              rbind (readValues n d) (\<lambda>_ d. rbind (readByte d) (\<lambda>b d. Ret True (d\<lparr>dbuf := dbuf d @ [b]\<rparr>)))
            else if b = ch_i then rbind (readUntil ch_e d) (\<lambda>_ d. Ret True (d\<lparr>dbuf := dbuf d @ [ch_e]\<rparr>))
            else if is_digit b then
              rbind (readUntil ch_colon d) (\<lambda>_ d.
                case ParseInt (drop start (dbuf d)) of
                  Inl e \<Rightarrow> Throw (ESyntax (dOffset d - 1) (WNum e))
                | Inr len \<Rightarrow> rbind (copyN len (d\<lparr>dbuf := dbuf d @ [ch_colon]\<rparr>)) (\<lambda>_. Ret True))
            else Throw (ESyntax (dOffset d - 1) (WUnknownType b)))"
| "readValues 0 d = NoFuel"
| "readValues (Suc n) d = rbind (readOneValue n d) (\<lambda>ok d. if ok then readValues n d else Ret () d)"

text \<open>The named type whose \<^verbatim>\<open>UnmarshalBencode\<close> is called: that of the value, or that it points to.\<close>

definition unmarshaler_of :: "gtype \<Rightarrow> string option" where
  "unmarshaler_of ty = (case ty of TCustom c \<Rightarrow> Some c | TPtr u \<Rightarrow> (case u of TCustom c \<Rightarrow> Some c | _ \<Rightarrow> None) | _ \<Rightarrow> None)"

definition call_unmarshal :: "'c methods \<Rightarrow> string \<Rightarrow> 'c gval \<Rightarrow> bytes \<Rightarrow> berror + 'c gval" where
  "call_unmarshal C c v b =
     (if v = GPtr None then Inl ECrash
      else case UnmarshalBencode C c b of
        None \<Rightarrow> Inl EUnmarshaler
      | Some x \<Rightarrow> Inr (case v of GPtr _ \<Rightarrow> GPtr (Some (GCustom x)) | _ \<Rightarrow> GCustom x))"

text \<open>\<open>None\<close>: not an unmarshaler, or nothing to unmarshal.\<close>

definition parseUnmarshaler :: "'c methods \<Rightarrow> nat \<Rightarrow> gtype \<Rightarrow> 'c gval \<Rightarrow> decoder \<Rightarrow> 'c gval option res" where
  "parseUnmarshaler C n ty v d =
     (case unmarshaler_of ty of
        None \<Rightarrow> Ret None d
      | Some c \<Rightarrow>
          rbind (readOneValue n (d\<lparr>dbuf := []\<rparr>)) (\<lambda>ok d.
            if \<not> ok then Ret None d
            else case call_unmarshal C c v (dbuf d) of Inl e \<Rightarrow> Throw e | Inr x \<Rightarrow> Ret (Some x) d))"

section \<open>Decoding into a type\<close>

definition OverflowInt :: "nat \<Rightarrow> int \<Rightarrow> bool" where
  "OverflowInt k n \<longleftrightarrow> \<not> (- (2 ^ (k - 1)) \<le> n \<and> n < 2 ^ (k - 1))"

definition OverflowUint :: "nat \<Rightarrow> nat \<Rightarrow> bool" where
  "OverflowUint k n \<longleftrightarrow> \<not> n < 2 ^ k"

text \<open>The results of the functions that return an error: the error and the value as it now is.\<close>

type_synonym 'c parsed = "berror option \<times> 'c gval"

text \<open>
  What an integer's text gives for a type: a number that cannot be parsed is thrown; else the result,
  and whether the buffer is reset, which it is not on an error.
\<close>

definition int_result :: "gtype \<Rightarrow> 'c gval \<Rightarrow> bytes \<Rightarrow> num_error + 'c parsed \<times> bool" where
  "int_result ty v s =
     (case ty of
        TInt k \<Rightarrow>
          (case ParseInt s of
             Inl e \<Rightarrow> Inl e
           | Inr n \<Rightarrow> Inr (if OverflowInt k n then ((Some (EUnmarshalType ''int''), v), False) else ((None, GInt n), True)))
      | TUint k \<Rightarrow>
          (case ParseUint s of
             Inl e \<Rightarrow> Inl e
           | Inr n \<Rightarrow> Inr (if OverflowUint k n then ((Some (EUnmarshalType ''int''), v), False) else ((None, GUint (int n)), True)))
      | TBool \<Rightarrow> Inr ((None, GBool (s \<noteq> [ch_0])), True)
      | _ \<Rightarrow> Inr ((Some (EUnmarshalType ''int''), v), False))"

definition parseInt :: "gtype \<Rightarrow> 'c gval \<Rightarrow> decoder \<Rightarrow> 'c parsed res" where
  "parseInt ty v d =
     (let start = dOffset d - 1 in
      rbind (readInt d) (\<lambda>err d.
        if err \<noteq> None then Ret (err, v) d
        else case int_result ty v (dbuf d) of
            Inl e \<Rightarrow> Throw (ESyntax start (WNum e))
          | Inr (r, reset) \<Rightarrow> Ret r (if reset then d\<lparr>dbuf := []\<rparr> else d)))"

definition read_string :: "int \<Rightarrow> decoder \<Rightarrow> bytes res" where
  "read_string len d =
     (let b = take (nat len) (dinput d);
          d = d\<lparr>dinput := drop (nat len) (dinput d), dOffset := dOffset d + int (length b)\<rparr>
      in if int (length b) = len then Ret b d
         else Throw (ESyntax (dOffset d) (if b = [] then WUnexpectedEOF else WInputError)))"

definition byte_vals :: "bytes \<Rightarrow> 'c gval list" where
  "byte_vals b = map (\<lambda>x. GUint (uint x)) b"

definition string_result :: "gtype \<Rightarrow> 'c gval \<Rightarrow> bytes \<Rightarrow> 'c parsed" where
  "string_result ty v b =
     (case ty of
        TString \<Rightarrow> (None, GString b)
      | TSlice t \<Rightarrow>
          if t = TUint 8 then (None, GSlice (Some (byte_vals b))) else (Some (EUnmarshalType ''string''), v)
      | TArray n t \<Rightarrow>
          if t = TUint 8 then
            (None, case v of GArray xs \<Rightarrow> GArray (take (length xs) (byte_vals b) @ drop (length b) xs) | _ \<Rightarrow> v)
          else (Some (EUnmarshalType ''string''), v)
      | _ \<Rightarrow> (Some (EUnmarshalType ''string''), v))"

definition parseString :: "gtype \<Rightarrow> 'c gval \<Rightarrow> decoder \<Rightarrow> 'c parsed res" where
  "parseString ty v d =
     rbind (parseStringLength d) (\<lambda>(len, err) d.
       if err \<noteq> None then Ret (err, v) d
       else rbind (read_string len d) (\<lambda>b d. Ret (string_result ty v b) (d\<lparr>dbuf := []\<rparr>)))"

text \<open>\<^verbatim>\<open>errors.As\<close> with an \<^verbatim>\<open>UnmarshalTypeError\<close>.\<close>

fun is_type_error :: "berror \<Rightarrow> bool" where
  "is_type_error (EUnmarshalType s) \<longleftrightarrow> True"
| "is_type_error (EKey e) \<longleftrightarrow> is_type_error e"
| "is_type_error (EField k e) \<longleftrightarrow> is_type_error e"
| "is_type_error e \<longleftrightarrow> False"

definition slice_elems :: "'c gval \<Rightarrow> 'c gval list" where
  "slice_elems v = (case v of GSlice (Some vs) \<Rightarrow> vs | GArray vs \<Rightarrow> vs | _ \<Rightarrow> [])"

definition ptr_target :: "'c methods \<Rightarrow> gtype \<Rightarrow> 'c gval \<Rightarrow> 'c gval" where
  "ptr_target C u v = (case v of GPtr (Some x) \<Rightarrow> x | _ \<Rightarrow> zero C u)"

text \<open>
  What a finished list leaves: a slice is cut to the elements read, an array filled with zeros.
\<close>

definition finish_list :: "'c methods \<Rightarrow> gtype \<Rightarrow> nat \<Rightarrow> 'c gval list \<Rightarrow> 'c gval" where
  "finish_list C ty i vs =
     (case ty of
        TArray n t \<Rightarrow> GArray (take i vs @ replicate (length vs - i) (zero C t))
      | _ \<Rightarrow> GSlice (Some (take i vs)))"

text \<open>
  The functions of the decoder call each other; each is given as its body over the functions it
  calls, and then all of them together, with fuel.  \<open>parseValue\<close> takes one pointer away, \<open>parse_elem\<close> is the
  rest of \<^verbatim>\<open>parseValue\<close>; \<open>parse_list_loop\<close> and \<open>parse_dict_value\<close> are the loop of \<^verbatim>\<open>parseList\<close> and
  the reading of a value in \<^verbatim>\<open>parseDict\<close>.
\<close>

type_synonym 'c value_parser = "gtype \<Rightarrow> 'c gval \<Rightarrow> decoder \<Rightarrow> (bool \<times> 'c parsed) res"
type_synonym 'c part_parser = "gtype \<Rightarrow> 'c gval \<Rightarrow> decoder \<Rightarrow> 'c parsed res"
type_synonym 'c loop_parser = "gtype \<Rightarrow> gtype \<Rightarrow> bool \<Rightarrow> nat \<Rightarrow> 'c gval list \<Rightarrow> decoder \<Rightarrow> 'c parsed res"

definition parseValue_body :: "'c methods \<Rightarrow> 'c value_parser \<Rightarrow> 'c value_parser" where
  "parseValue_body C elem ty v d =
     (case ty of
        TPtr u \<Rightarrow> rbind (elem u (ptr_target C u v) d) (\<lambda>(ok, err, x). Ret (ok, err, GPtr (Some x)))
      | _ \<Rightarrow> elem ty v d)"

definition parse_elem_body :: "'c methods \<Rightarrow> nat \<Rightarrow> 'c part_parser \<Rightarrow> 'c part_parser \<Rightarrow> 'c value_parser" where
  "parse_elem_body C n dict lst ty v d =
     rbind (parseUnmarshaler C n ty v d) (\<lambda>r d.
       case r of
         Some x \<Rightarrow> Ret (True, None, x) d
       | None \<Rightarrow>
           if ty = TIface then
             rbind (parseValueInterface n d) (\<lambda>iface d.
               case iface of None \<Rightarrow> Throw EValue | Some x \<Rightarrow> Ret (True, None, GIface (Some x)) d)
           else
             (case dinput d of
                [] \<Rightarrow> Ret (False, Some EEOF, v) d
              | b # bs \<Rightarrow>
                  let d = d\<lparr>dinput := bs, dOffset := dOffset d + 1\<rparr> in
                  if b = ch_e then Ret (False, None, v) d
                  else if b = ch_d then rbind (dict ty v d) (\<lambda>r. Ret (True, r))
                  else if b = ch_l then rbind (lst ty v d) (\<lambda>r. Ret (True, r))
                  else if b = ch_i then rbind (parseInt ty v d) (\<lambda>r. Ret (True, r))
                  else if is_digit b then rbind (parseString ty v (d\<lparr>dbuf := [b]\<rparr>)) (\<lambda>r. Ret (True, r))
                  else Throw (ESyntax (dOffset d - 1) (WUnknownType b))))"

definition parseList_body :: "'c part_parser \<Rightarrow> 'c loop_parser \<Rightarrow> 'c part_parser" where
  "parseList_body lst loop ty v d =
     (case ty of
        TSlice t \<Rightarrow> loop ty t True 0 (slice_elems v) d
      | TArray k t \<Rightarrow> loop ty t False 0 (slice_elems v) d
      | _ \<Rightarrow>
          rbind (lst (TSlice ty) (GSlice None) d) (\<lambda>(err, l) d.
            if err \<noteq> None then Ret (err, v) d
            else case slice_elems l of
                [x] \<Rightarrow> Ret (None, x) d
              | _ \<Rightarrow> Ret (Some (EUnmarshalType ''list''), v) d))"

definition parse_list_body :: "'c methods \<Rightarrow> nat \<Rightarrow> 'c value_parser \<Rightarrow> 'c loop_parser \<Rightarrow> 'c loop_parser" where
  "parse_list_body C n value loop ty t grow i vs d =
     (let vs = (if grow \<and> i \<ge> length vs then vs @ [zero C t] else vs) in
      if i < length vs then
        rbind (value t (vs ! i) d) (\<lambda>(ok, err, x) d.
          if err \<noteq> None then Ret (err, if grow then GSlice (Some (vs[i := x])) else GArray (vs[i := x])) d
          else if \<not> ok then Ret (None, finish_list C ty i vs) d
          else loop ty t grow (i + 1) (vs[i := x]) d)
      else
        rbind (parseValueInterface n d) (\<lambda>iface d.
          if iface = None then Ret (None, finish_list C ty i vs) d
          else loop ty t grow (i + 1) vs d))"

definition parse_dict_value ::
  "'c methods \<Rightarrow> 'c value_parser \<Rightarrow> gtype \<Rightarrow> bytes list \<Rightarrow> bytes \<Rightarrow> decoder \<Rightarrow> (berror + 'c gval) res" where
  "parse_dict_value C value t tags keyStr d =
     rbind (value t (zero C t) d) (\<lambda>(ok, err, x) d.
       if err \<noteq> None \<and> \<not> (is_type_error (the err) \<and> IgnoreUnmarshalTypeError tags) then Ret (Inl (EField keyStr (the err))) d
       else if \<not> ok then Ret (Inl (EMissing keyStr)) d
       else Ret (Inr x) d)"

text \<open>The field of a key: \<open>Inl\<close> for an error, \<open>None\<close> when there is nowhere to put the value.\<close>

definition getDictField :: "gtype \<Rightarrow> bytes \<Rightarrow> berror + dictField option" where
  "getDictField dict key =
     (case dict of
        TMap t \<Rightarrow> Inr (Some \<lparr>dfType = t, dfPath = [], dfSettable = True, dfTags = []\<rparr>)
      | TStruct fs \<Rightarrow> (case getStructFieldForKey dict key of None \<Rightarrow> Inl ECrash | Some f \<Rightarrow> Inr f)
      | _ \<Rightarrow> Inl EDictInto)"

definition set_field :: "'c methods \<Rightarrow> gtype \<Rightarrow> dictField \<Rightarrow> bytes \<Rightarrow> 'c gval \<Rightarrow> 'c gval \<Rightarrow> berror + 'c gval" where
  "set_field C dict df key v x =
     (case dict of
        TMap t \<Rightarrow> Inr (map_put key x v)
      | _ \<Rightarrow>
          if \<not> dfSettable df then Inl ECrash
          else case set_path C (dfPath df) v x of None \<Rightarrow> Inl EValue | Some v \<Rightarrow> Inr v)"

definition parseDict_body :: "'c methods \<Rightarrow> nat \<Rightarrow> 'c value_parser \<Rightarrow> 'c part_parser \<Rightarrow> 'c part_parser" where
  "parseDict_body C n value dict ty v d =
     rbind (value TString (GString []) d) (\<lambda>(ok, err, kv) d.
       let keyStr = (case kv of GString s \<Rightarrow> s | _ \<Rightarrow> []) in
       case err of
         Some e \<Rightarrow> Ret (Some (EKey e), v) d
       | None \<Rightarrow>
           if \<not> ok then Ret (None, v) d
           else
             (case getDictField ty keyStr of
                Inl e \<Rightarrow> if e = ECrash then Throw ECrash else Ret (Some e, v) d
              | Inr None \<Rightarrow>
                  rbind (parseValueInterface n d) (\<lambda>iface d.
                    if iface = None then Ret (Some (EParsing keyStr), v) d else dict ty v d)
              | Inr (Some df) \<Rightarrow>
                  rbind (parse_dict_value C value (dfType df) (dfTags df) keyStr d) (\<lambda>r d.
                    case r of
                      Inl e \<Rightarrow> Ret (Some e, v) d
                    | Inr x \<Rightarrow> (case set_field C ty df keyStr v x of Inl e \<Rightarrow> Throw e | Inr v \<Rightarrow> dict ty v d))))"

fun parseValue :: "'c methods \<Rightarrow> nat \<Rightarrow> 'c value_parser"
  and parse_elem :: "'c methods \<Rightarrow> nat \<Rightarrow> 'c value_parser"
  and parseList :: "'c methods \<Rightarrow> nat \<Rightarrow> 'c part_parser"
  and parse_list_loop :: "'c methods \<Rightarrow> nat \<Rightarrow> 'c loop_parser"
  and parseDict :: "'c methods \<Rightarrow> nat \<Rightarrow> 'c part_parser" where
  "parseValue C 0 = (\<lambda>ty v d. NoFuel)"
| "parseValue C (Suc n) = parseValue_body C (parse_elem C n)"
| "parse_elem C 0 = (\<lambda>ty v d. NoFuel)"
| "parse_elem C (Suc n) = parse_elem_body C n (parseDict C n) (parseList C n)"
| "parseList C 0 = (\<lambda>ty v d. NoFuel)"
| "parseList C (Suc n) = parseList_body (parseList C n) (parse_list_loop C n)"
| "parse_list_loop C 0 = (\<lambda>ty t grow i vs d. NoFuel)"
| "parse_list_loop C (Suc n) = parse_list_body C n (parseValue C n) (parse_list_loop C n)"
| "parseDict C 0 = (\<lambda>ty v d. NoFuel)"
| "parseDict C (Suc n) = parseDict_body C n (parseValue C n) (parseDict C n)"

text \<open>For evaluation the functions take all their arguments, so that only the calls made are unfolded.\<close>

declare parseValue.simps [code del] parse_elem.simps [code del] parseList.simps [code del] parse_list_loop.simps [code del]
  parseDict.simps [code del]

lemma parse_code [code]:
  "parseValue C 0 ty v d = NoFuel"
  "parseValue C (Suc n) ty v d = parseValue_body C (parse_elem C n) ty v d"
  "parse_elem C 0 ty v d = NoFuel"
  "parse_elem C (Suc n) ty v d = parse_elem_body C n (parseDict C n) (parseList C n) ty v d"
  "parseList C 0 ty v d = NoFuel"
  "parseList C (Suc n) ty v d = parseList_body (parseList C n) (parse_list_loop C n) ty v d"
  "parse_list_loop C 0 ty t grow i vs d = NoFuel"
  "parse_list_loop C (Suc n) ty t grow i vs d = parse_list_body C n (parseValue C n) (parse_list_loop C n) ty t grow i vs d"
  "parseDict C 0 ty v d = NoFuel"
  "parseDict C (Suc n) ty v d = parseDict_body C n (parseValue C n) (parseDict C n) ty v d"
  by simp_all

text \<open>
  \<^verbatim>\<open>Decode\<close>: \<open>None\<close> when the panic is not recovered.  An \<^verbatim>\<open>EOF\<close> thrown from within a value is
  unexpected, one returned at its start is not.
\<close>

definition value_fuel :: "bytes \<Rightarrow> nat" where
  "value_fuel bs = 5 * length bs + 3"

definition Decoder_Decode :: "'c methods \<Rightarrow> gtype \<Rightarrow> 'c gval \<Rightarrow> decoder \<Rightarrow> (berror + 'c gval \<times> decoder) option" where
  "Decoder_Decode C ty v d =
     (case parseValue C (value_fuel (dinput d)) ty v d of
        NoFuel \<Rightarrow> None
      | Throw e \<Rightarrow> if e = ECrash then None else Some (Inl (if e = EEOF then EErrUnexpectedEOF else e))
      | Ret (ok, err, v) d \<Rightarrow>
          Some (case err of
                  Some e \<Rightarrow> Inl e
                | None \<Rightarrow> if \<not> ok then Inl (ESyntax (dOffset d - 1) WUnexpectedE) else Inr (v, d)))"

definition new_decoder :: "bytes \<Rightarrow> decoder" where
  "new_decoder bs = \<lparr>dinput = bs, dOffset = 0, dbuf = [], dMaxStrLen = 0\<rparr>"

definition Unmarshal :: "'c methods \<Rightarrow> bytes \<Rightarrow> gtype \<Rightarrow> 'c gval \<Rightarrow> (berror option \<times> 'c gval) option" where
  "Unmarshal C bs ty v =
     map_option (\<lambda>r. case r of
         Inl e \<Rightarrow> (Some e, v)
       | Inr (x, d) \<Rightarrow> (if dinput d \<noteq> [] then Some (EUnused (length (dinput d))) else None, x))
     (Decoder_Decode C ty v (new_decoder bs))"

text \<open>The methods of \<^verbatim>\<open>bencode.Bytes\<close>.\<close>

definition Bytes_UnmarshalBencode :: "bytes \<Rightarrow> bytes option" where
  "Bytes_UnmarshalBencode b = Some b"

definition Bytes_MarshalBencode :: "bytes \<Rightarrow> bytes option" where
  "Bytes_MarshalBencode me = (if length me = 0 then None else Some me)"

section \<open>Encoding\<close>

function writeString :: "bytes \<Rightarrow> bytes" where
  "writeString s = (if s \<noteq> [] then take 64 s @ writeString (drop 64 s) else [])"
  by pat_completeness auto
termination
  by (relation "measure length") auto

declare writeString.simps [simp del]

definition writeStringPrefix :: "nat \<Rightarrow> bytes" where
  "writeStringPrefix l = AppendInt (int l) @ writeString [ch_colon]"

definition reflectString :: "bytes \<Rightarrow> bytes" where
  "reflectString s = writeStringPrefix (length s) @ writeString s"

definition reflectByteSlice :: "bytes \<Rightarrow> bytes" where
  "reflectByteSlice s = writeStringPrefix (length s) @ s"

record encodeField =
  efType :: gtype
  efPath :: "nat list"
  efTag :: bytes
  efOmitEmpty :: bool

text \<open>\<open>None\<close> is the panic of \<^verbatim>\<open>NumField\<close>; fields of the same tag come in no particular order in the code.\<close>

function makeEncodeFields :: "gtype \<Rightarrow> encodeField list option"
  and encode_fields_from :: "nat \<Rightarrow> (field_info \<times> gtype) list \<Rightarrow> encodeField list option" where
  "makeEncodeFields t = (case t of TStruct fs \<Rightarrow> map_option (sort_key efTag) (encode_fields_from 0 fs) | _ \<Rightarrow> None)"
| "encode_fields_from i [] = Some []"
| "encode_fields_from i ((f, t) # fs) =
     (case encode_fields_from (Suc i) fs of
        None \<Rightarrow> None
      | Some rest \<Rightarrow>
          if \<not> fexported f then Some rest
          else if fanon f then
            (case makeEncodeFields (deref t) of
               None \<Rightarrow> None
             | Some inner \<Rightarrow> Some (map (\<lambda>ef. ef\<lparr>efPath := i # efPath ef\<rparr>) inner @ rest))
          else
            let tv = parseTag (ftag f) in
            if tag_Ignore tv then Some rest
            else Some (\<lparr>efType = t, efPath = [i], efTag = (if tag_Key tv \<noteq> [] then tag_Key tv else fname f),
                efOmitEmpty = OmitEmpty tv\<rparr> # rest))"
  by pat_completeness auto
termination
  by (relation "measure (\<lambda>x. case x of Inl t \<Rightarrow> 2 * size t | Inr (i, fs) \<Rightarrow> 2 * size_list (size_prod (\<lambda>_. 0) size) fs + 1)")
    (auto simp: size_deref_less)

declare makeEncodeFields.simps [simp del]

text \<open>The value of a field; \<open>None\<close> under a nil pointer to an embedded struct.\<close>

fun get_path :: "nat list \<Rightarrow> 'c gval \<Rightarrow> 'c gval option" where
  "get_path [] v = Some v"
| "get_path (i # path) (GStruct vs) =
     (if path = [] then Some (vs ! i)
      else case vs ! i of GPtr None \<Rightarrow> None | GPtr (Some w) \<Rightarrow> get_path path w | w \<Rightarrow> get_path path w)"
| "get_path (i # path) v = None"

fun concat_res :: "(berror + bytes) list \<Rightarrow> berror + bytes" where
  "concat_res [] = Inr []"
| "concat_res (Inl e # rs) = Inl e"
| "concat_res (Inr b # rs) = (case concat_res rs of Inl e \<Rightarrow> Inl e | Inr bs \<Rightarrow> Inr (b @ bs))"

definition around :: "bytes \<Rightarrow> berror + bytes \<Rightarrow> bytes \<Rightarrow> berror + bytes" where
  "around a r b = (case r of Inl e \<Rightarrow> Inl e | Inr bs \<Rightarrow> Inr (a @ bs @ b))"

text \<open>\<^verbatim>\<open>reflectSequence\<close> of bytes.\<close>

definition val_bytes :: "'c gval list \<Rightarrow> bytes" where
  "val_bytes vs = map (\<lambda>v. case v of GUint n \<Rightarrow> word_of_int n | _ \<Rightarrow> 0) vs"


lemma encode_fields_smaller:
  "makeEncodeFields t = Some efs \<Longrightarrow> ef \<in> set efs \<Longrightarrow> size (efType ef) < size t"
  "encode_fields_from i fs = Some efs \<Longrightarrow> ef \<in> set efs \<Longrightarrow> size (efType ef) < Suc (size_list (size_prod (\<lambda>_. 0) size) fs)"
proof (induction t and i fs arbitrary: efs ef and efs ef rule: makeEncodeFields_encode_fields_from.induct)
  case (1 t)
  then show ?case by (auto simp: makeEncodeFields.simps [of t] split: gtype.splits)
next
  case (3 i f t fs)
  from "3.prems"(1) obtain rest where rest: "encode_fields_from (Suc i) fs = Some rest" by (auto split: option.splits)
  have r: "x \<in> set rest \<Longrightarrow> size (efType x) < Suc (size_list (size_prod (\<lambda>_. 0) size) fs)" for x
    using "3.IH"(1) [OF rest] by blast
  show ?case
  proof (cases "fexported f \<and> fanon f")
    case True
    then obtain inner where "makeEncodeFields (deref t) = Some inner"
      "efs = map (\<lambda>ef. ef\<lparr>efPath := i # efPath ef\<rparr>) inner @ rest"
      using "3.prems"(1) rest by (auto split: option.splits)
    then show ?thesis using "3.IH"(2) [OF rest] "3.prems"(2) True r [of ef] size_deref [of t] by fastforce
  next
    case False
    then show ?thesis using "3.prems" rest r [of ef] by (auto simp: Let_def split: if_splits)
  qed
qed simp

definition reflectMarshaler :: "'c methods \<Rightarrow> string \<Rightarrow> 'c gval \<Rightarrow> berror + bytes" where
  "reflectMarshaler C c v =
     (case v of
        GCustom x \<Rightarrow> (case MarshalBencode C c x of None \<Rightarrow> Inl EMarshaler | Some b \<Rightarrow> Inr b)
      | _ \<Rightarrow> Inl EValue)"

text \<open>
  \<^verbatim>\<open>reflectValue\<close>.  A nil interface has no type, a nil pointer to a type with its own method is called
  all the same, and asking whether an array is nil is an error.
\<close>

function reflectValue :: "'c methods \<Rightarrow> gtype \<Rightarrow> 'c gval \<Rightarrow> berror + bytes" where
  "reflectValue C ty v =
     (case ty of
        TCustom c \<Rightarrow> reflectMarshaler C c v
      | TBool \<Rightarrow> Inr (writeString (str_bytes (case v of GBool True \<Rightarrow> ''i1e'' | _ \<Rightarrow> ''i0e'')))
      | TInt k \<Rightarrow> (case v of GInt n \<Rightarrow> Inr (writeString [ch_i] @ AppendInt n @ writeString [ch_e]) | _ \<Rightarrow> Inl EValue)
      | TUint k \<Rightarrow> (case v of GUint n \<Rightarrow> Inr (writeString [ch_i] @ AppendInt n @ writeString [ch_e]) | _ \<Rightarrow> Inl EValue)
      | TString \<Rightarrow> (case v of GString s \<Rightarrow> Inr (reflectString s) | _ \<Rightarrow> Inl EValue)
      | TStruct fs \<Rightarrow>
          (case makeEncodeFields ty of
             None \<Rightarrow> Inl ECrash
           | Some efs \<Rightarrow>
               around (writeString [ch_d])
                 (concat_res (map (\<lambda>ef.
                    case get_path (efPath ef) v of
                      None \<Rightarrow> Inr []
                    | Some x \<Rightarrow>
                        if efOmitEmpty ef \<and> isEmptyValue C x then Inr []
                        else around (reflectString (efTag ef)) (reflectValue C (efType ef) x) []) efs))
                 (writeString [ch_e]))
      | TMap t \<Rightarrow>
          (case v of
             GMap (Some kvs) \<Rightarrow>
               around (writeString [ch_d])
                 (concat_res (map (\<lambda>(key, x). around (reflectString key) (reflectValue C t x) []) (sort_key fst kvs)))
                 (writeString [ch_e])
           | _ \<Rightarrow> Inr (writeString [ch_d, ch_e]))
      | TSlice t \<Rightarrow>
          if t = TUint 8 then Inr (reflectByteSlice (val_bytes (slice_elems v)))
          else (case v of
             GSlice (Some vs) \<Rightarrow>
               around (writeString [ch_l]) (concat_res (map (\<lambda>x. reflectValue C t x) vs)) (writeString [ch_e])
           | _ \<Rightarrow> Inr (writeString [ch_l, ch_e]))
      | TArray n t \<Rightarrow> if t = TUint 8 then Inr (reflectByteSlice (val_bytes (slice_elems v))) else Inl EValue
      | TIface \<Rightarrow> (case v of GIface (Some x) \<Rightarrow> Inr (encode_value x) | _ \<Rightarrow> Inl EValue)
      | TPtr t \<Rightarrow>
          (case v of
             GPtr (Some x) \<Rightarrow> reflectValue C t x
           | _ \<Rightarrow> (case t of TCustom c \<Rightarrow> Inl ECrash | _ \<Rightarrow> reflectValue C t (zero C t)))
      | TOther k \<Rightarrow> Inl EMarshalType)"
  by pat_completeness auto
termination
  by (relation "measure (\<lambda>(C, ty, v). size ty)") (auto dest: encode_fields_smaller(1))

declare reflectValue.simps [simp del]

text \<open>\<^verbatim>\<open>Marshal\<close>: \<open>None\<close> when the panic is not recovered.\<close>

definition Marshal :: "'c methods \<Rightarrow> gtype \<Rightarrow> 'c gval \<Rightarrow> (berror + bytes) option" where
  "Marshal C ty v = (case reflectValue C ty v of Inl e \<Rightarrow> if e = ECrash then None else Some (Inl e) | Inr b \<Rightarrow> Some (Inr b))"


section \<open>Decoding ends\<close>

lemma case_eq_Ret [simp]:
  "(case s of Inl e \<Rightarrow> Throw (f e) | Inr x \<Rightarrow> g x) = Ret r d' \<longleftrightarrow> (\<exists>x. s = Inr x \<and> g x = Ret r d')"
  "(case w of None \<Rightarrow> Throw e | Some x \<Rightarrow> h x) = Ret r d' \<longleftrightarrow> (\<exists>x. w = Some x \<and> h x = Ret r d')"
  by (cases s; simp) (cases w; simp)

lemma bites_readByte: "readByte d = Ret b d' \<Longrightarrow> bites d d'"
  using bites_byte by (auto simp: readByte_def split: list.splits)

lemma ate_copyN: "copyN len d = Ret u d' \<Longrightarrow> ate d d'"
  by (auto simp: copyN_def ate_def Let_def split: if_splits intro!: exI [of _ "take (nat len) (dinput d)"])

lemma readByte_fuel [simp]: "readByte d \<noteq> NoFuel" "copyN len d \<noteq> NoFuel"
  by (auto simp: readByte_def copyN_def Let_def split: list.splits)

lemma readOne_ate_all:
  "(\<forall>d b d'. readOneValue n d = Ret b d' \<longrightarrow> ate d d' \<and> (b \<longrightarrow> bites d d')) \<and>
   (\<forall>d u d'. readValues n d = Ret u d' \<longrightarrow> ate d d')"
proof (induction n)
  case (Suc n)
  then have ih: "readOneValue n d = Ret b d' \<Longrightarrow> ate d d'" "readValues n d = Ret u d' \<Longrightarrow> ate d d'" for d b d' u by blast+
  have "ate d d' \<and> (r \<longrightarrow> bites d d')" if p: "readOneValue (Suc n) d = Ret r d'" for d r d'
  proof -
    from p obtain b bs where b: "dinput d = b # bs" by (cases "dinput d") auto
    let ?d = "d\<lparr>dinput := bs, dOffset := dOffset d + 1, dbuf := dbuf d @ [b]\<rparr>"
    have b0: "bites d ?d" using bites_byte [OF b] by simp
    consider "b = ch_e" | "b = ch_d \<or> b = ch_l" | "b = ch_i" | "b \<notin> {ch_e, ch_d, ch_l, ch_i}" "is_digit b"
      using p b by (fastforce simp: Let_def split: if_splits)
    then show ?thesis
    proof cases
      case 1
      then show ?thesis using p b by simp
    next
      case 2
      then obtain d1 x d2 where r: "readValues n ?d = Ret () d1" "readByte d1 = Ret x d2" "d' = d2\<lparr>dbuf := dbuf d2 @ [x]\<rparr>"
        using p b by (auto simp: rbind_eq_Ret Let_def split: if_splits)
      have "ate ?d d'" using ate_trans [OF ih(2) [OF r(1)] bites_ate [OF bites_readByte [OF r(2)]]] r(3) by simp
      then show ?thesis using bites_trans(1) [OF b0] bites_ate by blast
    next
      case 3
      then have "ate ?d d'" using p b by (auto simp: rbind_eq_Ret Let_def dest!: bites_readUntil intro: bites_ate)
      then show ?thesis using bites_trans(1) [OF b0] bites_ate by blast
    next
      case 4
      then obtain d1 len where r: "readUntil ch_colon ?d = Ret () d1" "copyN len (d1\<lparr>dbuf := dbuf d1 @ [ch_colon]\<rparr>) = Ret () d'"
        using p b by (auto simp: rbind_eq_Ret Let_def)
      have "ate d1 d'" using ate_copyN [OF r(2)] by simp
      then have "ate ?d d'" using ate_trans [OF bites_ate [OF bites_readUntil [OF r(1)]]] by blast
      then show ?thesis using bites_trans(1) [OF b0] bites_ate by blast
    qed
  qed
  moreover have "ate d d'" if "readValues (Suc n) d = Ret u d'" for d u d'
    using that by (auto simp: rbind_eq_Ret split: if_splits dest!: ih intro: ate_trans)
  ultimately show ?case by blast
qed simp

lemmas readOne_ate = readOne_ate_all [THEN conjunct1, rule_format]

lemma readOne_fuel_all:
  "(\<forall>d. 2 * length (dinput d) + 1 \<le> n \<longrightarrow> readOneValue n d \<noteq> NoFuel) \<and>
   (\<forall>d. 2 * length (dinput d) + 2 \<le> n \<longrightarrow> readValues n d \<noteq> NoFuel)"
proof (induction n)
  case (Suc n)
  then have ih: "2 * length (dinput d) + 1 \<le> n \<Longrightarrow> readOneValue n d \<noteq> NoFuel"
    "2 * length (dinput d) + 2 \<le> n \<Longrightarrow> readValues n d \<noteq> NoFuel" for d by blast+
  have "readOneValue (Suc n) d \<noteq> NoFuel" if "2 * length (dinput d) + 1 \<le> Suc n" for d
    using that ih(2) by (auto simp: Let_def rbind_eq_NoFuel split: list.splits if_splits sum.splits)
  moreover have "readValues (Suc n) d \<noteq> NoFuel" if l: "2 * length (dinput d) + 2 \<le> Suc n" for d
  proof -
    have "readOneValue n d \<noteq> NoFuel" using ih(1) l by simp
    moreover have "readValues n d1 \<noteq> NoFuel" if "readOneValue n d = Ret True d1" for d1
      using ih(2) readOne_ate [OF that] l by (simp add: bites_def)
    ultimately show ?thesis by (auto simp: rbind_eq_NoFuel)
  qed
  ultimately show ?case by blast
qed simp

lemmas readOne_fuel = readOne_fuel_all [THEN conjunct1, rule_format]

lemma parseUnmarshaler_ate: "parseUnmarshaler C n ty v d = Ret r d' \<Longrightarrow> ate d d' \<and> (r \<noteq> None \<longrightarrow> bites d d')"
  by (auto simp: parseUnmarshaler_def rbind_eq_Ret split: option.split_asm if_splits sum.split_asm dest!: readOne_ate)

lemma parseUnmarshaler_fuel: "2 * length (dinput d) + 1 \<le> n \<Longrightarrow> parseUnmarshaler C n ty v d \<noteq> NoFuel"
  using readOne_fuel [of "d\<lparr>dbuf := []\<rparr>" n]
  by (auto simp: parseUnmarshaler_def rbind_eq_NoFuel split: option.split_asm if_splits sum.split_asm)

lemma read_string_ate: "read_string len d = Ret b d' \<Longrightarrow> ate d d'"
  by (auto simp: read_string_def ate_def Let_def split: if_splits intro!: exI [of _ "take (nat len) (dinput d)"])

lemma parseInt_ate: "parseInt ty v d = Ret r d' \<Longrightarrow> ate d d'"
  by (auto simp: parseInt_def readInt_def rbind_eq_Ret Let_def split: if_splits sum.split_asm prod.split_asm
      dest!: bites_readUntil intro: bites_ate)

lemma parseString_ate: "parseString ty v d = Ret r d' \<Longrightarrow> ate d d'"
proof -
  assume a: "parseString ty v d = Ret r d'"
  then obtain len err d1 where l: "parseStringLength d = Ret (len, err) d1" by (auto simp: parseString_def rbind_eq_Ret)
  then have "ate d d1" using bites_parseStringLength bites_ate by blast
  moreover have "ate d1 d'"
    using a l by (auto simp: parseString_def rbind_eq_Ret split: if_splits dest!: read_string_ate)
  ultimately show ?thesis by (rule ate_trans)
qed

lemma parse_part_fuel [simp]: "parseInt ty v d \<noteq> NoFuel" "parseString ty v d \<noteq> NoFuel"
proof -
  have "read_string len d \<noteq> NoFuel" for len d by (simp add: read_string_def Let_def)
  then show "parseString ty v d \<noteq> NoFuel" by (auto simp: parseString_def rbind_eq_NoFuel)
  show "parseInt ty v d \<noteq> NoFuel"
    by (auto simp: parseInt_def rbind_eq_NoFuel Let_def split: if_splits sum.split_asm prod.split_asm)
qed


text \<open>A value parser eats, and bites off at least a byte where it says it has read a value.\<close>

definition eats :: "(decoder \<Rightarrow> 'a res) \<Rightarrow> bool" where
  "eats p \<longleftrightarrow> (\<forall>d r d'. p d = Ret r d' \<longrightarrow> ate d d')"

definition eats_value :: "(decoder \<Rightarrow> (bool \<times> 'a) res) \<Rightarrow> bool" where
  "eats_value p \<longleftrightarrow> (\<forall>d r d'. p d = Ret r d' \<longrightarrow> ate d d' \<and> (fst r \<longrightarrow> bites d d'))"

lemma eatsD: "eats p \<Longrightarrow> p d = Ret r d' \<Longrightarrow> ate d d'"
  by (simp add: eats_def)

lemma eats_valueD: "eats_value p \<Longrightarrow> p d = Ret r d' \<Longrightarrow> ate d d'" "eats_value p \<Longrightarrow> p d = Ret (True, x) d' \<Longrightarrow> bites d d'"
  unfolding eats_value_def by blast fastforce

lemma parseValue_body_eats: "(\<And>ty v. eats_value (elem ty v)) \<Longrightarrow> eats_value (parseValue_body C elem ty v)"
  by (cases ty) (auto simp: parseValue_body_def eats_value_def rbind_eq_Ret)

definition next_byte :: "bytes \<Rightarrow> decoder \<Rightarrow> decoder" where
  "next_byte bs d = d\<lparr>dinput := bs, dOffset := dOffset d + 1\<rparr>"

lemma parse_elem_body_Ret:
  assumes "parse_elem_body C n dict lst ty v d = Ret r d'"
  obtains (custom) x where "parseUnmarshaler C n ty v d = Ret (Some x) d'" "r = (True, None, x)"
  | (iface) d1 x where "parseUnmarshaler C n ty v d = Ret None d1" "ty = TIface" "parseValueInterface n d1 = Ret (Some x) d'"
      "r = (True, None, GIface (Some x))"
  | (eof) "parseUnmarshaler C n ty v d = Ret None d'" "r = (False, Some EEOF, v)"
  | (stop) d1 bs where "parseUnmarshaler C n ty v d = Ret None d1" "dinput d1 = ch_e # bs" "d' = next_byte bs d1" "r = (False, None, v)"
  | (part) d1 b bs q where "parseUnmarshaler C n ty v d = Ret None d1" "dinput d1 = b # bs" "r = (True, q)"
      "dict ty v (next_byte bs d1) = Ret q d' \<or> lst ty v (next_byte bs d1) = Ret q d' \<or> parseInt ty v (next_byte bs d1) = Ret q d' \<or>
       parseString ty v ((next_byte bs d1)\<lparr>dbuf := [b]\<rparr>) = Ret q d'"
proof -
  from assms obtain u d1 where u: "parseUnmarshaler C n ty v d = Ret u d1" by (auto simp: parse_elem_body_def rbind_eq_Ret)
  note b = assms [unfolded parse_elem_body_def u rbind_simps]
  show ?thesis
  proof (cases u)
    case (Some x)
    then show ?thesis using b u that(1) by simp
  next
    case None
    note b = b [unfolded None option.case]
    show ?thesis
    proof (cases "ty = TIface")
      case True
      then show ?thesis using b u None that(2) by (auto simp: rbind_eq_Ret)
    next
      case ni: False
      show ?thesis
      proof (cases "dinput d1")
        case Nil
        then show ?thesis using b u None ni that(3) by simp
      next
        case (Cons c bs)
        have c: "(if c = ch_e then Ret (False, None, v) (next_byte bs d1)
            else if c = ch_d then rbind (dict ty v (next_byte bs d1)) (\<lambda>r. Ret (True, r))
            else if c = ch_l then rbind (lst ty v (next_byte bs d1)) (\<lambda>r. Ret (True, r))
            else if c = ch_i then rbind (parseInt ty v (next_byte bs d1)) (\<lambda>r. Ret (True, r))
            else if is_digit c then rbind (parseString ty v ((next_byte bs d1)\<lparr>dbuf := [c]\<rparr>)) (\<lambda>r. Ret (True, r))
            else Throw (ESyntax (dOffset (next_byte bs d1) - 1) (WUnknownType c))) = Ret r d'"
          using b ni Cons unfolding next_byte_def by (simp add: Let_def)
        show ?thesis
        proof (cases "c = ch_e")
          case True
          then show ?thesis using that(4) [of d1 bs] u None Cons c by simp
        next
          case False
          then show ?thesis using that(5) [of d1 c bs] u None Cons c by (auto simp: rbind_eq_Ret split: if_splits)
        qed
      qed
    qed
  qed
qed

lemma bites_next_byte: "dinput d = b # bs \<Longrightarrow> bites d (next_byte bs d)"
  unfolding next_byte_def by (rule bites_byte)

lemma parse_elem_body_eats:
  assumes "\<And>ty v. eats (dict ty v)" "\<And>ty v. eats (lst ty v)"
  shows "eats_value (parse_elem_body C n dict lst ty v)"
  unfolding eats_value_def
proof (intro allI impI)
  fix d r d'
  assume p: "parse_elem_body C n dict lst ty v d = Ret r d'"
  show "ate d d' \<and> (fst r \<longrightarrow> bites d d')"
  proof (rule parse_elem_body_Ret [OF p])
    fix x assume "parseUnmarshaler C n ty v d = Ret (Some x) d'"
    then show ?thesis using parseUnmarshaler_ate by blast
  next
    fix d1 x assume u: "parseUnmarshaler C n ty v d = Ret None d1" "parseValueInterface n d1 = Ret (Some x) d'"
    then have "bites d d'" using bites_trans(2) parseUnmarshaler_ate bites_interface(1) by blast
    then show ?thesis using bites_ate by blast
  next
    assume "parseUnmarshaler C n ty v d = Ret None d'" "r = (False, Some EEOF, v)"
    then show ?thesis using parseUnmarshaler_ate [of C n ty v d None d'] by simp
  next
    fix d1 bs assume "parseUnmarshaler C n ty v d = Ret None d1" "dinput d1 = ch_e # bs" "d' = next_byte bs d1"
    then have "bites d d'" using bites_trans(2) parseUnmarshaler_ate bites_next_byte by blast
    then show ?thesis using bites_ate by blast
  next
    fix d1 b bs q assume u: "parseUnmarshaler C n ty v d = Ret None d1" "dinput d1 = b # bs"
      and q: "dict ty v (next_byte bs d1) = Ret q d' \<or> lst ty v (next_byte bs d1) = Ret q d' \<or> parseInt ty v (next_byte bs d1) = Ret q d' \<or>
        parseString ty v ((next_byte bs d1)\<lparr>dbuf := [b]\<rparr>) = Ret q d'"
    have "ate (next_byte bs d1) d'"
      using q parseString_ate [of ty v "(next_byte bs d1)\<lparr>dbuf := [b]\<rparr>" q d']
      by (auto dest: eatsD [OF assms(1)] eatsD [OF assms(2)] parseInt_ate)
    then have "bites d d'" using u bites_trans parseUnmarshaler_ate bites_next_byte by blast
    then show ?thesis using bites_ate by blast
  qed
qed

lemma parseList_body_eats:
  assumes "\<And>ty v. eats (lst ty v)" "\<And>ty t g i vs. eats (loop ty t g i vs)"
  shows "eats (parseList_body lst loop ty v)"
proof -
  have "ate d d'" if "rbind (lst (TSlice ty) (GSlice None) d) (\<lambda>(err, l) d.
      if err \<noteq> None then Ret (err, v) d
      else case slice_elems l of [x] \<Rightarrow> Ret (None, x) d | _ \<Rightarrow> Ret (Some (EUnmarshalType ''list''), v) d) = Ret r d'" for d r d'
    using that by (auto simp: rbind_eq_Ret split: if_splits list.split_asm dest: eatsD [OF assms(1)])
  then show ?thesis using assms(2) by (cases ty) (auto simp: parseList_body_def eats_def)
qed

lemma parse_list_body_Ret:
  assumes "parse_list_body C n value loop ty t g i vs d = Ret r d'"
  defines "ws \<equiv> if g \<and> i \<ge> length vs then vs @ [zero C t] else vs"
  obtains (error) ok e x where "i < length ws" "value t (ws ! i) d = Ret (ok, Some e, x) d'"
      "r = (Some e, if g then GSlice (Some (ws[i := x])) else GArray (ws[i := x]))"
  | (stop) x where "i < length ws" "value t (ws ! i) d = Ret (False, None, x) d'" "r = (None, finish_list C ty i ws)"
  | (again) x d1 where "i < length ws" "value t (ws ! i) d = Ret (True, None, x) d1" "loop ty t g (i + 1) (ws[i := x]) d1 = Ret r d'"
  | (over) "\<not> i < length ws" "parseValueInterface n d = Ret None d'" "r = (None, finish_list C ty i ws)"
  | (skip) y d1 where "\<not> i < length ws" "parseValueInterface n d = Ret (Some y) d1" "loop ty t g (i + 1) ws d1 = Ret r d'"
proof (cases "i < length ws")
  case True
  then have "rbind (value t (ws ! i) d) (\<lambda>(ok, err, x) d.
      if err \<noteq> None then Ret (err, if g then GSlice (Some (ws[i := x])) else GArray (ws[i := x])) d
      else if \<not> ok then Ret (None, finish_list C ty i ws) d
      else loop ty t g (i + 1) (ws[i := x]) d) = Ret r d'"
    using assms(1) unfolding parse_list_body_def ws_def [symmetric] Let_def by simp
  then obtain ok err x d1 where "value t (ws ! i) d = Ret (ok, err, x) d1"
    "(if err \<noteq> None then Ret (err, if g then GSlice (Some (ws[i := x])) else GArray (ws[i := x])) d1
      else if \<not> ok then Ret (None, finish_list C ty i ws) d1 else loop ty t g (i + 1) (ws[i := x]) d1) = Ret r d'"
    by (auto simp: rbind_eq_Ret)
  then show ?thesis using True that(1-3) by (cases err; cases ok) simp_all
next
  case False
  then have "rbind (parseValueInterface n d) (\<lambda>iface d.
      if iface = None then Ret (None, finish_list C ty i ws) d else loop ty t g (i + 1) ws d) = Ret r d'"
    using assms(1) unfolding parse_list_body_def ws_def [symmetric] Let_def by simp
  then obtain y d1 where "parseValueInterface n d = Ret y d1"
    "(if y = None then Ret (None, finish_list C ty i ws) d1 else loop ty t g (i + 1) ws d1) = Ret r d'" by (auto simp: rbind_eq_Ret)
  then show ?thesis using False that(4,5) by (cases y) simp_all
qed

lemma parse_list_body_eats:
  assumes "\<And>ty v. eats_value (value ty v)" "\<And>ty t g i vs. eats (loop ty t g i vs)"
  shows "eats (parse_list_body C n value loop ty t g i vs)"
  unfolding eats_def
proof (intro allI impI)
  fix d r d'
  assume p: "parse_list_body C n value loop ty t g i vs d = Ret r d'"
  show "ate d d'"
    by (rule parse_list_body_Ret [OF p])
      (blast dest: eats_valueD(1) [OF assms(1)] eatsD [OF assms(2)] bites_interface(1) bites_ate intro: ate_trans)+
qed

definition key_string :: "'c gval \<Rightarrow> bytes" where
  "key_string kv = (case kv of GString s \<Rightarrow> s | _ \<Rightarrow> [])"

lemma parseDict_body_Ret:
  assumes "parseDict_body C n value dict ty v d = Ret r d'"
  obtains (key_error) ok e kv where "value TString (GString []) d = Ret (ok, Some e, kv) d'" "r = (Some (EKey e), v)"
  | (stop) kv where "value TString (GString []) d = Ret (False, None, kv) d'" "r = (None, v)"
  | (no_field) kv e where "value TString (GString []) d = Ret (True, None, kv) d'" "r = (Some e, v)"
  | (no_value) kv d1 where "value TString (GString []) d = Ret (True, None, kv) d1" "parseValueInterface n d1 = Ret None d'"
      "r = (Some (EParsing (key_string kv)), v)"
  | (discard) kv d1 y d2 where "value TString (GString []) d = Ret (True, None, kv) d1"
      "parseValueInterface n d1 = Ret (Some y) d2" "dict ty v d2 = Ret r d'"
  | (value_error) kv d1 e and df :: dictField where "value TString (GString []) d = Ret (True, None, kv) d1"
      "parse_dict_value C value (dfType df) (dfTags df) (key_string kv) d1 = Ret (Inl e) d'" "r = (Some e, v)"
  | (set) kv d1 x d2 v' and df :: dictField where "value TString (GString []) d = Ret (True, None, kv) d1"
      "getDictField ty (key_string kv) = Inr (Some df)"
      "parse_dict_value C value (dfType df) (dfTags df) (key_string kv) d1 = Ret (Inr x) d2"
      "set_field C ty df (key_string kv) v x = Inr v'" "dict ty v' d2 = Ret r d'"
proof -
  from assms obtain ok err kv d1 where k: "value TString (GString []) d = Ret (ok, err, kv) d1"
    by (auto simp: parseDict_body_def rbind_eq_Ret)
  note b = assms [unfolded parseDict_body_def k rbind_simps prod.case Let_def, folded key_string_def]
  show ?thesis
  proof (cases "err = None \<and> ok")
    case False
    then show ?thesis using b k that(1,2) by (cases err) auto
  next
    case True
    then have k: "value TString (GString []) d = Ret (True, None, kv) d1" using k by simp
    show ?thesis
    proof (cases "getDictField ty (key_string kv)")
      case (Inl e)
      then show ?thesis using b True that(3) [of kv e] k by (auto split: if_splits)
    next
      case (Inr f)
      show ?thesis
      proof (cases f)
        case None
        then obtain y d2 where y: "parseValueInterface n d1 = Ret y d2"
          "(if y = None then Ret (Some (EParsing (key_string kv)), v) d2 else dict ty v d2) = Ret r d'"
          using b True Inr by (auto simp: rbind_eq_Ret)
        then show ?thesis using k that(4,5) by (cases y) auto
      next
        case (Some df)
        then obtain w d2 where w: "parse_dict_value C value (dfType df) (dfTags df) (key_string kv) d1 = Ret w d2"
          "(case w of Inl e \<Rightarrow> Ret (Some e, v) d2
            | Inr x \<Rightarrow> (case set_field C ty df (key_string kv) v x of Inl e \<Rightarrow> Throw e | Inr v \<Rightarrow> dict ty v d2)) = Ret r d'"
          using b True Inr by (auto simp: rbind_eq_Ret)
        then show ?thesis using k Inr Some that(6) [of kv d1 df] that(7) [of kv d1 df] by (cases w) auto
      qed
    qed
  qed
qed

lemma parse_dict_value_eats:
  "(\<And>ty v. eats_value (value ty v)) \<Longrightarrow> eats (parse_dict_value C value t tags k)"
  by (auto simp: eats_def parse_dict_value_def rbind_eq_Ret split: if_splits dest: eats_valueD(1))

lemma parseDict_body_eats:
  assumes "\<And>ty v. eats_value (value ty v)" "\<And>ty v. eats (dict ty v)"
  shows "eats (parseDict_body C n value dict ty v)"
  unfolding eats_def
proof (intro allI impI)
  fix d r d'
  assume p: "parseDict_body C n value dict ty v d = Ret r d'"
  note v = eats_valueD(1) [OF assms(1)] and di = eatsD [OF assms(2)] and it = bites_ate [OF bites_interface(1)]
  have "eats (parse_dict_value C value t tags k)" for t tags k by (rule parse_dict_value_eats) (rule assms(1))
  note pv = eatsD [OF this]
  from p show "ate d d'"
  proof (cases rule: parseDict_body_Ret)
    case (key_error ok e kv)
    then show ?thesis using v by blast
  next
    case (stop kv)
    then show ?thesis using v by blast
  next
    case (no_field kv e)
    then show ?thesis using v by blast
  next
    case (no_value kv d1)
    then show ?thesis using ate_trans [OF v it] by blast
  next
    case (discard kv d1 y d2)
    then show ?thesis using ate_trans [OF ate_trans [OF v it] di] by blast
  next
    case (value_error kv d1 e df)
    then show ?thesis using ate_trans [OF v pv] by blast
  next
    case (set kv d1 x d2 v' df)
    then show ?thesis using ate_trans [OF ate_trans [OF v pv] di] by blast
  qed
qed

lemma typed_eats:
  "eats_value (parseValue C n ty v)" "eats_value (parse_elem C n ty v)" "eats (parseList C n ty v)"
  "eats (parse_list_loop C n ty t g i vs)" "eats (parseDict C n ty v)"
proof (induction n arbitrary: ty t v g i vs)
  case (Suc n)
  show "eats_value (parseValue C (Suc n) ty v)" "eats_value (parse_elem C (Suc n) ty v)" "eats (parseList C (Suc n) ty v)"
    "eats (parse_list_loop C (Suc n) ty t g i vs)" "eats (parseDict C (Suc n) ty v)" for ty t v g i vs
    using parseValue_body_eats [OF Suc(2)] parse_elem_body_eats [OF Suc(5,3)] parseList_body_eats [OF Suc(3,4)]
      parse_list_body_eats [OF Suc(1,4)] parseDict_body_eats [OF Suc(1,5)] by simp_all
qed (simp_all add: eats_def eats_value_def)


lemma parse_elem_body_fuel:
  assumes "parseUnmarshaler C n ty v d \<noteq> NoFuel" "\<And>d1. ate d d1 \<Longrightarrow> parseValueInterface n d1 \<noteq> NoFuel"
    "\<And>d1. length (dinput d1) < length (dinput d) \<Longrightarrow> dict ty v d1 \<noteq> NoFuel"
    "\<And>d1. length (dinput d1) < length (dinput d) \<Longrightarrow> lst ty v d1 \<noteq> NoFuel"
  shows "parse_elem_body C n dict lst ty v d \<noteq> NoFuel"
proof (cases "parseUnmarshaler C n ty v d")
  case (Ret u d1)
  note a = parseUnmarshaler_ate [OF Ret]
  show ?thesis
  proof (cases "u = None \<and> ty \<noteq> TIface \<and> dinput d1 \<noteq> []")
    case True
    then obtain b bs where b: "dinput d1 = b # bs" by (cases "dinput d1") auto
    have "length (dinput (d1\<lparr>dinput := bs, dOffset := dOffset d1 + 1\<rparr>)) < length (dinput d)"
      using a ate_le [of d d1] b by simp
    note l = assms(3) [OF this] assms(4) [OF this]
    then show ?thesis using True b Ret by (auto simp: parse_elem_body_def rbind_eq_NoFuel Let_def)
  next
    case False
    then show ?thesis using Ret a assms(2) [of d1]
      by (auto simp: parse_elem_body_def rbind_eq_NoFuel split: option.split_asm)
  qed
qed (use assms(1) in \<open>simp_all add: parse_elem_body_def\<close>)

lemma parseList_body_fuel:
  assumes "lst (TSlice ty) (GSlice None) d \<noteq> NoFuel \<or> (\<exists>t. ty = TSlice t) \<or> (\<exists>k t. ty = TArray k t)"
    "\<And>t g. loop ty t g 0 (slice_elems v) d \<noteq> NoFuel"
  shows "parseList_body lst loop ty v d \<noteq> NoFuel"
proof -
  have "rbind (lst (TSlice ty) (GSlice None) d) (\<lambda>(err, l) d.
      if err \<noteq> None then Ret (err, v) d
      else case slice_elems l of [x] \<Rightarrow> Ret (None, x) d | _ \<Rightarrow> Ret (Some (EUnmarshalType ''list''), v) d) \<noteq> NoFuel"
    if "lst (TSlice ty) (GSlice None) d \<noteq> NoFuel"
    using that by (auto simp: rbind_eq_NoFuel split: list.split_asm if_splits)
  then show ?thesis using assms by (cases ty) (simp_all add: parseList_body_def)
qed

lemma parse_list_body_fuel:
  assumes "\<And>v. value t v d \<noteq> NoFuel" "parseValueInterface n d \<noteq> NoFuel" "eats_value (value t (vs' ! i))"
    "\<And>vs d1. length (dinput d1) < length (dinput d) \<Longrightarrow> loop ty t g (i + 1) vs d1 \<noteq> NoFuel"
    "vs' = (if g \<and> i \<ge> length vs then vs @ [zero C t] else vs)"
  shows "parse_list_body C n value loop ty t g i vs d \<noteq> NoFuel"
proof (cases "i < length vs'")
  case True
  show ?thesis
  proof (cases "value t (vs' ! i) d")
    case (Ret r d1)
    obtain ok err x where r: "r = (ok, err, x)" by (cases r)
    have "ok \<Longrightarrow> length (dinput d1) < length (dinput d)" using eats_valueD(2) [OF assms(3)] Ret r by (auto simp: bites_def)
    then show ?thesis using assms(4) [of d1] Ret r True
      unfolding parse_list_body_def assms(5) [symmetric] Let_def by simp
  qed (use assms(1) True in \<open>simp_all add: parse_list_body_def assms(5) [symmetric] Let_def\<close>)
next
  case False
  show ?thesis
  proof (cases "parseValueInterface n d")
    case (Ret y d1)
    then have "length (dinput d1) < length (dinput d)" using bites_interface(1) by (auto simp: bites_def)
    then show ?thesis using assms(4) [of d1] Ret False
      unfolding parse_list_body_def assms(5) [symmetric] Let_def by simp
  qed (use assms(2) False in \<open>simp_all add: parse_list_body_def assms(5) [symmetric] Let_def\<close>)
qed

lemma parseDict_body_fuel:
  assumes "\<And>ty v d1. ate d d1 \<Longrightarrow> valp ty v d1 \<noteq> NoFuel" "\<And>d1. ate d d1 \<Longrightarrow> parseValueInterface n d1 \<noteq> NoFuel"
    "\<And>ty v. eats_value (valp ty v)" "\<And>v d1. length (dinput d1) < length (dinput d) \<Longrightarrow> dict ty v d1 \<noteq> NoFuel"
  shows "parseDict_body C n valp dict ty v d \<noteq> NoFuel"
proof (cases "valp TString (GString []) d")
  case (Ret r d1)
  obtain ok err kv where r: "r = (ok, err, kv)" by (cases r)
  note b = parseDict_body_def [of C n valp dict ty v d, unfolded Ret r rbind_simps prod.case Let_def, folded key_string_def]
  show ?thesis
  proof (cases "err = None \<and> ok")
    case False
    then show ?thesis unfolding b by (cases err) simp_all
  next
    case True
    then have bi: "bites d d1" using eats_valueD(2) [OF assms(3)] Ret r by simp
    have pv: "parse_dict_value C valp t tags k d1 \<noteq> NoFuel" for t tags k
      using assms(1) [OF bites_ate [OF bi]] by (auto simp: parse_dict_value_def rbind_eq_NoFuel split: if_splits)
    have "eats (parse_dict_value C valp t tags k)" for t tags k by (rule parse_dict_value_eats) (rule assms(3))
    then have d2: "parse_dict_value C valp t tags k d1 = Ret w d2 \<Longrightarrow> dict ty v' d2 \<noteq> NoFuel" for t tags k w d2 v'
      using assms(4) bites_trans(1) [OF bi] eatsD by (metis bites_def)
    have d3: "parseValueInterface n d1 = Ret y d2 \<Longrightarrow> dict ty v' d2 \<noteq> NoFuel" for y d2 v'
      using assms(4) bites_trans(1) [OF bi bites_ate [OF bites_interface(1)]] by (metis bites_def)
    show ?thesis
    proof (cases "getDictField ty (key_string kv)")
      case (Inl e)
      then show ?thesis using True unfolding b by simp
    next
      case (Inr f)
      show ?thesis
      proof (cases f)
        case None
        then show ?thesis using True Inr assms(2) [OF bites_ate [OF bi]] d3 unfolding b by (auto simp: rbind_eq_NoFuel)
      next
        case (Some df)
        then show ?thesis using True Inr pv d2 unfolding b by (auto simp: rbind_eq_NoFuel split: sum.split_asm)
      qed
    qed
  qed
qed (use assms(1) in \<open>simp_all add: parseDict_body_def\<close>)


text \<open>The fuel each function needs for its input.\<close>

abbreviation (input) listy :: "gtype \<Rightarrow> bool" where
  "listy ty \<equiv> (\<exists>t. ty = TSlice t) \<or> (\<exists>k t. ty = TArray k t)"

lemma typed_fuel_all:
  fixes C :: "'c methods"
  shows "(\<forall>ty v d. 5 * length (dinput d) + 3 \<le> n \<longrightarrow> parseValue C n ty v d \<noteq> NoFuel) \<and>
  (\<forall>ty v d. 5 * length (dinput d) + 2 \<le> n \<longrightarrow> parse_elem C n ty v d \<noteq> NoFuel) \<and>
  (\<forall>ty v d. 5 * length (dinput d) + (if listy ty then 5 else 6) \<le> n \<longrightarrow> parseList C n ty v d \<noteq> NoFuel) \<and>
  (\<forall>ty t g i vs d. 5 * length (dinput d) + 4 \<le> n \<longrightarrow> parse_list_loop C n ty t g i vs d \<noteq> NoFuel) \<and>
  (\<forall>ty v d. 5 * length (dinput d) + 4 \<le> n \<longrightarrow> parseDict C n ty v d \<noteq> NoFuel)"
proof (induction n)
  case (Suc n)
  then have ih: "5 * length (dinput d) + 3 \<le> n \<Longrightarrow> parseValue C n ty v d \<noteq> NoFuel"
    "5 * length (dinput d) + 2 \<le> n \<Longrightarrow> parse_elem C n ty v d \<noteq> NoFuel"
    "5 * length (dinput d) + (if listy ty then 5 else 6) \<le> n \<Longrightarrow> parseList C n ty v d \<noteq> NoFuel"
    "5 * length (dinput d) + 4 \<le> n \<Longrightarrow> parse_list_loop C n ty t g i vs d \<noteq> NoFuel"
    "5 * length (dinput d) + 4 \<le> n \<Longrightarrow> parseDict C n ty v d \<noteq> NoFuel"
    for d ty v t g i vs by blast+
  have it: "5 * length (dinput d) + 2 \<le> Suc n \<Longrightarrow> ate d d1 \<Longrightarrow> parseValueInterface n d1 \<noteq> NoFuel" for d d1
    using fuel_interface_all [of n] ate_le [of d d1] by auto
  have "parseValue C (Suc n) ty v d \<noteq> NoFuel" if "5 * length (dinput d) + 3 \<le> Suc n" for ty v d
    using that ih(2) [of d] by (cases ty) (auto simp: parseValue_body_def rbind_eq_NoFuel)
  moreover have "parse_elem C (Suc n) ty v d \<noteq> NoFuel" if l: "5 * length (dinput d) + 2 \<le> Suc n" for ty v d
    unfolding parse_elem.simps
  proof (rule parse_elem_body_fuel)
    show "parseUnmarshaler C n ty v d \<noteq> NoFuel" by (rule parseUnmarshaler_fuel) (use l in simp)
    show "parseList C n ty v d1 \<noteq> NoFuel" if "length (dinput d1) < length (dinput d)" for d1
      by (rule ih(3)) (use l that in auto)
  qed (use l it ih(5) in auto)
  moreover have "parseList C (Suc n) ty v d \<noteq> NoFuel" if l: "5 * length (dinput d) + (if listy ty then 5 else 6) \<le> Suc n" for ty v d
    unfolding parseList.simps
    by (rule parseList_body_fuel) (use l ih(3) [of d "TSlice ty"] ih(4) [of d] in \<open>auto split: if_splits\<close>)
  moreover have "parse_list_loop C (Suc n) ty t g i vs d \<noteq> NoFuel" if l: "5 * length (dinput d) + 4 \<le> Suc n" for ty t g i vs d
    unfolding parse_list_loop.simps
    by (rule parse_list_body_fuel [OF _ _ typed_eats(1) _ refl]) (use l it [of d d] ih(1,4) in auto)
  moreover have "parseDict C (Suc n) ty v d \<noteq> NoFuel" if l: "5 * length (dinput d) + 4 \<le> Suc n" for ty v d
    unfolding parseDict.simps
  proof (rule parseDict_body_fuel [OF _ _ typed_eats(1)])
    show "parseValue C n ty v d1 \<noteq> NoFuel" if "ate d d1" for ty v d1
      by (rule ih(1)) (use l ate_le [OF that] in simp)
  qed (use l it [of d] ih(5) in auto)
  ultimately show ?case by blast
qed (auto split: if_splits)


section \<open>Decoded values have the type asked for\<close>

fun has_type :: "gtype \<Rightarrow> 'c gval \<Rightarrow> bool" where
  "has_type TBool v \<longleftrightarrow> (case v of GBool b \<Rightarrow> True | _ \<Rightarrow> False)"
| "has_type (TInt k) v \<longleftrightarrow> (case v of GInt n \<Rightarrow> \<not> OverflowInt k n | _ \<Rightarrow> False)"
| "has_type (TUint k) v \<longleftrightarrow> (case v of GUint n \<Rightarrow> 0 \<le> n \<and> n < 2 ^ k | _ \<Rightarrow> False)"
| "has_type TString v \<longleftrightarrow> (case v of GString s \<Rightarrow> True | _ \<Rightarrow> False)"
| "has_type (TSlice t) v \<longleftrightarrow> (case v of GSlice None \<Rightarrow> True | GSlice (Some vs) \<Rightarrow> list_all (has_type t) vs | _ \<Rightarrow> False)"
| "has_type (TArray n t) v \<longleftrightarrow> (case v of GArray vs \<Rightarrow> length vs = n \<and> list_all (has_type t) vs | _ \<Rightarrow> False)"
| "has_type (TMap t) v \<longleftrightarrow>
     (case v of GMap None \<Rightarrow> True | GMap (Some kvs) \<Rightarrow> distinct (map fst kvs) \<and> list_all (\<lambda>(k, x). has_type t x) kvs | _ \<Rightarrow> False)"
| "has_type (TStruct fs) v \<longleftrightarrow> (case v of GStruct vs \<Rightarrow> list_all2 (\<lambda>P x. P x) (map (\<lambda>(fi, t). has_type t) fs) vs | _ \<Rightarrow> False)"
| "has_type (TPtr t) v \<longleftrightarrow> (case v of GPtr None \<Rightarrow> True | GPtr (Some x) \<Rightarrow> has_type t x | _ \<Rightarrow> False)"
| "has_type TIface v \<longleftrightarrow> (case v of GIface b \<Rightarrow> True | _ \<Rightarrow> False)"
| "has_type (TCustom c) v \<longleftrightarrow> (case v of GCustom x \<Rightarrow> True | _ \<Rightarrow> False)"
| "has_type (TOther k) v \<longleftrightarrow> (case v of GOther \<Rightarrow> True | _ \<Rightarrow> False)"

lemma has_type_struct:
  "has_type (TStruct fs) (GStruct vs) \<longleftrightarrow> length vs = length fs \<and> (\<forall>i < length fs. has_type (snd (fs ! i)) (vs ! i))"
  by (auto simp: list_all2_conv_all_nth case_prod_beta)

lemma has_type_structE:
  assumes "has_type (TStruct fs) v"
  obtains vs where "v = GStruct vs" "length vs = length fs" "\<And>i. i < length fs \<Longrightarrow> has_type (snd (fs ! i)) (vs ! i)"
proof (cases v)
  case (GStruct vs)
  then show ?thesis using that assms has_type_struct [of fs vs] by blast
qed (use assms in simp_all)

lemma zero_typed: "has_type t (zero C t)"
proof (induction t)
  case (TStruct fs)
  have "has_type (snd (fs ! i)) (map (\<lambda>(fi, t). zero C t) fs ! i)" if "i < length fs" for i
    using that TStruct.IH [of "fs ! i" "snd (fs ! i)"] nth_mem [OF that] by (cases "fs ! i") auto
  then show ?case unfolding zero.simps has_type_struct by simp
qed (auto simp: OverflowInt_def list_all_iff split: prod.splits)

text \<open>The path of a field leads, through embedded structs, to a field of its type.\<close>

fun path_ok :: "gtype \<Rightarrow> (nat \<times> gtype) list \<Rightarrow> gtype \<Rightarrow> bool" where
  "path_ok ty [] t' \<longleftrightarrow> False"
| "path_ok ty ((i, t) # path) t' \<longleftrightarrow>
     (case ty of
        TStruct fs \<Rightarrow> i < length fs \<and> snd (fs ! i) = t \<and> (if path = [] then t' = t else path_ok (deref t) path t')
      | _ \<Rightarrow> False)"

lemma parseStructFields_ok:
  "parseStructFields ty = Some dfs \<Longrightarrow> (key, df) \<in> set dfs \<Longrightarrow> path_ok ty (dfPath df) (dfType df)"
  "parse_fields_from k fs = Some dfs \<Longrightarrow> (key, df) \<in> set dfs \<Longrightarrow> k + length fs = length gs \<Longrightarrow> drop k gs = fs \<Longrightarrow>
    path_ok (TStruct gs) (dfPath df) (dfType df)"
proof (induction ty and k fs arbitrary: dfs key df and dfs key df gs rule: parseStructFields_parse_fields_from.induct)
  case (1 ty)
  then show ?case by (auto simp: parseStructFields.simps [of ty] split: gtype.splits)
next
  case (3 i f t fs)
  from "3.prems"(1) obtain rest where rest: "parse_fields_from (Suc i) fs = Some rest" by (auto split: option.splits)
  have g: "i < length gs" "gs ! i = (f, t)" "drop (Suc i) gs = fs" "Suc i + length fs = length gs"
    using "3.prems"(3,4) by (auto simp: drop_Suc nth_via_drop tl_drop dest: arg_cong [of _ _ tl])
  have r: "(key, df) \<in> set rest \<Longrightarrow> ?case" using "3.IH"(1) [OF rest _ g(4,3)] by blast
  show ?case
  proof (cases "fanon f")
    case True
    then obtain inner where inner: "parseStructFields (deref t) = Some inner"
      "dfs = map (\<lambda>(key, df). (key, df\<lparr>dfPath := (i, t) # dfPath df\<rparr>)) inner @ rest"
      using "3.prems"(1) rest by (auto split: option.splits)
    show ?thesis
    proof (cases "(key, df) \<in> set rest")
      case False
      then obtain df0 where df0: "(key, df0) \<in> set inner" "df = df0\<lparr>dfPath := (i, t) # dfPath df0\<rparr>"
        using "3.prems"(2) inner(2) by auto
      then have "path_ok (deref t) (dfPath df0) (dfType df0)" using "3.IH"(2) [OF rest True inner(1)] by blast
      moreover from this have "dfPath df0 \<noteq> []" by auto
      ultimately show ?thesis using df0(2) g by simp
    qed (rule r)
  next
    case False
    then show ?thesis using "3.prems"(1,2) rest r g by (auto simp: Let_def split: if_splits)
  qed
qed auto

lemma set_path_typed:
  "set_path C path v x = Some v' \<Longrightarrow> path_ok ty path t' \<Longrightarrow> has_type ty v \<Longrightarrow> has_type t' x \<Longrightarrow> has_type ty v'"
proof (induction path arbitrary: ty v v')
  case (Cons it path)
  obtain i t where it: "it = (i, t)" by (cases it)
  from Cons.prems(2) it obtain fs where ty: "ty = TStruct fs" "i < length fs" "snd (fs ! i) = t"
    "if path = [] then t' = t else path_ok (deref t) path t'" by (auto split: gtype.splits)
  obtain vs where v: "v = GStruct vs" "length vs = length fs" "\<And>j. j < length fs \<Longrightarrow> has_type (snd (fs ! j)) (vs ! j)"
    using has_type_structE Cons.prems(3) ty(1) by blast
  have upd: "has_type ty (GStruct (vs[i := w]))" if "has_type t w" for w
    unfolding ty(1) has_type_struct using v(2,3) ty(2,3) that by (auto simp: nth_list_update)
  show ?case
  proof (cases "path = []")
    case True
    then show ?thesis using Cons.prems(1,4) v(1) it ty(4) upd by auto
  next
    case False
    have tv: "has_type t (vs ! i)" using v(3) ty(2,3) by blast
    show ?thesis
    proof (cases "vs ! i = GPtr None")
      case True
      then obtain u where u: "t = TPtr u" using tv by (cases t) auto
      obtain w where w: "set_path C path (zero C (deref t)) x = Some w" "v' = GStruct (vs[i := GPtr (Some w)])"
        using Cons.prems(1) False True v(1) it by auto
      have "has_type (deref t) w" using Cons.IH [OF w(1)] ty(4) False zero_typed Cons.prems(4) by auto
      then show ?thesis using upd [of "GPtr (Some w)"] w(2) u by (simp add: deref_def)
    next
      case ni: False
      then obtain w where w: "set_path C path (vs ! i) x = Some w" "v' = GStruct (vs[i := w])"
        using Cons.prems(1) False v(1) it by (auto split: gval.split_asm option.split_asm)
      obtain xs where xs: "vs ! i = GStruct xs" using w(1) False by (cases path) (auto split: gval.split_asm)
      then obtain fs' where "t = TStruct fs'" using tv by (cases t) auto
      then have "path_ok t path t'" using ty(4) False by (simp add: deref_def)
      then have "has_type t w" using Cons.IH [OF w(1) _ tv Cons.prems(4)] by blast
      then show ?thesis using upd w(2) by simp
    qed
  qed
qed simp


lemma update_set: "x \<in> set (AList.update k y al) \<Longrightarrow> x = (k, y) \<or> x \<in> set al"
  by (induction al) (auto split: if_splits)

lemma map_put_typed: "has_type (TMap t) v \<Longrightarrow> has_type t x \<Longrightarrow> has_type (TMap t) (map_put k x v)"
  by (cases v) (auto simp: map_put_def list_all_iff distinct_update dest!: update_set split: option.splits)

lemma set_field_typed:
  assumes "getDictField ty key = Inr (Some df)" "set_field C ty df key v x = Inr v'" "has_type ty v" "has_type (dfType df) x"
  shows "has_type ty v'"
proof (cases "\<exists>t. ty = TMap t")
  case True
  then show ?thesis using assms map_put_typed by (auto simp: getDictField_def set_field_def)
next
  case False
  then obtain fs where ty: "ty = TStruct fs" using assms(1) by (cases ty) (auto simp: getDictField_def)
  then obtain dfs where "parseStructFields ty = Some dfs" "map_of (rev dfs) key = Some df"
    using assms(1) by (auto simp: getDictField_def getStructFieldForKey_def split: option.split_asm)
  then have "path_ok ty (dfPath df) (dfType df)" using parseStructFields_ok(1) map_of_SomeD [of "rev dfs" key df] by auto
  moreover have "set_path C (dfPath df) v x = Some v'"
    using assms(2) ty by (auto simp: set_field_def split: if_splits option.split_asm)
  ultimately show ?thesis using set_path_typed assms(3,4) by blast
qed

lemma byte_vals_typed: "list_all (has_type (TUint 8)) (byte_vals b)"
proof -
  have "uint x < 2 ^ 8" for x :: byte using uint_lt2p [of x] by simp
  then show ?thesis by (simp add: byte_vals_def list_all_iff)
qed

lemma list_all_take_drop: "list_all P xs \<Longrightarrow> list_all P ys \<Longrightarrow> list_all P (take k xs @ drop m ys)"
  by (auto simp: list_all_iff dest: in_set_takeD in_set_dropD)

lemma string_result_typed: "has_type ty v \<Longrightarrow> has_type ty (snd (string_result ty v b))"
proof (cases ty)
  case (TArray n t)
  assume "has_type ty v"
  then obtain xs where xs: "v = GArray xs" "length xs = n" "list_all (has_type t) xs" using TArray by (cases v) auto
  then have "has_type ty (GArray (take (length xs) (byte_vals b) @ drop (length b) xs))" if "t = TUint 8"
    using TArray that list_all_take_drop [OF byte_vals_typed, of xs "length xs" b "length b"] by (simp add: byte_vals_def)
  then show ?thesis using \<open>has_type ty v\<close> TArray xs(1) by (simp add: string_result_def)
qed (simp_all add: string_result_def byte_vals_typed)

lemma int_result_typed: "has_type ty v \<Longrightarrow> int_result ty v s = Inr (r, reset) \<Longrightarrow> has_type ty (snd r)"
  by (cases ty) (auto simp: int_result_def OverflowUint_def split: sum.split_asm if_splits)

lemma parseInt_typed: "has_type ty v \<Longrightarrow> parseInt ty v d = Ret r d' \<Longrightarrow> has_type ty (snd r)"
  using int_result_typed by (fastforce simp: parseInt_def rbind_eq_Ret Let_def split: if_splits prod.split_asm)

lemma parseString_typed: "has_type ty v \<Longrightarrow> parseString ty v d = Ret r d' \<Longrightarrow> has_type ty (snd r)"
  using string_result_typed by (fastforce simp: parseString_def rbind_eq_Ret split: if_splits)

lemma parseUnmarshaler_typed:
  "has_type ty v \<Longrightarrow> parseUnmarshaler C n ty v d = Ret (Some x) d' \<Longrightarrow> has_type ty x"
  by (cases ty) (auto simp: parseUnmarshaler_def unmarshaler_of_def call_unmarshal_def rbind_eq_Ret
      split: if_splits gtype.split_asm gval.split_asm option.split_asm)

lemma slice_elems_typed:
  "has_type (TSlice t) v \<Longrightarrow> list_all (has_type t) (slice_elems v)"
  "has_type (TArray n t) v \<Longrightarrow> list_all (has_type t) (slice_elems v) \<and> length (slice_elems v) = n"
  by (auto simp: slice_elems_def split: gval.splits option.splits)

definition typed_value :: "'c value_parser \<Rightarrow> bool" where
  "typed_value p \<longleftrightarrow> (\<forall>ty v d ok err x d'. has_type ty v \<longrightarrow> p ty v d = Ret (ok, err, x) d' \<longrightarrow> has_type ty x)"

definition typed_part :: "'c part_parser \<Rightarrow> bool" where
  "typed_part p \<longleftrightarrow> (\<forall>ty v d r d'. has_type ty v \<longrightarrow> p ty v d = Ret r d' \<longrightarrow> has_type ty (snd r))"

text \<open>The elements of a list in the making, for a slice or an array of elements of type \<open>t\<close>.\<close>

definition elems_ok :: "gtype \<Rightarrow> gtype \<Rightarrow> bool \<Rightarrow> 'c gval list \<Rightarrow> bool" where
  "elems_ok ty t g vs \<longleftrightarrow> list_all (has_type t) vs \<and> (if g then ty = TSlice t else ty = TArray (length vs) t)"

definition typed_loop :: "'c loop_parser \<Rightarrow> bool" where
  "typed_loop p \<longleftrightarrow> (\<forall>ty t g i vs d r d'. elems_ok ty t g vs \<longrightarrow> p ty t g i vs d = Ret r d' \<longrightarrow> has_type ty (snd r))"

lemma finish_list_typed: "elems_ok ty t g vs \<Longrightarrow> has_type ty (finish_list C ty i vs)"
  using zero_typed [of t C] by (auto simp: elems_ok_def finish_list_def list_all_iff dest: in_set_takeD split: if_splits)

lemma list_all_upd: "list_all P vs \<Longrightarrow> P x \<Longrightarrow> list_all P (vs[i := x])"
  using set_update_subset_insert [of vs i x] by (auto simp: list_all_iff)

lemma parse_list_body_typed:
  assumes "typed_value val" "typed_loop loop"
  shows "typed_loop (parse_list_body C n val loop)"
  unfolding typed_loop_def
proof (intro allI impI)
  fix ty t g i vs d r d'
  assume e: "elems_ok ty t g vs" and p: "parse_list_body C n val loop ty t g i vs d = Ret r d'"
  define ws where "ws = (if g \<and> i \<ge> length vs then vs @ [zero C t] else vs)"
  have ok: "elems_ok ty t g ws" using e zero_typed by (auto simp: elems_ok_def ws_def list_all_iff split: if_splits)
  have upd: "elems_ok ty t g (ws[i := x])" if "has_type t x" for x
    using ok that list_all_upd by (auto simp: elems_ok_def split: if_splits)
  have val: "has_type t x" if "i < length ws" "val t (ws ! i) d = Ret (ok, err, x) d1" for ok err x d1
  proof -
    have "has_type t (ws ! i)" using ok that(1) by (auto simp: elems_ok_def list_all_length)
    then show ?thesis using assms(1) that(2) unfolding typed_value_def by blast
  qed
  note loop = assms(2) [unfolded typed_loop_def, rule_format]
  show "has_type ty (snd r)"
  proof (cases rule: parse_list_body_Ret [OF p, folded ws_def, case_names error stop again over skip])
    case (error ok e x)
    then show ?thesis using upd [OF val [OF error(1,2)]] by (auto simp: elems_ok_def split: if_splits)
  next
    case (again x d1)
    then show ?thesis using loop [OF upd [OF val [OF again(1,2)]]] by blast
  next
    case (skip y d1)
    then show ?thesis using loop [OF ok] by blast
  qed (use finish_list_typed [OF ok] in simp_all)
qed


lemma typed_valueD: "typed_value p \<Longrightarrow> has_type ty v \<Longrightarrow> p ty v d = Ret (ok, err, x) d' \<Longrightarrow> has_type ty x"
  unfolding typed_value_def by blast

lemma typed_partD: "typed_part p \<Longrightarrow> has_type ty v \<Longrightarrow> p ty v d = Ret r d' \<Longrightarrow> has_type ty (snd r)"
  unfolding typed_part_def by blast

lemma ptr_target_typed: "has_type (TPtr u) v \<Longrightarrow> has_type u (ptr_target C u v)"
  using zero_typed by (auto simp: ptr_target_def split: gval.splits option.splits)

lemma parseValue_body_typed:
  assumes "typed_value elem"
  shows "typed_value (parseValue_body C elem)"
  unfolding typed_value_def
proof (intro allI impI)
  fix ty v d ok err x d'
  assume v: "has_type ty v" and p: "parseValue_body C elem ty v d = Ret (ok, err, x) d'"
  show "has_type ty x"
  proof (cases "\<exists>u. ty = TPtr u")
    case True
    then obtain u where u: "ty = TPtr u" by blast
    then obtain y where "elem u (ptr_target C u v) d = Ret (ok, err, y) d'" "x = GPtr (Some y)"
      using p by (auto simp: parseValue_body_def rbind_eq_Ret)
    then show ?thesis using typed_valueD [OF assms ptr_target_typed] v u by simp
  next
    case False
    then have "elem ty v d = Ret (ok, err, x) d'" using p by (cases ty) (simp_all add: parseValue_body_def)
    then show ?thesis using typed_valueD [OF assms v] by blast
  qed
qed

lemma parse_elem_body_typed:
  assumes "typed_part dict" "typed_part lst"
  shows "typed_value (parse_elem_body C n dict lst)"
  unfolding typed_value_def
proof (intro allI impI)
  fix ty v d ok err x d'
  assume v: "has_type ty v" and p: "parse_elem_body C n dict lst ty v d = Ret (ok, err, x) d'"
  from p show "has_type ty x"
  proof (cases rule: parse_elem_body_Ret)
    case (custom y)
    then show ?thesis using parseUnmarshaler_typed [OF v] by simp
  next
    case (part d1 b bs q)
    then have "has_type ty (snd q)"
      using typed_partD [OF assms(1) v] typed_partD [OF assms(2) v] parseInt_typed [OF v] parseString_typed [OF v] by blast
    then show ?thesis using part(3) by auto
  qed (use v in simp_all)
qed

lemma parseList_body_typed:
  assumes "typed_part lst" "typed_loop loop"
  shows "typed_part (parseList_body lst loop)"
  unfolding typed_part_def
proof (intro allI impI)
  fix ty v d r d'
  assume v: "has_type ty v" and p: "parseList_body lst loop ty v d = Ret r d'"
  note loop = assms(2) [unfolded typed_loop_def, rule_format]
  show "has_type ty (snd r)"
  proof (cases "listy ty")
    case True
    then show ?thesis
    proof (elim disjE exE)
      fix t assume t: "ty = TSlice t"
      then have "elems_ok ty t True (slice_elems v)" using slice_elems_typed(1) v by (auto simp: elems_ok_def)
      from loop [OF this] show ?thesis using p t by (simp add: parseList_body_def)
    next
      fix k t assume t: "ty = TArray k t"
      then have "elems_ok ty t False (slice_elems v)" using slice_elems_typed(2) v by (auto simp: elems_ok_def)
      from loop [OF this] show ?thesis using p t by (simp add: parseList_body_def)
    qed
  next
    case False
    then have "rbind (lst (TSlice ty) (GSlice None) d) (\<lambda>(err, l) d.
        if err \<noteq> None then Ret (err, v) d
        else case slice_elems l of [x] \<Rightarrow> Ret (None, x) d | _ \<Rightarrow> Ret (Some (EUnmarshalType ''list''), v) d) = Ret r d'"
      using p by (cases ty) (simp_all add: parseList_body_def)
    then obtain err l d1 where l: "lst (TSlice ty) (GSlice None) d = Ret (err, l) d1"
      "(if err \<noteq> None then Ret (err, v) d1
        else case slice_elems l of [x] \<Rightarrow> Ret (None, x) d1 | _ \<Rightarrow> Ret (Some (EUnmarshalType ''list''), v) d1) = Ret r d'"
      by (auto simp: rbind_eq_Ret)
    have "has_type (TSlice ty) l" using typed_partD [OF assms(1) _ l(1)] by simp
    from slice_elems_typed(1) [OF this] show ?thesis using l(2) v by (auto split: if_splits list.split_asm)
  qed
qed

lemma parseDict_body_typed:
  assumes "typed_value val" "typed_part dict"
  shows "typed_part (parseDict_body C n val dict)"
  unfolding typed_part_def
proof (intro allI impI)
  fix ty v d r d'
  assume v: "has_type ty v" and p: "parseDict_body C n val dict ty v d = Ret r d'"
  from p show "has_type ty (snd r)"
  proof (cases rule: parseDict_body_Ret)
    case (discard kv d1 y d2)
    then show ?thesis using typed_partD [OF assms(2) v] by blast
  next
    case (set kv d1 x d2 v' df)
    have "has_type (dfType df) x"
      using set(3) typed_valueD [OF assms(1) zero_typed] by (auto simp: parse_dict_value_def rbind_eq_Ret split: if_splits)
    then have "has_type ty v'" using set_field_typed [OF set(2,4) v] by blast
    then show ?thesis using typed_partD [OF assms(2) _ set(5)] by blast
  qed (use v in simp_all)
qed

lemma typed_all:
  "typed_value (parseValue C n) \<and> typed_value (parse_elem C n) \<and> typed_part (parseList C n) \<and>
   typed_loop (parse_list_loop C n) \<and> typed_part (parseDict C n)"
proof (induction n)
  case 0
  then show ?case by (simp add: typed_value_def typed_part_def typed_loop_def)
next
  case (Suc n)
  then show ?case
    using parseValue_body_typed [of "parse_elem C n" C] parse_elem_body_typed [of "parseDict C n" "parseList C n" C n]
      parseList_body_typed [of "parseList C n" "parse_list_loop C n"] parse_list_body_typed [of "parseValue C n" "parse_list_loop C n" C n]
      parseDict_body_typed [of "parseValue C n" "parseDict C n" C n] by simp
qed

text \<open>
  C10. Decoding is type safe and ends.  Whatever bytes come in and whatever type is decoded into, the fuel of the
  model suffices, so that the code returns, with a value or an error, or panics; the value has the type asked for
  (integers within their width, arrays of their length, structs with all their fields); the decoder has moved
  forward by the bytes it has consumed; and its offset counts them.
\<close>

theorem Decode_type_safe:
  assumes "has_type ty v"
  shows "parseValue C (value_fuel (dinput d)) ty v d \<noteq> NoFuel \<and>
    (\<forall>x d'. Decoder_Decode C ty v d = Some (Inr (x, d')) \<longrightarrow>
       has_type ty x \<and>
       (\<exists>read. read \<noteq> [] \<and> dinput d = read @ dinput d' \<and> dOffset d' = dOffset d + int (length read)))"
proof (intro conjI allI impI)
  show f: "parseValue C (value_fuel (dinput d)) ty v d \<noteq> NoFuel"
    by (rule typed_fuel_all [THEN conjunct1, rule_format]) (simp add: value_fuel_def)
  fix x d'
  assume "Decoder_Decode C ty v d = Some (Inr (x, d'))"
  then have p: "parseValue C (value_fuel (dinput d)) ty v d = Ret (True, None, x) d'"
    by (auto simp: Decoder_Decode_def split: res.split_asm prod.split_asm option.split_asm if_splits)
  show "has_type ty x" using typed_valueD [OF conjunct1 [OF typed_all] assms p] .
  have "bites d d'" using eats_valueD(2) [OF typed_eats(1) p] .
  then show "\<exists>read. read \<noteq> [] \<and> dinput d = read @ dinput d' \<and> dOffset d' = dOffset d + int (length read)"
    by (auto simp: bites_def ate_def)
qed


definition Bytes_methods :: "bytes methods" where
  "Bytes_methods = \<lparr>UnmarshalBencode = (\<lambda>_. Bytes_UnmarshalBencode), MarshalBencode = (\<lambda>_. Bytes_MarshalBencode),
     zeroCustom = (\<lambda>_. []), isEmptyValue = (\<lambda>_. False)\<rparr>"

theorem Decode_type_safe_witness:
  "parseValue Bytes_methods 18 (TInt 8) (GInt 0) (new_decoder [105, 53, 101]) \<noteq> NoFuel"
proof -
  have t: "has_type (TInt 8) (GInt 0 :: bytes gval)" by (simp add: OverflowInt_def)
  have f: "value_fuel (dinput (new_decoder [105, 53, 101])) = 18" by (simp add: value_fuel_def new_decoder_def)
  show ?thesis using Decode_type_safe [OF t, of Bytes_methods "new_decoder [105, 53, 101]"] unfolding f by blast
qed

lemma parse_iface:
  "parse_elem C (Suc n) TIface v d =
     rbind (parseValueInterface n d) (\<lambda>iface d. case iface of None \<Rightarrow> Throw EValue | Some x \<Rightarrow> Ret (True, None, GIface (Some x)) d)"
  by (simp add: parse_elem_body_def parseUnmarshaler_def unmarshaler_of_def)

text \<open>
  C20. Canonical form.  Decoding bytes into an interface succeeds, with nothing left over, just when the bytes are
  the encoding of a value with strings within the length limit: each value has one encoding, and only that
  one is accepted (no leading zeros, no negative zero, dict keys in strictly ascending order), so that a decoded
  dict such as an info dict encodes to the bytes it was read from.
\<close>

theorem Unmarshal_interface_exact:
  "Unmarshal C bs TIface v = Some (None, GIface (Some b)) \<longleftrightarrow>
   wf_value b \<and> strs_within DefaultDecodeMaxStrLen b \<and> bs = encode_value b"
proof -
  let ?d = "new_decoder bs" and ?n = "5 * length bs + 1"
  have m: "getMaxStrLen ?d = DefaultDecodeMaxStrLen" "dbuf ?d = []" "dinput ?d = bs"
    by (simp_all add: new_decoder_def getMaxStrLen_def)
  have fuel: "value_fuel bs = Suc (Suc ?n)" by (simp add: value_fuel_def)
  have p: "parseValue C (value_fuel bs) TIface v ?d =
      rbind (parseValueInterface ?n ?d) (\<lambda>iface d. case iface of None \<Rightarrow> Throw EValue | Some x \<Rightarrow> Ret (True, None, GIface (Some x)) d)"
    unfolding fuel parseValue.simps parseValue_body_def using parse_iface [of C ?n v ?d] by simp
  have u: "Unmarshal C bs TIface v = Some (None, GIface (Some b)) \<longleftrightarrow> (\<exists>d'. parseValueInterface ?n ?d = Ret (Some b) d' \<and> dinput d' = [])"
    unfolding Unmarshal_def Decoder_Decode_def m(3) p
    by (cases "parseValueInterface ?n ?d") (auto split: option.splits if_splits)
  show ?thesis
  proof
    assume "Unmarshal C bs TIface v = Some (None, GIface (Some b))"
    then obtain d' where d': "parseValueInterface ?n ?d = Ret (Some b) d'" "dinput d' = []" using u by blast
    then have "read_as ?d (Some b) d'" using reads_all m(2) by blast
    then show "wf_value b \<and> strs_within DefaultDecodeMaxStrLen b \<and> bs = encode_value b"
      using d'(2) m by (simp add: read_as_def)
  next
    assume b: "wf_value b \<and> strs_within DefaultDecodeMaxStrLen b \<and> bs = encode_value b"
    have "parseValueInterface ?n ?d = Ret (Some b) (advance [] ?d)"
      by (rule parsesD [OF parses_value]) (use b m in simp_all)
    then show "Unmarshal C bs TIface v = Some (None, GIface (Some b))" using u by simp
  qed
qed

lemma interface_loop:
  "i \<le> length vs \<Longrightarrow> parse_list_loop C n ty TIface True i vs d \<noteq> Ret (None, x) d'"
proof (induction n arbitrary: i vs d)
  case (Suc n)
  have ok: "parseValue C n TIface w d = Ret (ok, err, y) d1 \<Longrightarrow> ok" for w ok err y d1
  proof (cases n)
    case (Suc m)
    then show "parseValue C n TIface w d = Ret (ok, err, y) d1 \<Longrightarrow> ok"
      by (cases m) (auto simp: parseValue_body_def parse_iface rbind_eq_Ret simp del: parse_elem.simps(2) split: option.split_asm)
  qed simp
  show ?case
  proof
    assume "parse_list_loop C (Suc n) ty TIface True i vs d = Ret (None, x) d'"
    then have p: "parse_list_body C n (parseValue C n) (parse_list_loop C n) ty TIface True i vs d = Ret (None, x) d'" by simp
    then show False
      by (cases rule: parse_list_body_Ret) (use Suc ok in \<open>auto split: if_splits\<close>)
  qed
qed simp

text \<open>
  C38. A list cannot be decoded into a slice of interfaces.  No list at all decodes into \<^verbatim>\<open>[]interface{}\<close>: the end of
  the list is read as the next element, and storing its absence is an error.
\<close>

theorem Decode_interface_slice_fails:
  "Decoder_Decode C (TSlice TIface) (GSlice None) (new_decoder (ch_l # bs)) \<noteq> Some (Inr r)"
proof
  let ?d = "new_decoder (ch_l # bs)"
  assume "Decoder_Decode C (TSlice TIface) (GSlice None) ?d = Some (Inr r)"
  then obtain x d' where "parseValue C (value_fuel (ch_l # bs)) (TSlice TIface) (GSlice None) ?d = Ret (True, None, x) d'"
    by (auto simp: Decoder_Decode_def new_decoder_def split: res.split_asm prod.split_asm option.split_asm if_splits)
  moreover have "value_fuel (ch_l # bs) = Suc (Suc (Suc (5 * length bs + 5)))" by (simp add: value_fuel_def)
  ultimately obtain n where "parse_elem_body C (Suc n) (parseDict C (Suc n)) (parseList C (Suc n)) (TSlice TIface) (GSlice None) ?d
      = Ret (True, None, x) d'"
    by (simp only: parseValue.simps parse_elem.simps parseValue_body_def gtype.case)
  then have "parseList C (Suc n) (TSlice TIface) (GSlice None) (next_byte bs ?d) = Ret (None, x) d'"
    by (auto simp: parse_elem_body_def parseUnmarshaler_def unmarshaler_of_def new_decoder_def next_byte_def rbind_eq_Ret Let_def
        simp del: parseList.simps parseDict.simps)
  then show False using interface_loop [of 0 "[]" C n] by (auto simp: parseList_body_def slice_elems_def)
qed

lemma empty_dict_decodes:
  assumes "unmarshaler_of ty = None" "ty \<noteq> TIface" "\<forall>u. ty \<noteq> TPtr u"
  shows "Unmarshal C [ch_d, ch_e] ty v = Some (None, v)"
proof -
  let ?d = "new_decoder [ch_d, ch_e]" and ?d1 = "next_byte [ch_e] (new_decoder [ch_d, ch_e])"
  have key: "parseValue C (Suc (Suc m)) TString (GString []) ?d1 = Ret (False, None, GString []) (next_byte [] ?d1)" for m
    by (simp add: parseValue_body_def parse_elem_body_def parseUnmarshaler_def unmarshaler_of_def next_byte_def)
  have "parseDict C (Suc (Suc (Suc m))) ty v ?d1 = Ret (None, v) (next_byte [] ?d1)" for m
    by (subst parseDict.simps) (simp only: parseDict_body_def key rbind_simps prod.case Let_def, simp)
  then have "parse_elem C (Suc (Suc (Suc (Suc m)))) ty v ?d = Ret (True, None, v) (next_byte [] ?d1)" for m
    using assms(1,2) by (subst parse_elem.simps) (simp add: parse_elem_body_def parseUnmarshaler_def next_byte_def new_decoder_def)
  moreover have "parseValue C (Suc n) ty v ?d = parse_elem C n ty v ?d" for n
    using assms(3) by (cases ty) (simp_all add: parseValue_body_def)
  moreover have "value_fuel [ch_d, ch_e] = Suc (Suc (Suc (Suc (Suc 8))))" by (simp add: value_fuel_def)
  ultimately have "parseValue C (value_fuel [ch_d, ch_e]) ty v ?d = Ret (True, None, v) (next_byte [] ?d1)"
    by metis
  then show ?thesis by (simp add: Unmarshal_def Decoder_Decode_def new_decoder_def next_byte_def)
qed

text \<open>
  An empty dict decodes into anything.  Into a value of any type that is neither an interface nor
  decodes itself, of an integer type say, an empty dict decodes without an error, and leaves the value as it was.
\<close>

theorem Decode_empty_dict:
  assumes "unmarshaler_of ty = None" "ty \<noteq> TIface" "\<forall>u. ty \<noteq> TPtr u"
  shows "Unmarshal C [ch_d, ch_e] ty v = Some (None, v)"
  by (rule empty_dict_decodes [OF assms])

theorem Decode_empty_dict_witness:
  "Unmarshal Bytes_methods [100, 101] (TInt 64) (GInt 7) = Some (None, GInt 7)"
  by (rule Decode_empty_dict) (simp_all add: unmarshaler_of_def)

end
