(* ===== verification/Bencode_Roundtrip.thy ===== *)
theory Bencode_Roundtrip
  imports Bencode_Reflect
begin

text \<open>
  What \<^verbatim>\<open>bencode.Marshal\<close> writes of a Go value, \<^verbatim>\<open>bencode.Unmarshal\<close> reads back: for values made of booleans,
  integers, strings, slices, maps with entries, pointers that are not nil, and structs whose
  fields are exported, not embedded, and have keys of their own.
\<close>

section \<open>Values that come back\<close>

definition field_key :: "field_info \<Rightarrow> bytes" where
  "field_key f = (let k = tag_Key (parseTag (ftag f)) in if k = [] then fname f else k)"

definition plain_field :: "field_info \<Rightarrow> bool" where
  "plain_field f \<longleftrightarrow> fexported f \<and> \<not> fanon f \<and> \<not> tag_Ignore (parseTag (ftag f)) \<and> ftag f \<noteq> [45]"

definition omitted :: "'c methods \<Rightarrow> field_info \<Rightarrow> 'c gval \<Rightarrow> bool" where
  "omitted C f x \<longleftrightarrow> OmitEmpty (parseTag (ftag f)) \<and> isEmptyValue C x"

definition direct :: "gtype \<Rightarrow> bool" where
  "direct ty \<longleftrightarrow> unmarshaler_of ty = None \<and> ty \<noteq> TIface \<and> (\<forall>u. ty \<noteq> TPtr u)"

definition readable :: "gtype \<Rightarrow> bool" where
  "readable ty \<longleftrightarrow> direct ty \<or> (\<exists>u. ty = TPtr u \<and> direct u)"

inductive plain :: "'c methods \<Rightarrow> int \<Rightarrow> gtype \<Rightarrow> 'c gval \<Rightarrow> bool" for C m where
  bool: "plain C m TBool (GBool b)"
| int: "1 \<le> k \<Longrightarrow> k \<le> 64 \<Longrightarrow> \<not> OverflowInt k n \<Longrightarrow> plain C m (TInt k) (GInt n)"
| uint: "k \<le> 64 \<Longrightarrow> 0 \<le> n \<Longrightarrow> n < 2 ^ k \<Longrightarrow> plain C m (TUint k) (GUint n)"
| string: "int (length s) \<le> m \<Longrightarrow> plain C m TString (GString s)"
| bytes: "int (length b) \<le> m \<Longrightarrow> plain C m (TSlice (TUint 8)) (GSlice (Some (byte_vals b)))"
| slice: "readable t \<Longrightarrow> t \<noteq> TUint 8 \<Longrightarrow> \<forall>x \<in> set vs. plain C m t x \<Longrightarrow> plain C m (TSlice t) (GSlice (Some vs))"
| map: "kvs \<noteq> [] \<Longrightarrow> sorted_wrt (<) (map fst kvs) \<Longrightarrow> \<forall>kv \<in> set kvs. int (length (fst kv)) \<le> m \<and> plain C m t (snd kv) \<Longrightarrow>
    plain C m (TMap t) (GMap (Some kvs))"
| ptr: "plain C m t x \<Longrightarrow> (\<forall>u. t \<noteq> TPtr u) \<Longrightarrow> plain C m (TPtr t) (GPtr (Some x))"
| struct: "distinct (map (field_key \<circ> fst) fs) \<Longrightarrow> \<forall>ft \<in> set fs. plain_field (fst ft) \<and> int (length (field_key (fst ft))) \<le> m \<Longrightarrow>
    length vs = length fs \<Longrightarrow>
    \<forall>i < length fs. (omitted C (fst (fs ! i)) (vs ! i) \<longrightarrow> vs ! i = zero C (snd (fs ! i))) \<and>
      (\<not> omitted C (fst (fs ! i)) (vs ! i) \<longrightarrow> plain C m (snd (fs ! i)) (vs ! i)) \<Longrightarrow>
    plain C m (TStruct fs) (GStruct vs)"

text \<open>
  \<open>b\<close> is read as the value \<open>v\<close> of the type, whatever follows it, by a decoder whose strings may be as long as \<open>m\<close>.
\<close>

definition comes_back :: "'c methods \<Rightarrow> int \<Rightarrow> gtype \<Rightarrow> 'c gval \<Rightarrow> bytes \<Rightarrow> bool" where
  "comes_back C m ty v b \<longleftrightarrow> b \<noteq> [] \<and>
     (\<forall>n d rest. dinput d = b @ rest \<longrightarrow> dbuf d = [] \<longrightarrow> m \<le> getMaxStrLen d \<longrightarrow> getMaxStrLen d < 2 ^ 63 \<longrightarrow> 5 * length b + 3 \<le> n \<longrightarrow>
        parseValue C n ty (zero C ty) d = Ret (True, None, v) (advance rest d))"

lemma comes_backD:
  assumes "comes_back C m ty v b" "dinput d = b @ rest" "dbuf d = []" "m \<le> getMaxStrLen d" "getMaxStrLen d < 2 ^ 63"
    "5 * length b + 3 \<le> n" "v0 = zero C ty"
  shows "parseValue C n ty v0 d = Ret (True, None, v) (advance rest d)"
  using assms by (simp add: comes_back_def)

text \<open>The first byte decides.\<close>

lemma parseValue_direct:
  assumes "direct ty" "dinput d = c # bs"
  shows "parseValue C (Suc (Suc n)) ty v d =
    (if c = ch_e then Ret (False, None, v) (advance bs d)
     else if c = ch_d then rbind (parseDict C n ty v (advance bs d)) (\<lambda>r. Ret (True, r))
     else if c = ch_l then rbind (parseList C n ty v (advance bs d)) (\<lambda>r. Ret (True, r))
     else if c = ch_i then rbind (parseInt ty v (advance bs d)) (\<lambda>r. Ret (True, r))
     else if is_digit c then rbind (parseString ty v ((advance bs d)\<lparr>dbuf := [c]\<rparr>)) (\<lambda>r. Ret (True, r))
     else Throw (ESyntax (dOffset (advance bs d) - 1) (WUnknownType c)))"
proof -
  have "parseValue C (Suc (Suc n)) ty v d = parse_elem_body C n (parseDict C n) (parseList C n) ty v d"
    using assms(1) by (cases ty) (simp_all add: parseValue_body_def direct_def)
  also have "\<dots> = (if c = ch_e then Ret (False, None, v) (advance bs d)
     else if c = ch_d then rbind (parseDict C n ty v (advance bs d)) (\<lambda>r. Ret (True, r))
     else if c = ch_l then rbind (parseList C n ty v (advance bs d)) (\<lambda>r. Ret (True, r))
     else if c = ch_i then rbind (parseInt ty v (advance bs d)) (\<lambda>r. Ret (True, r))
     else if is_digit c then rbind (parseString ty v ((advance bs d)\<lparr>dbuf := [c]\<rparr>)) (\<lambda>r. Ret (True, r))
     else Throw (ESyntax (dOffset (advance bs d) - 1) (WUnknownType c)))"
    using assms advance_step [OF assms(2)] by (simp add: parse_elem_body_def parseUnmarshaler_def direct_def Let_def)
  finally show ?thesis .
qed

lemma fuel2: "m + 2 \<le> n \<Longrightarrow> \<exists>k. n = Suc (Suc k) \<and> m \<le> k"
  by (intro exI [of _ "n - 2"]) linarith

lemma fuel3: "m + 3 \<le> n \<Longrightarrow> \<exists>k. n = Suc (Suc (Suc k)) \<and> m \<le> k"
  by (intro exI [of _ "n - 3"]) linarith

section \<open>Integers and strings\<close>

lemma writeString_id [simp]: "writeString s = s"
  by (induction s rule: writeString.induct) (subst writeString.simps, simp)

lemma reflectString_enc: "reflectString s = enc_string s" "reflectByteSlice s = enc_string s"
  by (simp_all add: reflectString_def reflectByteSlice_def writeStringPrefix_def enc_string_def)

lemma parseInt_enc:
  assumes "dinput d = AppendInt n @ ch_e # rest" "dbuf d = []" "int_result ty v (AppendInt n) = Inr ((None, x), True)"
  shows "parseInt ty v d = Ret (None, x) (advance rest d)"
proof -
  let ?d = "d\<lparr>dinput := rest, dOffset := dOffset d + int (length (AppendInt n)) + 1, dbuf := AppendInt n\<rparr>"
  have "readUntil ch_e d = Ret () ?d" using readUntil_found [OF assms(1) AppendInt_no_sep(1)] assms(2) by simp
  moreover have "checkBufferedInt ?d = None" by (rule check_AppendInt) simp
  ultimately show ?thesis using assms by (simp add: parseInt_def readInt_def advance_def Let_def)
qed

lemma parseString_enc:
  assumes "AppendInt (int (length s)) = c # cs" "dinput d = cs @ ch_colon # s @ rest" "dbuf d = [c]"
    "int (length s) \<le> getMaxStrLen d" "length s < 2 ^ 63"
  shows "parseString ty v d = Ret (string_result ty v s) ((advance rest d)\<lparr>dbuf := []\<rparr>)"
proof -
  have n: "ch_colon \<notin> set (c # cs)" using AppendInt_no_sep(2) [of "int (length s)"] assms(1) by simp
  let ?d = "d\<lparr>dinput := s @ rest, dOffset := dOffset d + int (length cs) + 1, dbuf := c # cs\<rparr>"
  have r: "readUntil ch_colon d = Ret () ?d" using readUntil_found [OF assms(2)] n assms(3) by simp
  have "checkBufferedInt ?d = None" using check_AppendInt [of ?d "int (length s)"] assms(1) by simp
  moreover have "ParseInt (c # cs) = Inr (int (length s))"
    using ParseInt_AppendInt [of "int (length s)"] assms(1,5) by simp
  moreover have "getMaxStrLen ?d = getMaxStrLen d" by (simp add: getMaxStrLen_def)
  ultimately show ?thesis using r assms(2,4)
    by (simp add: parseString_def parseStringLength_def read_string_def advance_def Let_def)
qed

lemma int_comes_back:
  assumes "direct ty" "int_result ty (zero C ty) (AppendInt n) = Inr ((None, x), True)"
  shows "comes_back C m ty x (ch_i # AppendInt n @ [ch_e])"
  unfolding comes_back_def
proof (intro conjI allI impI)
  fix n' rest and d :: decoder
  assume d: "dinput d = (ch_i # AppendInt n @ [ch_e]) @ rest" "dbuf d = []" and f: "5 * length (ch_i # AppendInt n @ [ch_e]) + 3 \<le> n'"
  obtain k where k: "n' = Suc (Suc k)" using fuel2 [of 0 n'] f by auto
  have i: "dinput d = ch_i # AppendInt n @ ch_e # rest" using d(1) by simp
  have "parseInt ty (zero C ty) (advance (AppendInt n @ ch_e # rest) d) = Ret (None, x) (advance rest (advance (AppendInt n @ ch_e # rest) d))"
    by (rule parseInt_enc) (use d assms in simp_all)
  then show "parseValue C n' ty (zero C ty) d = Ret (True, None, x) (advance rest d)"
    unfolding k parseValue_direct [OF assms(1) i] by simp
qed simp

lemma string_comes_back:
  assumes "direct ty" "string_result ty (zero C ty) s = (None, x)" "int (length s) \<le> m"
  shows "comes_back C m ty x (enc_string s)"
  unfolding comes_back_def
proof (intro conjI allI impI)
  show "enc_string s \<noteq> []" by (simp add: enc_string_def)
  fix n d rest
  assume d: "dinput d = enc_string s @ rest" "dbuf d = []" "m \<le> getMaxStrLen d" "getMaxStrLen d < 2 ^ 63"
    and f: "5 * length (enc_string s) + 3 \<le> n"
  obtain k where k: "n = Suc (Suc k)" using fuel2 [of 0 n] f by auto
  obtain c cs where c: "AppendInt (int (length s)) = c # cs" "is_digit c" using enc_string_parts by blast
  have i: "dinput d = c # cs @ ch_colon # s @ rest" using d(1) c(1) by (simp add: enc_string_def)
  let ?d = "(advance (cs @ ch_colon # s @ rest) d)\<lparr>dbuf := [c]\<rparr>"
  have "parseString ty (zero C ty) ?d = Ret (None, x) ((advance rest ?d)\<lparr>dbuf := []\<rparr>)"
    unfolding assms(2) [symmetric] by (rule parseString_enc [OF c(1)]) (use d assms(3) in simp_all)
  moreover have "(advance rest ?d)\<lparr>dbuf := []\<rparr> = advance rest d" using d(2) by (simp add: advance_def)
  moreover have "c \<noteq> ch_e" "c \<noteq> ch_d" "c \<noteq> ch_l" "c \<noteq> ch_i" using c(2) by (auto simp: is_digit_nat)
  ultimately show "parseValue C n ty (zero C ty) d = Ret (True, None, x) (advance rest d)"
    using c(2) unfolding k parseValue_direct [OF assms(1) i] by simp
qed

section \<open>Lists\<close>

lemma parseValue_end:
  assumes "readable ty" "dinput d = ch_e # rest" "2 \<le> n"
  shows "\<exists>x. parseValue C n ty v d = Ret (False, None, x) (advance rest d)"
proof -
  obtain k where k: "n = Suc (Suc k)" using fuel2 [of 0 n] assms(3) by auto
  show ?thesis
  proof (cases "direct ty")
    case True
    show ?thesis unfolding k parseValue_direct [OF True assms(2)] by simp
  next
    case False
    then obtain u where u: "ty = TPtr u" "direct u" using assms(1) by (auto simp: readable_def)
    have "parseValue C n ty v d = rbind (parseValue C n u (ptr_target C u v) d) (\<lambda>(ok, err, x). Ret (ok, err, GPtr (Some x)))"
      using u by (cases u) (simp_all add: k parseValue_body_def direct_def)
    then show ?thesis unfolding k parseValue_direct [OF u(2) assms(2)] by simp
  qed
qed

lemma list_loop_comes_back:
  assumes "list_all2 (comes_back C m t) vs bs" "readable t"
    and "dinput d = concat bs @ ch_e # rest" "dbuf d = []" "m \<le> getMaxStrLen d" "getMaxStrLen d < 2 ^ 63"
    and "5 * length (concat bs) + 4 \<le> n"
  shows "parse_list_loop C n (TSlice t) t True (length acc) acc d = Ret (None, GSlice (Some (acc @ vs))) (advance rest d)"
  using assms
proof (induction arbitrary: n d acc rule: list_all2_induct)
  case Nil
  obtain k where k: "n = Suc k" "2 \<le> k" using Nil.prems(6) by (cases n) auto
  obtain x where "parseValue C k t (zero C t) d = Ret (False, None, x) (advance rest d)"
    using parseValue_end [OF Nil.prems(1), of d rest k C "zero C t"] Nil.prems(2) k(2) by auto
  then show ?case by (simp add: k(1) parse_list_body_def finish_list_def Let_def nth_append)
next
  case (Cons v vs b bs)
  have b: "b \<noteq> []" using Cons.hyps(1) by (simp add: comes_back_def)
  obtain k where k: "n = Suc k" "5 * length b + 3 \<le> k" "5 * length (concat bs) + 4 \<le> k"
    using Cons.prems(6) b by (cases n) (auto simp: Suc_le_eq neq_Nil_conv)
  let ?d = "advance (concat bs @ ch_e # rest) d"
  have "parseValue C k t (zero C t) d = Ret (True, None, v) ?d"
    by (rule comes_backD [OF Cons.hyps(1)]) (use Cons.prems k in simp_all)
  moreover have "parse_list_loop C k (TSlice t) t True (length (acc @ [v])) (acc @ [v]) ?d = Ret (None, GSlice (Some ((acc @ [v]) @ vs))) (advance rest ?d)"
    by (rule Cons.IH) (use Cons.prems k in simp_all)
  ultimately show ?case by (simp add: k(1) parse_list_body_def Let_def nth_append)
qed

lemma slice_comes_back:
  assumes "list_all2 (comes_back C m t) vs bs" "readable t"
  shows "comes_back C m (TSlice t) (GSlice (Some vs)) (ch_l # concat bs @ [ch_e])"
  unfolding comes_back_def
proof (intro conjI allI impI)
  fix n rest and d :: decoder
  assume d: "dinput d = (ch_l # concat bs @ [ch_e]) @ rest" "dbuf d = []" "m \<le> getMaxStrLen d" "getMaxStrLen d < 2 ^ 63"
    and f: "5 * length (ch_l # concat bs @ [ch_e]) + 3 \<le> n"
  obtain k where k: "n = Suc (Suc (Suc k))" "5 * length (concat bs) + 4 \<le> k"
    using fuel3 [of "5 * length (concat bs) + 4" n] f by auto
  have i: "dinput d = ch_l # concat bs @ ch_e # rest" using d(1) by simp
  let ?d = "advance (concat bs @ ch_e # rest) d"
  have dir: "direct (TSlice t)" by (simp add: direct_def unmarshaler_of_def)
  have "parse_list_loop C k (TSlice t) t True 0 [] ?d = Ret (None, GSlice (Some vs)) (advance rest d)"
    using list_loop_comes_back [OF assms, of ?d rest k "[]"] d k by simp
  then have "parseList C (Suc k) (TSlice t) (zero C (TSlice t)) ?d = Ret (None, GSlice (Some vs)) (advance rest d)"
    by (simp add: parseList_body_def slice_elems_def)
  then show "parseValue C n (TSlice t) (zero C (TSlice t)) d = Ret (True, None, GSlice (Some vs)) (advance rest d)"
    unfolding k(1) parseValue_direct [OF dir i] by simp
qed simp

section \<open>Dictionaries\<close>

text \<open>Reading the entries \<open>bs\<close> turns \<open>v\<close> into \<open>v'\<close>.\<close>

inductive dict_run :: "'c methods \<Rightarrow> int \<Rightarrow> gtype \<Rightarrow> 'c gval \<Rightarrow> bytes \<Rightarrow> 'c gval \<Rightarrow> bool" for C m ty where
  no_entry: "dict_run C m ty v [] v"
| entry: "int (length k) \<le> m \<Longrightarrow> getDictField ty k = Inr (Some df) \<Longrightarrow> comes_back C m (dfType df) x b \<Longrightarrow>
    set_field C ty df k v x = Inr v1 \<Longrightarrow> dict_run C m ty v1 bs v2 \<Longrightarrow> dict_run C m ty v (enc_string k @ b @ bs) v2"

lemma direct_string: "direct TString"
  by (simp add: direct_def unmarshaler_of_def)

lemma key_comes_back:
  assumes "int (length s) \<le> m"
  shows "comes_back C m TString (GString s) (enc_string s)"
  by (rule string_comes_back [OF direct_string]) (use assms in \<open>simp_all add: string_result_def\<close>)

lemma parseDict_run:
  assumes "dict_run C m ty v bs v'"
    and "dinput d = bs @ ch_e # rest" "dbuf d = []" "m \<le> getMaxStrLen d" "getMaxStrLen d < 2 ^ 63" "5 * length bs + 4 \<le> n"
  shows "parseDict C n ty v d = Ret (None, v') (advance rest d)"
  using assms
proof (induction arbitrary: n d rule: dict_run.induct)
  case (no_entry v)
  obtain k where k: "n = Suc k" "2 \<le> k" using no_entry.prems(5) by (cases n) auto
  have i: "dinput d = ch_e # rest" using no_entry.prems(1) by simp
  obtain j where j: "k = Suc (Suc j)" using fuel2 [of 0 k] k(2) by auto
  have "parseValue C k TString (GString []) d = Ret (False, None, GString []) (advance rest d)"
    unfolding j parseValue_direct [OF direct_string i] by simp
  then show ?case by (simp add: k(1) parseDict_body_def Let_def)
next
  case (entry k df x b v v1 bs v2)
  have b: "b \<noteq> []" using entry.hyps(3) by (simp add: comes_back_def)
  have f: "5 * length (enc_string k) + 5 * length b + 5 * length bs + 4 \<le> n" using entry.prems(5) by simp
  have e: "length (enc_string k) \<ge> 1" "length b \<ge> 1" using b by (simp_all add: enc_string_def Suc_le_eq)
  obtain j where j: "n = Suc j" using f by (cases n) auto
  then have fj: "5 * length (enc_string k) + 3 \<le> j" "5 * length b + 3 \<le> j" "5 * length bs + 4 \<le> j" using f e by linarith+
  let ?d1 = "advance (b @ bs @ ch_e # rest) d" and ?d2 = "advance (bs @ ch_e # rest) d"
  have "parseValue C j TString (GString []) d = Ret (True, None, GString k) ?d1"
    by (rule comes_backD [OF key_comes_back [OF entry.hyps(1)]]) (use entry.prems fj in simp_all)
  moreover have "parseValue C j (dfType df) (zero C (dfType df)) ?d1 = Ret (True, None, x) (advance (bs @ ch_e # rest) ?d1)"
    by (rule comes_backD [OF entry.hyps(3)]) (use entry.prems fj in simp_all)
  moreover have "parseDict C j ty v1 ?d2 = Ret (None, v2) (advance rest ?d2)"
    by (rule entry.IH) (use entry.prems fj in simp_all)
  ultimately show ?case using entry.hyps(2,4) by (simp add: j parseDict_body_def parse_dict_value_def Let_def)
qed

lemma dict_comes_back:
  assumes "dict_run C m ty (zero C ty) bs v" "direct ty"
  shows "comes_back C m ty v (ch_d # bs @ [ch_e])"
  unfolding comes_back_def
proof (intro conjI allI impI)
  fix n rest and d :: decoder
  assume d: "dinput d = (ch_d # bs @ [ch_e]) @ rest" "dbuf d = []" "m \<le> getMaxStrLen d" "getMaxStrLen d < 2 ^ 63"
    and f: "5 * length (ch_d # bs @ [ch_e]) + 3 \<le> n"
  obtain k where k: "n = Suc (Suc k)" "5 * length bs + 4 \<le> k" using fuel2 [of "5 * length bs + 4" n] f by auto
  have i: "dinput d = ch_d # bs @ ch_e # rest" using d(1) by simp
  let ?d = "advance (bs @ ch_e # rest) d"
  have "parseDict C k ty (zero C ty) ?d = Ret (None, v) (advance rest ?d)"
    by (rule parseDict_run [OF assms(1)]) (use d k in simp_all)
  then show "parseValue C n ty (zero C ty) d = Ret (True, None, v) (advance rest d)"
    unfolding k(1) parseValue_direct [OF assms(2) i] by simp
qed simp

lemma concat_res_all: "list_all2 (\<lambda>r b. r = Inr b) rs bs \<Longrightarrow> concat_res rs = Inr (concat bs)"
  by (induction rule: list_all2_induct) simp_all

lemma update_fresh: "k \<notin> fst ` set al \<Longrightarrow> AList.update k v al = al @ [(k, v)]"
  by (induction al) auto

lemma map_run:
  assumes "list_all2 (\<lambda>kv b. int (length (fst kv)) \<le> m \<and> comes_back C m t (snd kv) b) kvs bs"
    and "distinct (map fst (acc @ kvs))" "kvs \<noteq> [] \<or> acc \<noteq> []" "v = (if acc = [] then GMap None else GMap (Some acc))"
  shows "dict_run C m (TMap t) v (concat (map2 (\<lambda>kv b. enc_string (fst kv) @ b) kvs bs)) (GMap (Some (acc @ kvs)))"
  using assms
proof (induction arbitrary: acc v rule: list_all2_induct)
  case Nil
  then show ?case using dict_run.no_entry by auto
next
  case (Cons kv kvs b bs)
  obtain k x where kv: "kv = (k, x)" by force
  have new: "k \<notin> fst ` set acc" using Cons.prems(1) kv by auto
  then have put: "map_put k x v = GMap (Some (acc @ [(k, x)]))"
    using Cons.prems(3) by (cases acc) (auto simp: map_put_def update_fresh)
  have "dict_run C m (TMap t) (GMap (Some (acc @ [kv]))) (concat (map2 (\<lambda>kv b. enc_string (fst kv) @ b) kvs bs)) (GMap (Some ((acc @ [kv]) @ kvs)))"
    by (rule Cons.IH) (use Cons.prems(1) in auto)
  then have "dict_run C m (TMap t) v (enc_string k @ b @ concat (map2 (\<lambda>kv b. enc_string (fst kv) @ b) kvs bs)) (GMap (Some ((acc @ [kv]) @ kvs)))"
    using Cons.hyps(1) kv put by (intro dict_run.entry [where x = x]) (auto simp: getDictField_def set_field_def)
  then show ?case by (simp add: kv)
qed

section \<open>Structs\<close>

definition encode_field :: "nat \<times> field_info \<times> gtype \<Rightarrow> encodeField" where
  "encode_field = (\<lambda>(i, f, t). \<lparr>efType = t, efPath = [i], efTag = field_key f, efOmitEmpty = OmitEmpty (parseTag (ftag f))\<rparr>)"

definition dict_field :: "nat \<times> field_info \<times> gtype \<Rightarrow> bytes \<times> dictField" where
  "dict_field = (\<lambda>(i, f, t). (field_key f, \<lparr>dfType = t, dfPath = [(i, t)], dfSettable = True, dfTags = parseTag (ftag f)\<rparr>))"

lemma encode_fields_plain:
  "\<forall>ft \<in> set fs. plain_field (fst ft) \<Longrightarrow> encode_fields_from i fs = Some (map encode_field (enumerate i fs))"
  by (induction fs arbitrary: i) (auto simp: plain_field_def field_key_def encode_field_def Let_def)

lemma parse_fields_plain:
  "\<forall>ft \<in> set fs. plain_field (fst ft) \<Longrightarrow> parse_fields_from i fs = Some (map dict_field (enumerate i fs))"
  by (induction fs arbitrary: i) (auto simp: plain_field_def field_key_def dict_field_def Let_def)

lemma struct_field:
  assumes "\<forall>ft \<in> set fs. plain_field (fst ft)" "distinct (map (field_key \<circ> fst) fs)" "i < length fs"
  shows "getDictField (TStruct fs) (field_key (fst (fs ! i))) = Inr (Some (snd (dict_field (i, fs ! i))))"
proof -
  let ?l = "map dict_field (enumerate 0 fs)"
  have "map fst ?l = map (field_key \<circ> fst) fs"
    by (rule nth_equalityI) (simp_all add: nth_enumerate_eq dict_field_def case_prod_beta)
  then have d: "distinct (map fst (rev ?l))" using assms(2) by (simp flip: rev_map)
  have "(i, fs ! i) \<in> set (enumerate 0 fs)" using assms(3) by (simp add: in_set_enumerate_eq)
  then have "dict_field (i, fs ! i) \<in> set (rev ?l)" by force
  moreover have "fst (dict_field (i, fs ! i)) = field_key (fst (fs ! i))" by (simp add: dict_field_def case_prod_beta)
  ultimately have "map_of (rev ?l) (field_key (fst (fs ! i))) = Some (snd (dict_field (i, fs ! i)))"
    using map_of_is_SomeI [OF d, of "field_key (fst (fs ! i))" "snd (dict_field (i, fs ! i))"] by (metis prod.collapse)
  then show ?thesis
    using parse_fields_plain [OF assms(1), of 0] by (simp add: getDictField_def getStructFieldForKey_def parseStructFields.simps)
qed

definition put_field :: "'c methods \<Rightarrow> (field_info \<times> gtype) list \<Rightarrow> 'c gval list \<Rightarrow> 'c gval list \<Rightarrow> nat \<Rightarrow> 'c gval list" where
  "put_field C fs vs ws i = (if omitted C (fst (fs ! i)) (vs ! i) then ws else ws[i := vs ! i])"

definition field_bytes :: "'c methods \<Rightarrow> (field_info \<times> gtype) list \<Rightarrow> 'c gval list \<Rightarrow> (nat \<Rightarrow> bytes) \<Rightarrow> nat \<Rightarrow> bytes" where
  "field_bytes C fs vs b i =
     (if omitted C (fst (fs ! i)) (vs ! i) then [] else enc_string (field_key (fst (fs ! i))) @ b i)"

lemma struct_run:
  assumes "\<forall>ft \<in> set fs. plain_field (fst ft) \<and> int (length (field_key (fst ft))) \<le> m" "distinct (map (field_key \<circ> fst) fs)"
    and "\<forall>i \<in> set is. i < length fs \<and>
      (\<not> omitted C (fst (fs ! i)) (vs ! i) \<longrightarrow> comes_back C m (snd (fs ! i)) (vs ! i) (b i))"
  shows "dict_run C m (TStruct fs) (GStruct ws) (concat (map (field_bytes C fs vs b) is)) (GStruct (foldl (put_field C fs vs) ws is))"
  using assms(3)
proof (induction "is" arbitrary: ws)
  case (Cons i "is")
  have i: "i < length fs" "\<not> omitted C (fst (fs ! i)) (vs ! i) \<longrightarrow> comes_back C m (snd (fs ! i)) (vs ! i) (b i)"
    using Cons.prems by simp_all
  have IH: "dict_run C m (TStruct fs) (GStruct ws') (concat (map (field_bytes C fs vs b) is)) (GStruct (foldl (put_field C fs vs) ws' is))" for ws'
    by (rule Cons.IH) (use Cons.prems in simp)
  have fld: "getDictField (TStruct fs) (field_key (fst (fs ! i))) = Inr (Some (snd (dict_field (i, fs ! i))))"
    using struct_field [OF _ assms(2) i(1)] assms(1) by simp
  show ?case
  proof (cases "omitted C (fst (fs ! i)) (vs ! i)")
    case True
    then show ?thesis using IH [of ws] by (simp add: field_bytes_def [of C fs vs b i] put_field_def [of C fs vs ws i])
  next
    case False
    have "dict_run C m (TStruct fs) (GStruct ws)
        (enc_string (field_key (fst (fs ! i))) @ b i @ concat (map (field_bytes C fs vs b) is))
        (GStruct (foldl (put_field C fs vs) (ws[i := vs ! i]) is))"
      by (rule dict_run.entry [OF _ fld _ _ IH])
        (use i False assms(1) nth_mem [OF i(1)] in \<open>auto simp: dict_field_def set_field_def case_prod_beta\<close>)
    then show ?thesis using False by (simp add: field_bytes_def [of C fs vs b i] put_field_def [of C fs vs ws i])
  qed
qed (simp add: dict_run.no_entry)

lemma put_fields_all:
  assumes "length ws = length vs" "\<forall>j < length vs. j \<notin> set is \<or> omitted C (fst (fs ! j)) (vs ! j) \<longrightarrow> ws ! j = vs ! j"
  shows "foldl (put_field C fs vs) ws is = vs"
  using assms
proof (induction "is" arbitrary: ws)
  case Nil
  then show ?case by (simp add: nth_equalityI)
next
  case (Cons i "is")
  have "foldl (put_field C fs vs) (put_field C fs vs ws i) is = vs"
  proof (rule Cons.IH)
    show "length (put_field C fs vs ws i) = length vs" using Cons.prems(1) by (simp add: put_field_def)
    show "\<forall>j < length vs. j \<notin> set is \<or> omitted C (fst (fs ! j)) (vs ! j) \<longrightarrow> put_field C fs vs ws i ! j = vs ! j"
    proof (intro allI impI)
      fix j assume "j < length vs" "j \<notin> set is \<or> omitted C (fst (fs ! j)) (vs ! j)"
      then show "put_field C fs vs ws i ! j = vs ! j"
        using Cons.prems by (cases "j = i") (auto simp: put_field_def)
    qed
  qed
  then show ?case by simp
qed

text \<open>The fields in the order they are written.\<close>

definition field_order :: "(field_info \<times> gtype) list \<Rightarrow> nat list" where
  "field_order fs = map fst (sort_key (efTag \<circ> encode_field) (enumerate 0 fs))"

lemma field_order_set: "set (field_order fs) = {..<length fs}"
proof -
  have "set (field_order fs) = set (map fst (enumerate 0 fs))"
    by (simp only: field_order_def set_map set_sort)
  also have "\<dots> = set [0..<0 + length fs]" by (simp only: map_fst_enumerate)
  finally show ?thesis by (simp add: atLeast0LessThan)
qed

lemma sort_key_map: "sort_key f (map g xs) = map g (sort_key (f \<circ> g) xs)"
proof (induction xs)
  case (Cons x xs)
  have "insort_key f (g x) (map g ys) = map g (insort_key (f \<circ> g) x ys)" for ys by (induction ys) auto
  then show ?case using Cons by (simp add: comp_def)
qed simp

lemma sorted_fields:
  "sort_key efTag (map encode_field (enumerate 0 fs)) = map (\<lambda>i. encode_field (i, fs ! i)) (field_order fs)"
proof -
  let ?es = "sort_key (efTag \<circ> encode_field) (enumerate 0 fs)"
  have "map encode_field ?es = sort_key efTag (map encode_field (enumerate 0 fs))" by (simp add: sort_key_map)
  moreover have "map encode_field ?es = map (\<lambda>i. encode_field (i, fs ! i)) (map fst ?es)"
    by (auto simp: in_set_enumerate_eq)
  ultimately show ?thesis by (simp add: field_order_def)
qed

lemma struct_comes_back:
  assumes "distinct (map (field_key \<circ> fst) fs)" "\<forall>ft \<in> set fs. plain_field (fst ft) \<and> int (length (field_key (fst ft))) \<le> m"
    and "length vs = length fs" "\<forall>i < length fs. omitted C (fst (fs ! i)) (vs ! i) \<longrightarrow> vs ! i = zero C (snd (fs ! i))"
    and b: "\<forall>i < length fs. \<not> omitted C (fst (fs ! i)) (vs ! i) \<longrightarrow>
      reflectValue C (snd (fs ! i)) (vs ! i) = Inr (b i) \<and> comes_back C m (snd (fs ! i)) (vs ! i) (b i)"
  shows "\<exists>bs. reflectValue C (TStruct fs) (GStruct vs) = Inr bs \<and> comes_back C m (TStruct fs) (GStruct vs) bs"
proof -
  let ?is = "field_order fs" and ?b = "concat (map (field_bytes C fs vs b) (field_order fs))"
  let ?put = "\<lambda>ef. case get_path (efPath ef) (GStruct vs) of None \<Rightarrow> Inr []
      | Some x \<Rightarrow> if efOmitEmpty ef \<and> isEmptyValue C x then Inr [] else around (reflectString (efTag ef)) (reflectValue C (efType ef) x) []"
  have fields: "makeEncodeFields (TStruct fs) = Some (map (\<lambda>i. encode_field (i, fs ! i)) ?is)"
    using encode_fields_plain [of fs 0] assms(2) by (simp add: makeEncodeFields.simps sorted_fields)
  have "?put (encode_field (i, fs ! i)) = Inr (field_bytes C fs vs b i)" if "i \<in> set ?is" for i
    using that b assms(3)
    by (auto simp: field_order_set encode_field_def case_prod_beta field_bytes_def omitted_def around_def reflectString_enc)
  then have "list_all2 (\<lambda>r b. r = Inr b) (map ?put (map (\<lambda>i. encode_field (i, fs ! i)) ?is)) (map (field_bytes C fs vs b) ?is)"
    by (simp add: list_all2_conv_all_nth)
  from concat_res_all [OF this]
  have enc: "reflectValue C (TStruct fs) (GStruct vs) = Inr (ch_d # ?b @ [ch_e])"
    using fields by (simp add: reflectValue.simps [of C "TStruct fs"] around_def)
  have "dict_run C m (TStruct fs) (GStruct (map (\<lambda>(f, t). zero C t) fs)) ?b
      (GStruct (foldl (put_field C fs vs) (map (\<lambda>(f, t). zero C t) fs) ?is))"
    by (rule struct_run [OF assms(2,1)]) (use b in \<open>simp add: field_order_set\<close>)
  moreover have "foldl (put_field C fs vs) (map (\<lambda>(f, t). zero C t) fs) ?is = vs"
    by (rule put_fields_all) (use assms(3,4) in \<open>auto simp: field_order_set case_prod_beta\<close>)
  ultimately have "dict_run C m (TStruct fs) (zero C (TStruct fs)) ?b (GStruct vs)" by simp
  then have "comes_back C m (TStruct fs) (GStruct vs) (ch_d # ?b @ [ch_e])"
    by (rule dict_comes_back) (simp add: direct_def unmarshaler_of_def)
  then show ?thesis using enc by blast
qed

lemma choose_list: "\<forall>x \<in> set xs. \<exists>y. P x y \<Longrightarrow> \<exists>ys. list_all2 P xs ys"
  by (induction xs) auto

lemma val_bytes_byte_vals: "val_bytes (byte_vals b) = b"
  by (simp add: val_bytes_def byte_vals_def comp_def)

lemma plain_comes_back: "plain C m ty v \<Longrightarrow> \<exists>b. reflectValue C ty v = Inr b \<and> comes_back C m ty v b"
proof (induction rule: plain.induct)
  case (bool b)
  have "str_bytes (case GBool b of GBool True \<Rightarrow> ''i1e'' | _ \<Rightarrow> ''i0e'') = ch_i # AppendInt (if b then 1 else 0) @ [ch_e]"
    by (cases b) (simp_all add: str_bytes_def AppendInt_def AppendUint.simps)
  moreover have "comes_back C m TBool (GBool b) (ch_i # AppendInt (if b then 1 else 0) @ [ch_e])"
    by (rule int_comes_back) (simp_all add: direct_def unmarshaler_of_def int_result_def AppendInt_def AppendUint.simps)
  ultimately show ?case by (simp add: reflectValue.simps [of C TBool])
next
  case (int k n)
  have "(2::int) ^ (k - 1) \<le> 2 ^ 63" using int(2) by (intro power_increasing) simp_all
  then have "- (2 ^ 63) \<le> n" "n < 2 ^ 63" using int(3) by (auto simp: OverflowInt_def)
  then have "comes_back C m (TInt k) (GInt n) (ch_i # AppendInt n @ [ch_e])"
    using int(3) by (intro int_comes_back) (simp_all add: direct_def unmarshaler_of_def int_result_def ParseInt_AppendInt)
  then show ?case by (simp add: reflectValue.simps [of C "TInt k"])
next
  case (uint k n)
  have "(2::int) ^ k \<le> 2 ^ 64" using uint(1) by (intro power_increasing) simp_all
  then have n: "nat n < 2 ^ 64" "nat n < 2 ^ k" using uint(2,3) by (simp_all add: nat_less_iff)
  have "ParseUint (AppendInt n) = Inr (nat n)"
    using AppendUint_props [of "nat n"] n(1) uint(2) by (simp add: AppendInt_def ParseUint_digits)
  then have "comes_back C m (TUint k) (GUint n) (ch_i # AppendInt n @ [ch_e])"
    using n(2) uint(2) by (intro int_comes_back) (simp_all add: direct_def unmarshaler_of_def int_result_def OverflowUint_def)
  then show ?case by (simp add: reflectValue.simps [of C "TUint k"])
next
  case (string s)
  then show ?case using key_comes_back [of s m C] by (simp add: reflectValue.simps [of C TString] reflectString_enc)
next
  case (bytes b)
  then have "comes_back C m (TSlice (TUint 8)) (GSlice (Some (byte_vals b))) (enc_string b)"
    by (intro string_comes_back) (simp_all add: direct_def unmarshaler_of_def string_result_def)
  then show ?case
    by (simp add: reflectValue.simps [of C "TSlice (TUint 8)"] reflectString_enc slice_elems_def val_bytes_byte_vals)
next
  case (slice t vs)
  then obtain bs where bs: "list_all2 (\<lambda>x b. reflectValue C t x = Inr b \<and> comes_back C m t x b) vs bs"
    using choose_list [of vs "\<lambda>x b. reflectValue C t x = Inr b \<and> comes_back C m t x b"] by blast
  then have "list_all2 (comes_back C m t) vs bs" by (simp add: list_all2_conv_all_nth)
  moreover have "concat_res (map (\<lambda>x. reflectValue C t x) vs) = Inr (concat bs)"
    by (rule concat_res_all) (use bs in \<open>simp add: list_all2_conv_all_nth\<close>)
  ultimately show ?case
    using slice(1,2) slice_comes_back by (auto simp: reflectValue.simps [of C "TSlice t"] around_def)
next
  case (map kvs t)
  then obtain bs where bs: "list_all2 (\<lambda>kv b. reflectValue C t (snd kv) = Inr b \<and> comes_back C m t (snd kv) b) kvs bs"
    using choose_list [of kvs "\<lambda>kv b. reflectValue C t (snd kv) = Inr b \<and> comes_back C m t (snd kv) b"] by blast
  have sorted: "sorted (map fst kvs)" "distinct (map fst kvs)" using map(2) by (simp_all add: strict_sorted_iff)
  let ?bs = "map2 (\<lambda>kv b. enc_string (fst kv) @ b) kvs bs"
  have "list_all2 (\<lambda>kv b. int (length (fst kv)) \<le> m \<and> comes_back C m t (snd kv) b) kvs bs"
    using bs map(3) by (auto simp: list_all2_conv_all_nth)
  then have "dict_run C m (TMap t) (zero C (TMap t)) (concat ?bs) (GMap (Some ([] @ kvs)))"
    using sorted(2) map(1) by (intro map_run) simp_all
  then have "comes_back C m (TMap t) (GMap (Some kvs)) (ch_d # concat ?bs @ [ch_e])"
    using dict_comes_back [of C m "TMap t"] by (simp add: direct_def unmarshaler_of_def)
  moreover have "concat_res (map (\<lambda>(key, x). around (reflectString key) (reflectValue C t x) []) kvs) = Inr (concat ?bs)"
    by (rule concat_res_all)
      (use bs in \<open>auto simp: list_all2_conv_all_nth around_def reflectString_enc case_prod_beta\<close>)
  ultimately show ?case
    using sort_key_sorted [OF sorted(1)] by (auto simp: reflectValue.simps [of C "TMap t"] around_def)
next
  case (ptr t x)
  then obtain b where b: "reflectValue C t x = Inr b" "comes_back C m t x b" by blast
  have "parseValue C (Suc k) (TPtr t) (zero C (TPtr t)) d
      = rbind (parseValue C (Suc k) t (zero C t) d) (\<lambda>(ok, err, x). Ret (ok, err, GPtr (Some x)))" for k d
    using ptr.hyps(2) by (cases t) (simp_all add: parseValue_body_def ptr_target_def)
  then have "parseValue C n (TPtr t) (zero C (TPtr t)) d
      = rbind (parseValue C n t (zero C t) d) (\<lambda>(ok, err, x). Ret (ok, err, GPtr (Some x)))" if "5 * length b + 3 \<le> n" for n d
    using that by (cases n) simp_all
  then have "comes_back C m (TPtr t) (GPtr (Some x)) b" using b(2) by (simp add: comes_back_def)
  then show ?case using b(1) by (simp add: reflectValue.simps [of C "TPtr t"])
next
  case (struct fs vs)
  then obtain b where "\<forall>i < length fs. \<not> omitted C (fst (fs ! i)) (vs ! i) \<longrightarrow>
      reflectValue C (snd (fs ! i)) (vs ! i) = Inr (b i) \<and> comes_back C m (snd (fs ! i)) (vs ! i) (b i)"
    by metis
  then show ?case using struct_comes_back [OF struct(1,2,3)] struct(4) by blast
qed

lemma plain_roundtrip:
  assumes "plain C 134217727 ty v"
  obtains b where "Marshal C ty v = Some (Inr b)" and "Unmarshal C b ty (zero C ty) = Some (None, v)"
    and "\<And>rest. rest \<noteq> [] \<Longrightarrow> Unmarshal C (b @ rest) ty (zero C ty) = Some (Some (EUnused (length rest)), v)"
proof -
  obtain b where b: "reflectValue C ty v = Inr b" "comes_back C 134217727 ty v b" using plain_comes_back [OF assms] by blast
  have "parseValue C (value_fuel (b @ rest)) ty (zero C ty) (new_decoder (b @ rest)) = Ret (True, None, v) (advance rest (new_decoder (b @ rest)))" for rest
    by (rule comes_backD [OF b(2)]) (simp_all add: new_decoder_def getMaxStrLen_def value_fuel_def)
  then have d: "Decoder_Decode C ty (zero C ty) (new_decoder (b @ rest)) = Some (Inr (v, advance rest (new_decoder (b @ rest))))" for rest
    by (simp add: Decoder_Decode_def new_decoder_def)
  have "Unmarshal C b ty (zero C ty) = Some (None, v)" using d [of "[]"] by (simp add: Unmarshal_def)
  moreover have "Unmarshal C (b @ rest) ty (zero C ty) = Some (Some (EUnused (length rest)), v)" if "rest \<noteq> []" for rest
    using d [of rest] that by (simp add: Unmarshal_def)
  moreover have "Marshal C ty v = Some (Inr b)" using b(1) by (simp add: Marshal_def)
  ultimately show thesis by (rule that [rotated])
qed


text \<open>
  C11. What \<^verbatim>\<open>bencode.Marshal\<close> writes, \<^verbatim>\<open>bencode.Unmarshal\<close> reads back as the same value, for every Go value
  built from booleans, integers of any width, strings, byte slices, slices, maps with entries,
  pointers that are not nil and structs of exported fields: \<open>plain\<close> values, with strings within the
  decoder's limit of 128 MiB.  A field with \<^verbatim>\<open>omitempty\<close> may be left out if the value is the zero value of its type.  And
  a decoder that reads from a longer input stops at the end of the value.
\<close>

theorem Marshal_Unmarshal:
  assumes "plain C 134217727 ty v"
  shows "\<exists>b. Marshal C ty v = Some (Inr b) \<and> Unmarshal C b ty (zero C ty) = Some (None, v) \<and>
    (\<forall>rest. rest \<noteq> [] \<longrightarrow> Unmarshal C (b @ rest) ty (zero C ty) = Some (Some (EUnused (length rest)), v))"
  using plain_roundtrip [OF assms] by metis

definition sample_type :: gtype where
  "sample_type =
     TStruct [(\<lparr>fname = [78], fanon = False, fexported = True, ftag = [110]\<rparr>, TInt 64),
              (\<lparr>fname = [65], fanon = False, fexported = True, ftag = []\<rparr>, TSlice TString)]"

theorem Marshal_Unmarshal_witness:
  "\<exists>b. Marshal Bytes_methods sample_type (GStruct [GInt 7, GSlice (Some [GString [1, 2], GString []])]) = Some (Inr b) \<and>
     Unmarshal Bytes_methods b sample_type (zero Bytes_methods sample_type)
       = Some (None, GStruct [GInt 7, GSlice (Some [GString [1, 2], GString []])])"
proof -
  have s: "plain Bytes_methods 134217727 (TSlice TString) (GSlice (Some [GString [1, 2], GString []]))"
    by (rule plain.slice) (auto simp: readable_def direct_def unmarshaler_of_def intro: plain.string)
  have i: "plain Bytes_methods 134217727 (TInt 64) (GInt 7)" by (rule plain.int) (simp_all add: OverflowInt_def)
  have o: "\<not> omitted Bytes_methods f x" for f x by (simp add: omitted_def Bytes_methods_def)
  have "plain Bytes_methods 134217727 sample_type (GStruct [GInt 7, GSlice (Some [GString [1, 2], GString []])])"
    unfolding sample_type_def
    by (rule plain.struct)
      (use s i in \<open>auto simp: o plain_field_def field_key_def parseTag_def tag_Ignore_def tag_Key_def less_Suc_eq Let_def\<close>)
  from Marshal_Unmarshal [OF this] show ?thesis by blast
qed

end
