(* ===== verification/Iplist.thy ===== *)
theory Iplist
  imports Torrent_Prelude "HOL-Library.List_Lexorder" "HOL-Library.Monad_Syntax"
begin

text \<open>
  Package \<^verbatim>\<open>iplist\<close>: lists of IP ranges (\<^verbatim>\<open>iplist.go\<close>), their packed form (\<^verbatim>\<open>packed.go\<close>) and the last address of
  a network (\<^verbatim>\<open>cidr.go\<close>).  A \<^verbatim>\<open>net.IP\<close> is its bytes, nil being no bytes; addresses are compared
  as byte strings.
\<close>

unbundle bit_operations_syntax

section \<open>Addresses\<close>

abbreviation (input) v4InV6Prefix :: bytes where
  "v4InV6Prefix \<equiv> [0, 0, 0, 0, 0, 0, 0, 0, 0, 0, 255, 255]"

definition To4 :: "bytes \<Rightarrow> bytes option" where
  "To4 ip =
     (if length ip = 4 then Some ip
      else if length ip = 16 \<and> take 12 ip = v4InV6Prefix then Some (drop 12 ip)
      else None)"

definition To16 :: "bytes \<Rightarrow> bytes option" where
  "To16 ip = (if length ip = 4 then Some (v4InV6Prefix @ ip) else if length ip = 16 then Some ip else None)"

definition minifyIP :: "bytes \<Rightarrow> bytes" where
  "minifyIP ip = (case To4 ip of Some v4 \<Rightarrow> v4 | None \<Rightarrow> ip)"

record ip_range =
  First :: bytes
  Last :: bytes
  Description :: bytes

section \<open>Lookup\<close>

text \<open>\<^verbatim>\<open>sort.Search\<close> with a predicate that may panic.\<close>

function search_panic :: "(nat \<Rightarrow> bool option) \<Rightarrow> nat \<Rightarrow> nat \<Rightarrow> nat option" where
  "search_panic f i j =
     (if i < j then
        let h = (i + j) div 2 in
        case f h of None \<Rightarrow> None | Some b \<Rightarrow> if \<not> b then search_panic f (h + 1) j else search_panic f i h
      else Some i)"
  by pat_completeness auto
termination
  by (relation "measure (\<lambda>(f, i, j). j - i)") auto

declare search_panic.simps [simp del]

lemma search_panic_total:
  assumes "\<And>k. k < n \<Longrightarrow> f k = Some (g k)"
  shows "j \<le> n \<Longrightarrow> search_panic f i j = Some (search_loop g i j)"
proof (induction "j - i" arbitrary: i j rule: less_induct)
  case less
  show ?case
  proof (cases "i < j")
    case True
    let ?h = "(i + j) div 2"
    have h: "f ?h = Some (g ?h)" using assms True less.prems by simp
    have "search_panic f (?h + 1) j = Some (search_loop g (?h + 1) j)" "search_panic f i ?h = Some (search_loop g i ?h)"
      using True less.prems by (intro less.hyps; linarith)+
    then show ?thesis using True h by (simp add: search_panic.simps [of f i j] search_loop.simps [of g i j] Let_def)
  qed (simp add: search_panic.simps [of f i j] search_loop.simps [of g i j])
qed

text \<open>
  The function \<^verbatim>\<open>lookup\<close> that both kinds of list share: \<open>None\<close> is a panic, the inner option whether
  a range was found.  The number of ranges is an \<^verbatim>\<open>int\<close>; with a negative one the search returns 0.
\<close>

definition lookup :: "(nat \<Rightarrow> bytes option) \<Rightarrow> (nat \<Rightarrow> ip_range option) \<Rightarrow> int \<Rightarrow> bytes \<Rightarrow> (ip_range \<times> bool) option" where
  "lookup fst' full n ip =
     (case search_panic (\<lambda>i. if int i + 1 \<ge> n then Some True else map_option (\<lambda>f. ip < f) (fst' (i + 1))) 0 (nat n) of
        None \<Rightarrow> None
      | Some i \<Rightarrow>
          if int i = n then Some (\<lparr>First = [], Last = [], Description = []\<rparr>, False)
          else map_option (\<lambda>r. (r, First r \<le> ip \<and> ip \<le> Last r)) (full i))"

definition nth_opt :: "'a list \<Rightarrow> nat \<Rightarrow> 'a option" where
  "nth_opt xs i = (if i < length xs then Some (xs ! i) else None)"

definition ipl_lookup :: "ip_range list \<Rightarrow> bytes \<Rightarrow> (ip_range \<times> bool) option" where
  "ipl_lookup ranges ip = lookup (\<lambda>i. map_option First (nth_opt ranges i)) (nth_opt ranges) (int (length ranges)) ip"

definition NumRanges :: "ip_range list option \<Rightarrow> nat" where
  "NumRanges ipl = (case ipl of None \<Rightarrow> 0 | Some ranges \<Rightarrow> length ranges)"

abbreviation (input) no_range :: ip_range where
  "no_range \<equiv> \<lparr>First = [], Last = [], Description = []\<rparr>"

text \<open>\<^verbatim>\<open>IPList.Lookup\<close>; the list is \<open>None\<close> when it is nil.  A bad address is in a range of its own.\<close>

definition IPList_Lookup :: "ip_range list option \<Rightarrow> bytes \<Rightarrow> (ip_range \<times> bool) option" where
  "IPList_Lookup ipl ip =
     (case ipl of
        None \<Rightarrow> Some (no_range, False)
      | Some ranges \<Rightarrow> do {
          (r, ok) \<leftarrow> (case To4 ip of Some v4 \<Rightarrow> ipl_lookup ranges v4 | None \<Rightarrow> Some (no_range, False));
          if ok then Some (r, True)
          else
            (case To16 ip of
               Some v6 \<Rightarrow> ipl_lookup ranges v6
             | None \<Rightarrow>
                 if To4 ip = None then Some (no_range\<lparr>Description := [98, 97, 100, 32, 73, 80]\<rparr>, True)
                 else Some (r, False))
        })"

section \<open>The packed form\<close>

definition le_bytes :: "nat \<Rightarrow> nat \<Rightarrow> bytes" where "le_bytes k n = rev (be_bytes k n)"
definition le_nat :: "bytes \<Rightarrow> nat" where "le_nat bs = be_nat (rev bs)"

abbreviation (input) packedRangesOffset :: nat where "packedRangesOffset \<equiv> 8"
abbreviation (input) packedRangeLen :: nat where "packedRangeLen \<equiv> 44"

text \<open>
  \<^verbatim>\<open>WritePacked\<close> into a buffer.  Writing an address that is neither of 4 nor of 16 bytes panics; the
  descriptions are written once each, after the ranges.
\<close>

fun pack_ranges :: "ip_range list \<Rightarrow> (bytes \<rightharpoonup> nat) \<Rightarrow> bytes list \<Rightarrow> nat \<Rightarrow> (bytes \<times> bytes list) option" where
  "pack_ranges [] descOffsets descs nextOffset = Some ([], descs)"
| "pack_ranges (r # rs) descOffsets descs nextOffset = do {
     f \<leftarrow> To16 (First r);
     l \<leftarrow> To16 (Last r);
     let known = descOffsets (Description r);
     let descOff = (case known of Some off \<Rightarrow> off | None \<Rightarrow> nextOffset);
     (out, ds) \<leftarrow>
       (case known of
          Some off \<Rightarrow> pack_ranges rs descOffsets descs nextOffset
        | None \<Rightarrow> pack_ranges rs (descOffsets(Description r \<mapsto> descOff)) (descs @ [Description r]) (nextOffset + length (Description r)));
     Some (f @ l @ le_bytes 8 descOff @ le_bytes 4 (length (Description r)) @ out, ds)
   }"

definition WritePacked :: "ip_range list \<Rightarrow> bytes option" where
  "WritePacked ranges = do {
     (out, descs) \<leftarrow> pack_ranges ranges Map.empty [] 0;
     Some (le_bytes 8 (length ranges) @ out @ concat descs)
   }"

text \<open>\<^verbatim>\<open>PackedIPList\<close>: all its methods panic (\<open>None\<close>) where they slice out of range.\<close>

definition packed_len :: "bytes \<Rightarrow> int option" where
  "packed_len pil = map_option (\<lambda>b. int64 (int (le_nat b))) (go_slice pil 0 8)"

definition NewFromPacked :: "bytes \<Rightarrow> bytes option" where
  "NewFromPacked b = do {
     n \<leftarrow> packed_len b;
     let minLen = int64 (int packedRangesOffset + int64 (n * int packedRangeLen));
     (if int (length b) < minLen then None else Some b)
   }"

definition getFirst :: "bytes \<Rightarrow> nat \<Rightarrow> bytes option" where
  "getFirst pil i =
     (let off = int (packedRangesOffset + packedRangeLen * i) in go_slice pil off (off + 16))"

definition getRange :: "bytes \<Rightarrow> nat \<Rightarrow> ip_range option" where
  "getRange pil i = do {
     let rOff = int (packedRangesOffset + packedRangeLen * i);
     last \<leftarrow> go_slice pil (rOff + 16) (rOff + 32);
     d \<leftarrow> go_slice pil (rOff + 32) (rOff + 40);
     dl \<leftarrow> go_slice pil (rOff + 40) (rOff + 44);
     n \<leftarrow> packed_len pil;
     let descOff = int64 (int64 (int (le_nat d)) + int64 (int packedRangesOffset + int64 (int packedRangeLen * n)));
     f \<leftarrow> getFirst pil i;
     desc \<leftarrow> go_slice pil descOff (int64 (descOff + int (le_nat dl)));
     Some \<lparr>First = f, Last = last, Description = desc\<rparr>
   }"

definition Packed_Lookup :: "bytes \<Rightarrow> bytes \<Rightarrow> (ip_range \<times> bool) option" where
  "Packed_Lookup pil ip = do {
     ip16 \<leftarrow> To16 ip;
     n \<leftarrow> packed_len pil;
     lookup (getFirst pil) (getRange pil) n ip16
   }"

section \<open>Networks\<close>

text \<open>\<open>None\<close>: the panic when address and mask differ in length.\<close>

definition IPNetLast :: "bytes \<Rightarrow> bytes \<Rightarrow> bytes option" where
  "IPNetLast ip msk = (if length ip \<noteq> length msk then None else Some (map2 (\<lambda>a m. a OR NOT m) ip msk))"

section \<open>What a lookup finds\<close>

text \<open>Ranges in order that do not meet: what a list of ranges has to be for the binary search.\<close>

definition ordered_ranges :: "ip_range list \<Rightarrow> bool" where
  "ordered_ranges rs \<longleftrightarrow> sorted_wrt (\<lambda>a b. Last a < First b) rs \<and> (\<forall>r \<in> set rs. First r \<le> Last r)"

definition in_ip_range :: "bytes \<Rightarrow> ip_range \<Rightarrow> bool" where
  "in_ip_range ip r \<longleftrightarrow> First r \<le> ip \<and> ip \<le> Last r"

lemma ordered_rangesD:
  assumes "ordered_ranges rs" "j < length rs"
  shows "i < j \<Longrightarrow> Last (rs ! i) < First (rs ! j)" and "First (rs ! j) \<le> Last (rs ! j)"
  using assms by (auto simp: ordered_ranges_def sorted_wrt_iff_nth_less)

lemma ordered_first_mono:
  assumes "ordered_ranges rs" "j < length rs" "i \<le> j"
  shows "First (rs ! i) \<le> First (rs ! j)"
proof (cases "i = j")
  case False
  then have "First (rs ! i) \<le> Last (rs ! i)" "Last (rs ! i) < First (rs ! j)"
    using ordered_rangesD [OF assms(1)] assms(2,3) by auto
  then show ?thesis by simp
qed simp

text \<open>
  The interface both kinds of list give \<^verbatim>\<open>lookup\<close>: a value \<open>s\<close> stands for the ranges \<open>ranges s\<close>, its
  accessors do not panic below \<open>num s\<close>, and the ranges are in order.
\<close>

locale ranger =
  fixes ok :: "'s \<Rightarrow> bool"
    and ranges :: "'s \<Rightarrow> ip_range list"
    and first_of :: "'s \<Rightarrow> nat \<Rightarrow> bytes option"
    and full_of :: "'s \<Rightarrow> nat \<Rightarrow> ip_range option"
  assumes first_of: "ok s \<Longrightarrow> i < length (ranges s) \<Longrightarrow> first_of s i = Some (First (ranges s ! i))"
    and full_of: "ok s \<Longrightarrow> i < length (ranges s) \<Longrightarrow> full_of s i = Some (ranges s ! i)"
    and ordered: "ok s \<Longrightarrow> ordered_ranges (ranges s)"
begin

definition following_exceeds :: "'s \<Rightarrow> bytes \<Rightarrow> nat \<Rightarrow> bool" where
  "following_exceeds s ip i \<longleftrightarrow> i + 1 \<ge> length (ranges s) \<or> ip < First (ranges s ! (i + 1))"

lemma following_exceeds_mono:
  assumes "ok s" "k \<le> l" "following_exceeds s ip k"
  shows "following_exceeds s ip l"
proof (cases "l + 1 < length (ranges s)")
  case True
  then have "First (ranges s ! (k + 1)) \<le> First (ranges s ! (l + 1))"
    using ordered_first_mono [OF ordered [OF assms(1)], of "l + 1" "k + 1"] assms(2) by simp
  then show ?thesis using assms(2,3) True by (auto simp: following_exceeds_def)
qed (simp add: following_exceeds_def)

text \<open>The whole behaviour of a lookup: it looks at the last range that does not start after the address.\<close>

lemma lookup_at:
  assumes "ok s" "ranges s \<noteq> []"
  obtains m where "m < length (ranges s)" and "splits_at (following_exceeds s ip) (length (ranges s)) m"
    and "lookup (first_of s) (full_of s) (int (length (ranges s))) ip
           = Some (ranges s ! m, in_ip_range ip (ranges s ! m))"
proof -
  let ?n = "length (ranges s)"
  let ?m = "sort_search ?n (following_exceeds s ip)"
  have split: "splits_at (following_exceeds s ip) ?n ?m"
    by (rule sort_search_splits) (rule following_exceeds_mono [OF assms(1)])
  have "following_exceeds s ip (?n - 1)" using assms(2) by (auto simp: following_exceeds_def)
  then have m: "?m < ?n"
    using splits_atD(1,2) [OF split] assms(2) by (metis One_nat_def diff_less length_greater_0_conv less_one linorder_neqE_nat linorder_not_less)
  have "search_panic (\<lambda>i. if int i + 1 \<ge> int ?n then Some True else map_option (\<lambda>f. ip < f) (first_of s (i + 1))) 0 ?n
        = Some ?m"
    unfolding sort_search_def
    by (rule search_panic_total [where n = ?n]) (auto simp: following_exceeds_def first_of [OF assms(1)])
  then have "lookup (first_of s) (full_of s) (int ?n) ip = Some (ranges s ! ?m, in_ip_range ip (ranges s ! ?m))"
    using m by (simp add: lookup_def full_of [OF assms(1)] in_ip_range_def)
  with m split show thesis by (rule that)
qed

lemma lookup_returns:
  assumes "ok s"
  shows "\<exists>r b. lookup (first_of s) (full_of s) (int (length (ranges s))) ip = Some (r, b)"
proof (cases "ranges s = []")
  case True
  then show ?thesis by (auto simp: lookup_def search_panic.simps)
next
  case False
  then show ?thesis using lookup_at [OF assms False] by metis
qed

lemma lookup_exact:
  assumes "ok s"
  shows "lookup (first_of s) (full_of s) (int (length (ranges s))) ip = Some (r, True)
         \<longleftrightarrow> r \<in> set (ranges s) \<and> in_ip_range ip r"
proof (cases "ranges s = []")
  case True
  then show ?thesis by (simp add: lookup_def search_panic.simps)
next
  case False
  obtain m where m: "m < length (ranges s)" "splits_at (following_exceeds s ip) (length (ranges s)) m"
    "lookup (first_of s) (full_of s) (int (length (ranges s))) ip = Some (ranges s ! m, in_ip_range ip (ranges s ! m))"
    using lookup_at [OF assms False] by blast
  note ord = ordered_rangesD [OF ordered [OF assms]]
  have only: "k = m" if "k < length (ranges s)" "in_ip_range ip (ranges s ! k)" for k
  proof (rule ccontr)
    assume "k \<noteq> m"
    then consider "k < m" | "m < k" by linarith
    then show False
    proof cases
      case 1
      then have "First (ranges s ! (k + 1)) \<le> ip"
        using splits_atD(2) [OF m(2) 1] by (auto simp: following_exceeds_def)
      moreover have "Last (ranges s ! k) < First (ranges s ! (k + 1))" using ord(1) [of "k + 1" k] 1 m(1) by simp
      ultimately show False using that(2) by (auto simp: in_ip_range_def)
    next
      case 2
      then have "following_exceeds s ip (k - 1)" using splits_atD(3) [OF m(2), of "k - 1"] that(1) by simp
      then show False using that 2 by (auto simp: following_exceeds_def in_ip_range_def)
    qed
  qed
  then show ?thesis using m(1,3) by (auto simp: in_set_conv_nth)
qed

end

interpretation list_ranges: ranger ordered_ranges "\<lambda>rs. rs" "\<lambda>rs i. map_option First (nth_opt rs i)" nth_opt
  by unfold_locales (simp_all add: nth_opt_def)


section \<open>Packing\<close>

lemma length_le_bytes [simp]: "length (le_bytes k n) = k"
  by (simp add: le_bytes_def)

lemma le_nat_le_bytes: "n < 256 ^ k \<Longrightarrow> le_nat (le_bytes k n) = n"
  by (simp add: le_bytes_def le_nat_def be_nat_be_bytes)

lemma length_To16: "To16 ip = Some ip' \<Longrightarrow> length ip' = 16"
  by (auto simp: To16_def split: if_splits)

text \<open>One packed range \<open>e\<close> of the range \<open>r\<close>, whose description stands in \<open>D\<close>.\<close>

definition packed_entry :: "bytes \<Rightarrow> ip_range \<Rightarrow> bytes \<Rightarrow> bool" where
  "packed_entry D r e \<longleftrightarrow>
     (\<exists>f l off. To16 (First r) = Some f \<and> To16 (Last r) = Some l
        \<and> e = f @ l @ le_bytes 8 off @ le_bytes 4 (length (Description r))
        \<and> off + length (Description r) \<le> length D \<and> take (length (Description r)) (drop off D) = Description r)"

text \<open>The offsets recorded so far point at their descriptions.\<close>

definition offsets_ok :: "(bytes \<rightharpoonup> nat) \<Rightarrow> bytes list \<Rightarrow> nat \<Rightarrow> bool" where
  "offsets_ok offs descs next_off \<longleftrightarrow> next_off = length (concat descs) \<and>
     (\<forall>d off. offs d = Some off \<longrightarrow> off + length d \<le> next_off \<and> take (length d) (drop off (concat descs)) = d)"

lemma packed_entry_mono: "packed_entry D r e \<Longrightarrow> packed_entry (D @ D') r e"
  by (fastforce simp: packed_entry_def)

lemma packed_entry_length: "packed_entry D r e \<Longrightarrow> length e = 44"
  by (auto simp: packed_entry_def length_To16)

lemma packed_entries_44: "list_all2 (packed_entry D) rs es \<Longrightarrow> \<forall>e \<in> set es. length e = 44"
  by (induction rule: list_all2_induct) (simp_all add: packed_entry_length)

lemma offsets_ok_add:
  assumes "offsets_ok offs descs n"
  shows "offsets_ok (offs(d \<mapsto> n)) (descs @ [d]) (n + length d)"
  using assms by (fastforce simp: offsets_ok_def)

lemma pack_ranges_entries:
  "pack_ranges rs offs descs n = Some (out, ds) \<Longrightarrow> offsets_ok offs descs n \<Longrightarrow>
   (\<exists>es more'. ds = descs @ more' \<and> out = concat es \<and> list_all2 (packed_entry (concat ds)) rs es)"
proof (induction rs offs descs n arbitrary: out ds rule: pack_ranges.induct)
  case (1 offs descs n)
  then show ?case by simp
next
  case (2 r rs offs descs n)
  obtain f l where fl: "To16 (First r) = Some f" "To16 (Last r) = Some l"
    using 2(3) by (auto simp: bind_eq_Some_conv)
  let ?d = "Description r"
  define off where "off = (case offs ?d of Some o' \<Rightarrow> o' | None \<Rightarrow> n)"
  obtain out' offs' descs' n' where step: "pack_ranges rs offs' descs' n' = Some (out', ds)"
    and out: "out = f @ l @ le_bytes 8 off @ le_bytes 4 (length ?d) @ out'"
    and ok: "offsets_ok offs' descs' n'" and pre: "\<exists>x. descs' = descs @ x"
    and off_ok: "off + length ?d \<le> length (concat descs')" "take (length ?d) (drop off (concat descs')) = ?d"
    and IH: "\<exists>es m. ds = descs' @ m \<and> out' = concat es \<and> list_all2 (packed_entry (concat ds)) rs es"
  proof (cases "offs ?d")
    case None
    have ok': "offsets_ok (offs(?d \<mapsto> n)) (descs @ [?d]) (n + length ?d)" by (rule offsets_ok_add [OF 2(4)])
    obtain out' where s: "pack_ranges rs (offs(?d \<mapsto> n)) (descs @ [?d]) (n + length ?d) = Some (out', ds)"
      and o: "out = f @ l @ le_bytes 8 n @ le_bytes 4 (length ?d) @ out'"
      using 2(3) fl None by (auto simp: Let_def bind_eq_Some_conv)
    show thesis
      by (rule that [OF s _ ok' _ _ _ 2(1) [OF fl refl refl None, unfolded None option.case, OF s ok']])
        (use o None ok' in \<open>auto simp: off_def offsets_ok_def\<close>)
  next
    case (Some o')
    obtain out' where s: "pack_ranges rs offs descs n = Some (out', ds)"
      and o: "out = f @ l @ le_bytes 8 o' @ le_bytes 4 (length ?d) @ out'"
      using 2(3) fl Some by (auto simp: Let_def bind_eq_Some_conv)
    show thesis
      by (rule that [OF s _ 2(4) _ _ _ 2(2) [OF fl refl refl Some s 2(4)]])
        (use o Some 2(4) in \<open>auto simp: off_def offsets_ok_def\<close>)
  qed
  obtain es m where es: "ds = descs' @ m" "out' = concat es" "list_all2 (packed_entry (concat ds)) rs es"
    using IH by blast
  have "packed_entry (concat descs') r (f @ l @ le_bytes 8 off @ le_bytes 4 (length ?d))"
    using fl off_ok by (auto simp: packed_entry_def)
  then have "packed_entry (concat ds) r (f @ l @ le_bytes 8 off @ le_bytes 4 (length ?d))"
    using packed_entry_mono es(1) by simp
  then have "list_all2 (packed_entry (concat ds)) (r # rs) ((f @ l @ le_bytes 8 off @ le_bytes 4 (length ?d)) # es)"
    using es(3) by simp
  moreover have "out = concat ((f @ l @ le_bytes 8 off @ le_bytes 4 (length ?d)) # es)" using out es(2) by simp
  ultimately show ?case using pre es(1) by (metis append.assoc)
qed

lemma WritePacked_shape:
  assumes "WritePacked rs = Some b"
  obtains es D where "b = le_bytes 8 (length rs) @ concat es @ D" and "list_all2 (packed_entry D) rs es"
proof -
  obtain out ds where p: "pack_ranges rs Map.empty [] 0 = Some (out, ds)" "b = le_bytes 8 (length rs) @ out @ concat ds"
    using assms by (auto simp: WritePacked_def bind_eq_Some_conv)
  moreover have "offsets_ok Map.empty [] 0" by (simp add: offsets_ok_def)
  ultimately show thesis using pack_ranges_entries that by blast
qed


lemma concat_at:
  assumes "\<forall>e \<in> set es. length e = k" "i < length es"
  shows "concat es = concat (take i es) @ es ! i @ concat (drop (Suc i) es)" and "length (concat (take i es)) = k * i"
proof -
  have "concat es = concat (take i es @ es ! i # drop (Suc i) es)" using assms(2) by (simp add: id_take_nth_drop [symmetric])
  then show "concat es = concat (take i es) @ es ! i @ concat (drop (Suc i) es)" by simp
  have "\<forall>e \<in> set (take i es). length e = k" using assms(1) by (meson in_set_takeD)
  then have "length (concat (take i es)) = k * length (take i es)"
    by (induction "take i es" arbitrary: i) (auto simp: length_concat sum_list_triv map_idI cong: map_cong)
  then show "length (concat (take i es)) = k * i" using assms(2) by simp
qed

definition to16_range :: "ip_range \<Rightarrow> ip_range" where
  "to16_range r = r\<lparr>First := the (To16 (First r)), Last := the (To16 (Last r))\<rparr>"

text \<open>\<open>b\<close> is the packed form of \<open>rs\<close>, small enough for the widths of the format.\<close>

definition packs :: "ip_range list \<Rightarrow> bytes \<Rightarrow> bool" where
  "packs rs b \<longleftrightarrow> WritePacked rs = Some b \<and> length b < 2 ^ 63 \<and> (\<forall>r \<in> set rs. length (Description r) < 2 ^ 32)"

lemma packs_len:
  assumes "packs rs b"
  shows "packed_len b = Some (int (length rs))" and "44 * length rs + 8 \<le> length b"
proof -
  obtain es D where b: "b = le_bytes 8 (length rs) @ concat es @ D" and es: "list_all2 (packed_entry D) rs es"
    using assms WritePacked_shape by (metis packs_def)
  have e44: "\<forall>e \<in> set es. length e = 44" by (rule packed_entries_44 [OF es])
  have "length (concat es) = 44 * length rs"
    using e44 list_all2_lengthD [OF es] by (simp add: length_concat sum_list_triv cong: map_cong)
  then show "44 * length rs + 8 \<le> length b" by (simp add: b)
  moreover have "length b < 2 ^ 63" using assms by (simp add: packs_def)
  ultimately have "length rs < 2 ^ 63" by simp
  then show "packed_len b = Some (int (length rs))"
    using go_slice_mid [of "[]" 0 "le_bytes 8 (length rs)" 8 "concat es @ D"]
    by (simp add: packed_len_def b le_nat_le_bytes int64_small)
qed

lemma packs_at:
  assumes "packs rs b" "i < length rs"
  shows "getFirst b i = Some (First (to16_range (rs ! i)))" and "getRange b i = Some (to16_range (rs ! i))"
proof -
  obtain es D where b: "b = le_bytes 8 (length rs) @ concat es @ D" and es: "list_all2 (packed_entry D) rs es"
    using assms(1) WritePacked_shape by (metis packs_def)
  have len: "length es = length rs" using es by (simp add: list_all2_lengthD)
  have e44: "\<forall>e \<in> set es. length e = 44" by (rule packed_entries_44 [OF es])
  let ?d = "Description (rs ! i)"
  obtain f l off where fl: "To16 (First (rs ! i)) = Some f" "To16 (Last (rs ! i)) = Some l"
    and e: "es ! i = f @ l @ le_bytes 8 off @ le_bytes 4 (length ?d)"
    and off: "off + length ?d \<le> length D" "take (length ?d) (drop off D) = ?d"
    using es assms(2) by (auto simp: list_all2_conv_all_nth packed_entry_def)
  define pre post where "pre = le_bytes 8 (length rs) @ concat (take i es)" and "post = concat (drop (Suc i) es) @ D"
  have shape: "b = pre @ f @ l @ le_bytes 8 off @ le_bytes 4 (length ?d) @ post"
    using concat_at(1) [OF e44, of i] assms(2) len e by (simp add: b pre_def post_def)
  have pre: "length pre = 8 + 44 * i" using concat_at(2) [OF e44, of i] assms(2) len by (simp add: pre_def)
  have l16: "length f = 16" "length l = 16" using fl by (simp_all add: length_To16)
  let ?o = "8 + 44 * int i"
  have first: "go_slice b ?o (?o + 16) = Some f" unfolding shape by (rule go_slice_mid) (simp_all add: pre l16)
  have last: "go_slice b (?o + 16) (?o + 32) = Some l"
    using go_slice_mid [of "pre @ f" "?o + 16" l "?o + 32"] by (simp add: shape pre l16)
  have o8: "go_slice b (?o + 32) (?o + 40) = Some (le_bytes 8 off)"
    using go_slice_mid [of "pre @ f @ l" "?o + 32" "le_bytes 8 off" "?o + 40"] by (simp add: shape pre l16)
  have d4: "go_slice b (?o + 40) (?o + 44) = Some (le_bytes 4 (length ?d))"
    using go_slice_mid [of "pre @ f @ l @ le_bytes 8 off" "?o + 40" "le_bytes 4 (length ?d)" "?o + 44"]
    by (simp add: shape pre l16)
  have lenb: "length b = 8 + 44 * length rs + length D"
    using e44 len by (simp add: b length_concat sum_list_triv cong: map_cong)
  have small: "length b < 2 ^ 63" "length ?d < 2 ^ 32" using assms by (simp_all add: packs_def)
  have "int off + (8 + 44 * int (length rs)) + int (length ?d) \<le> int (length b)" using off(1) lenb by linarith
  then have sizes: "int off + (8 + 44 * int (length rs)) + int (length ?d) < 2 ^ 63" using small(1) by simp
  then have sizes': "off < 256 ^ 8" "length ?d < 256 ^ 4" using small(2) by simp_all
  have D: "b = (le_bytes 8 (length rs) @ concat es @ take off D) @ ?d @ drop (off + length ?d) D"
    using off(2) by (simp add: b) (metis add.commute append_take_drop_id drop_drop)
  have desc: "go_slice b (int off + (8 + 44 * int (length rs))) (int off + (8 + 44 * int (length rs)) + int (length ?d)) = Some ?d"
    by (subst D, rule go_slice_mid)
      (use off(1) e44 len in \<open>simp_all add: length_concat sum_list_triv nat_add_distrib nat_mult_distrib cong: map_cong\<close>)
  show g: "getFirst b i = Some (First (to16_range (rs ! i)))" using first fl by (simp add: getFirst_def Let_def to16_range_def)
  show "getRange b i = Some (to16_range (rs ! i))"
    using last o8 d4 desc sizes sizes' packs_len(1) [OF assms(1)] first fl
    by (simp add: getRange_def Let_def le_nat_le_bytes int64_small getFirst_def to16_range_def)
qed


definition unpacked :: "bytes \<Rightarrow> ip_range list" where
  "unpacked b = map (\<lambda>i. the (getRange b i)) [0..<nat (the (packed_len b))]"

lemma unpacked_packs: "packs rs b \<Longrightarrow> unpacked b = map to16_range rs"
  by (rule nth_equalityI) (simp_all add: unpacked_def packs_len packs_at)

definition packed_ok :: "bytes \<Rightarrow> bool" where
  "packed_ok b \<longleftrightarrow> (\<exists>rs. packs rs b \<and> ordered_ranges (map to16_range rs))"

interpretation packed_ranges: ranger packed_ok unpacked getFirst getRange
  by unfold_locales (auto simp: packed_ok_def unpacked_packs packs_at)

lemma NewFromPacked_packs: "packs rs b \<Longrightarrow> NewFromPacked b = Some b"
  using packs_len(2) [of rs b] packs_len(1) [of rs b]
  by (auto simp: NewFromPacked_def Let_def packs_def int64_small)

lemma ipl_lookup_exact:
  "ordered_ranges rs \<Longrightarrow> ipl_lookup rs ip = Some (r, True) \<longleftrightarrow> r \<in> set rs \<and> in_ip_range ip r"
  using list_ranges.lookup_exact [of rs ip r] by (simp add: ipl_lookup_def)

text \<open>
  C16. Packing a list of IP ranges and looking addresses up in the packed form finds what the list says:
  the packed bytes are accepted by \<^verbatim>\<open>NewFromPacked\<close>, every range is read back with its bounds in their 16
  byte form and its own description, and \<^verbatim>\<open>Lookup\<close> of an address finds a range exactly when a range of the
  list contains the address, without panicking.
\<close>

theorem packed_lookup_exact:
  assumes "WritePacked rs = Some b" "length b < 2 ^ 63" "\<forall>r \<in> set rs. length (Description r) < 2 ^ 32"
    and "ordered_ranges (map to16_range rs)" "To16 ip = Some ip16"
  shows "NewFromPacked b = Some b \<and> map (getRange b) [0..<length rs] = map (Some \<circ> to16_range) rs
    \<and> (\<exists>r ok. Packed_Lookup b ip = Some (r, ok)
         \<and> (ok \<longleftrightarrow> (\<exists>q \<in> set rs. in_ip_range ip16 (to16_range q)))
         \<and> (ok \<longrightarrow> (\<exists>q \<in> set rs. r = to16_range q \<and> in_ip_range ip16 r)))"
proof -
  have p: "packs rs b" using assms(1-3) by (simp add: packs_def)
  then have ok: "packed_ok b" using assms(4) packed_ok_def by blast
  have look: "Packed_Lookup b ip = lookup (getFirst b) (getRange b) (int (length (unpacked b))) ip16"
    using assms(5) p by (simp add: Packed_Lookup_def packs_len unpacked_packs)
  obtain r t where r: "Packed_Lookup b ip = Some (r, t)"
    using packed_ranges.lookup_returns [OF ok, of ip16] look by auto
  have ex: "Packed_Lookup b ip = Some (q, True) \<longleftrightarrow> q \<in> to16_range ` set rs \<and> in_ip_range ip16 q" for q
    using packed_ranges.lookup_exact [OF ok, of ip16 q] unpacked_packs [OF p] look by simp
  have "t \<longleftrightarrow> (\<exists>q \<in> set rs. in_ip_range ip16 (to16_range q))"
  proof
    assume t then show "\<exists>q \<in> set rs. in_ip_range ip16 (to16_range q)" using ex [of r] r by auto
  next
    assume "\<exists>q \<in> set rs. in_ip_range ip16 (to16_range q)"
    then obtain q where "Packed_Lookup b ip = Some (to16_range q, True)" using ex by blast
    then show t using r by simp
  qed
  moreover have "t \<longrightarrow> (\<exists>q \<in> set rs. r = to16_range q \<and> in_ip_range ip16 r)" using ex [of r] r by auto
  moreover have "map (getRange b) [0..<length rs] = map (Some \<circ> to16_range) rs"
    by (rule nth_equalityI) (simp_all add: packs_at [OF p])
  ultimately show ?thesis using r NewFromPacked_packs [OF p] by auto
qed

definition sample_ranges :: "ip_range list" where
  "sample_ranges =
     [\<lparr>First = [1, 2, 3, 0], Last = [1, 2, 3, 255], Description = [97, 98]\<rparr>,
      \<lparr>First = [5, 0, 0, 1], Last = [5, 0, 0, 1], Description = [97, 98]\<rparr>]"

theorem packed_lookup_exact_witness:
  "\<exists>b r. WritePacked sample_ranges = Some b \<and> length b = 98 \<and> Packed_Lookup b [1, 2, 3, 7] = Some (r, True)"
proof -
  have l: "map_option length (WritePacked sample_ranges) = Some 98"
    by (simp add: sample_ranges_def WritePacked_def To16_def Let_def)
  then obtain b where b: "WritePacked sample_ranges = Some b" "length b = 98" by auto
  have d: "\<forall>r \<in> set sample_ranges. length (Description r) < 2 ^ 32" by (simp add: sample_ranges_def)
  have o: "ordered_ranges (map to16_range sample_ranges)"
    by (simp add: sample_ranges_def ordered_ranges_def to16_range_def To16_def)
  have ip: "To16 [1, 2, 3, 7] = Some (v4InV6Prefix @ [1, 2, 3, 7])" by (simp add: To16_def)
  have "\<exists>q \<in> set sample_ranges. in_ip_range (v4InV6Prefix @ [1, 2, 3, 7]) (to16_range q)"
    by (simp add: sample_ranges_def in_ip_range_def to16_range_def To16_def)
  then show ?thesis using packed_lookup_exact [OF b(1) _ d o ip] b by auto
qed

text \<open>
  A list with a range that starts at 0.0.0.0, such as the network 0.0.0.0/8 of common block lists, contains every IPv4
  address: an address no range holds is looked up again in its 16 byte form, which starts with zero
  bytes and so compares above 0.0.0.0 and below the end of that range.
\<close>

theorem Lookup_zero_network:
  assumes "ordered_ranges (r # rs)" "First r = [0, 0, 0, 0]" "[0, 0, 0, 0] < Last r" "length (Last r) = 4"
    and "length ip = 4"
  shows "\<exists>q. IPList_Lookup (Some (r # rs)) ip = Some (q, True)"
proof -
  obtain q t where v4: "ipl_lookup (r # rs) ip = Some (q, t)"
    using list_ranges.lookup_returns [OF assms(1), of ip] by (auto simp: ipl_lookup_def)
  obtain a b c d where l: "Last r = [a, b, c, d]"
    using assms(4) by (auto simp: length_Suc_conv numeral_eq_Suc)
  have "in_ip_range (v4InV6Prefix @ ip) r"
    using assms(2,3) l by (auto simp: in_ip_range_def)
  then have "ipl_lookup (r # rs) (v4InV6Prefix @ ip) = Some (r, True)"
    using ipl_lookup_exact [OF assms(1), of "v4InV6Prefix @ ip" r] by simp
  then show ?thesis using v4 assms(5) by (cases t) (simp_all add: IPList_Lookup_def To4_def To16_def)
qed

theorem Lookup_zero_network_witness:
  "\<exists>q. IPList_Lookup (Some [\<lparr>First = [0, 0, 0, 0], Last = [0, 255, 255, 255], Description = []\<rparr>]) [8, 8, 8, 8] = Some (q, True)"
  by (rule Lookup_zero_network) (simp_all add: ordered_ranges_def)

end
