(* ===== verification/Alloclim.thy ===== *)
theory Alloclim
  imports Main "HOL-Library.Monad_Syntax"
begin

text \<open>
  Package \<^verbatim>\<open>internal/alloclim\<close>: reservations that share an allocation limit (\<^verbatim>\<open>l.go\<close>, \<^verbatim>\<open>r.go\<close>).  A \<^verbatim>\<open>*Reservation\<close>
  is its number in the order of the calls of \<open>Reserve\<close>, and the limiter holds the store of them.  The
  mutexes make every operation atomic; the wake-up that \<open>Cancel\<close> and \<open>Drop\<close> start in the background
  is the operation \<open>doWakes\<close>, which may come at any later time.
\<close>

record reservation =
  resN :: int
  released :: bool
  granted :: bool
  cancelled :: bool

record limiter =
  limMax :: int
  inited :: bool
  limValue :: int
  waiting :: "nat list"
  resvs :: "reservation list"

definition new_limiter :: "int \<Rightarrow> limiter" where
  "new_limiter m = \<lparr>limMax = m, inited = False, limValue = 0, waiting = [], resvs = []\<rparr>"

definition lim_init :: "limiter \<Rightarrow> limiter" where
  "lim_init l = (if inited l then l else l\<lparr>inited := True, limValue := limMax l\<rparr>)"

definition Reserve :: "int \<Rightarrow> limiter \<Rightarrow> limiter \<times> nat" where
  "Reserve n l =
     (let l = lim_init l;
          i = length (resvs l);
          ok = n \<le> limValue l;
          l = l\<lparr>resvs := resvs l @ [\<lparr>resN = n, released = False, granted = ok, cancelled = False\<rparr>]\<rparr>
      in (if ok then l\<lparr>limValue := limValue l - n\<rparr> else l\<lparr>waiting := waiting l @ [i]\<rparr>, i))"

definition upd_res :: "nat \<Rightarrow> (reservation \<Rightarrow> reservation) \<Rightarrow> limiter \<Rightarrow> limiter" where
  "upd_res i f l = l\<lparr>resvs := (resvs l)[i := f (resvs l ! i)]\<rparr>"

text \<open>Whether the reservation was granted by this call.\<close>

definition wake :: "nat \<Rightarrow> limiter \<Rightarrow> limiter \<times> bool" where
  "wake i l =
     (if cancelled (resvs l ! i) then (l, False)
      else (upd_res i (\<lambda>r. r\<lparr>granted := True\<rparr>) l, \<not> granted (resvs l ! i)))"

fun wakes :: "nat list \<Rightarrow> limiter \<Rightarrow> limiter" where
  "wakes [] l = l\<lparr>waiting := []\<rparr>"
| "wakes (i # is) l =
     (if cancelled (resvs l ! i) then wakes is l
      else if resN (resvs l ! i) \<le> limValue l then
        let (l', woken) = wake i l in
        wakes is (if woken then l'\<lparr>limValue := limValue l' - resN (resvs l' ! i)\<rparr> else l')
      else l\<lparr>waiting := i # is\<rparr>)"

definition doWakes :: "limiter \<Rightarrow> limiter" where
  "doWakes l = wakes (waiting l) l"

definition addValue :: "int \<Rightarrow> limiter \<Rightarrow> limiter" where
  "addValue n l = doWakes (l\<lparr>limValue := limValue l + n\<rparr>)"

text \<open>What \<^verbatim>\<open>releaseOnce\<close> guards.\<close>

definition release_once :: "nat \<Rightarrow> limiter \<Rightarrow> limiter" where
  "release_once i l =
     (if released (resvs l ! i) then l
      else addValue (resN (resvs l ! i)) (upd_res i (\<lambda>r. r\<lparr>released := True\<rparr>) l))"

text \<open>\<open>None\<close>: the panic for a reservation that is neither granted nor cancelled.\<close>

definition Release :: "nat \<Rightarrow> limiter \<Rightarrow> limiter option" where
  "Release i l =
     (if cancelled (resvs l ! i) then Some l
      else if granted (resvs l ! i) then Some (release_once i l)
      else None)"

definition Cancel :: "nat \<Rightarrow> limiter \<Rightarrow> limiter \<times> bool" where
  "Cancel i l = (if granted (resvs l ! i) then (l, False) else (upd_res i (\<lambda>r. r\<lparr>cancelled := True\<rparr>) l, True))"

definition Drop :: "nat \<Rightarrow> limiter \<Rightarrow> limiter" where
  "Drop i l = (if granted (resvs l ! i) then release_once i l else upd_res i (\<lambda>r. r\<lparr>cancelled := True\<rparr>) l)"

text \<open>
  \<open>Wait\<close> without a deadline: \<open>None\<close> while it blocks, otherwise whether the reservation is granted.
\<close>

datatype wait_result = WaitGranted | WaitTooBig | WaitCancelled

definition Wait :: "nat \<Rightarrow> limiter \<Rightarrow> wait_result option" where
  "Wait i l =
     (if resN (resvs l ! i) > limMax l then Some WaitTooBig
      else if granted (resvs l ! i) then Some WaitGranted
      else if cancelled (resvs l ! i) then Some WaitCancelled
      else None)"

section \<open>The accounts balance\<close>

definition held :: "reservation \<Rightarrow> int" where
  "held r = (if granted r \<and> \<not> released r then resN r else 0)"

definition outstanding :: "limiter \<Rightarrow> int" where
  "outstanding l = sum_list (map held (resvs l))"

definition res_ok :: "reservation \<Rightarrow> bool" where
  "res_ok r \<longleftrightarrow> 0 \<le> resN r \<and> \<not> (granted r \<and> cancelled r) \<and> (released r \<longrightarrow> granted r)"

definition queued_ok :: "limiter \<Rightarrow> nat list \<Rightarrow> bool" where
  "queued_ok l q \<longleftrightarrow> distinct q \<and> (\<forall>i \<in> set q. i < length (resvs l) \<and> \<not> granted (resvs l ! i)) \<and>
     (\<forall>i < length (resvs l). \<not> granted (resvs l ! i) \<longrightarrow> \<not> cancelled (resvs l ! i) \<longrightarrow> i \<in> set q)"

definition balanced :: "limiter \<Rightarrow> bool" where
  "balanced l \<longleftrightarrow> limValue l + outstanding l = limMax l \<and> 0 \<le> limValue l \<and> (\<forall>r \<in> set (resvs l). res_ok r)"

definition lim_inv :: "limiter \<Rightarrow> bool" where
  "lim_inv l \<longleftrightarrow> 0 \<le> limMax l \<and>
     (if inited l then balanced l \<and> queued_ok l (waiting l) else resvs l = [] \<and> waiting l = [])"

text \<open>The reservation at the head of the queue does not fit.\<close>

definition no_wake_due :: "limiter \<Rightarrow> bool" where
  "no_wake_due l \<longleftrightarrow> waiting l = [] \<or> limValue l < resN (resvs l ! hd (waiting l))"

text \<open>\<open>l'\<close> is \<open>l\<close> with some more reservations granted.\<close>

definition grants :: "limiter \<Rightarrow> limiter \<Rightarrow> bool" where
  "grants l l' \<longleftrightarrow> limMax l' = limMax l \<and> inited l' = inited l \<and> length (resvs l') = length (resvs l) \<and>
     (\<forall>i < length (resvs l). resN (resvs l' ! i) = resN (resvs l ! i) \<and> released (resvs l' ! i) = released (resvs l ! i)
        \<and> cancelled (resvs l' ! i) = cancelled (resvs l ! i) \<and> (granted (resvs l ! i) \<longrightarrow> granted (resvs l' ! i)))"

lemma sum_list_upd: "i < length xs \<Longrightarrow> sum_list (xs[i := y]) = sum_list xs - xs ! i + (y :: int)"
  by (induction xs arbitrary: i) (auto split: nat.split)

lemma outstanding_upd:
  assumes "i < length (resvs l)"
  shows "outstanding (upd_res i f l) = outstanding l - held (resvs l ! i) + held (f (resvs l ! i))"
  using assms by (simp add: outstanding_def upd_res_def map_update sum_list_upd)

lemma resvs_upd [simp]:
  "length (resvs (upd_res i f l)) = length (resvs l)"
  "i < length (resvs l) \<Longrightarrow> resvs (upd_res i f l) ! j = (if j = i then f (resvs l ! i) else resvs l ! j)"
  "limValue (upd_res i f l) = limValue l" "limMax (upd_res i f l) = limMax l" "inited (upd_res i f l) = inited l"
  "waiting (upd_res i f l) = waiting l"
  by (auto simp: upd_res_def)

lemma balanced_upd:
  assumes "balanced l" "i < length (resvs l)" "res_ok (f (resvs l ! i))"
    and "0 \<le> v" "v + held (f (resvs l ! i)) = limValue l + held (resvs l ! i)"
  shows "balanced ((upd_res i f l)\<lparr>limValue := v\<rparr>)"
proof -
  have "outstanding ((upd_res i f l)\<lparr>limValue := v\<rparr>) = outstanding (upd_res i f l)" by (simp add: outstanding_def)
  moreover have "\<forall>r \<in> set (resvs (upd_res i f l)). res_ok r"
    using assms(1,2,3) set_update_subset_insert [of "resvs l" i "f (resvs l ! i)"] by (auto simp: upd_res_def balanced_def)
  ultimately show ?thesis using assms by (simp add: balanced_def outstanding_upd)
qed

text \<open>Granting what waits keeps the accounts, from any suffix of the queue.\<close>

lemma wakes_inv:
  assumes "balanced l" "queued_ok l q"
  shows "balanced (wakes q l) \<and> queued_ok (wakes q l) (waiting (wakes q l)) \<and> grants l (wakes q l) \<and> no_wake_due (wakes q l)"
  using assms
proof (induction q arbitrary: l)
  case Nil
  then show ?case by (simp add: balanced_def queued_ok_def outstanding_def grants_def no_wake_due_def)
next
  case (Cons i q)
  have i: "i < length (resvs l)" "\<not> granted (resvs l ! i)" "i \<notin> set q" using Cons.prems(2) by (auto simp: queued_ok_def)
  consider "cancelled (resvs l ! i)" | "\<not> cancelled (resvs l ! i)" "resN (resvs l ! i) \<le> limValue l"
    | "\<not> cancelled (resvs l ! i)" "limValue l < resN (resvs l ! i)" by linarith
  then show ?case
  proof cases
    case 1
    then have "queued_ok l q" using Cons.prems(2) by (auto simp: queued_ok_def)
    then show ?thesis using Cons.IH [OF Cons.prems(1)] 1 by simp
  next
    case 2
    let ?f = "\<lambda>r. r\<lparr>granted := True\<rparr>"
    let ?l = "(upd_res i ?f l)\<lparr>limValue := limValue l - resN (resvs l ! i)\<rparr>"
    have "res_ok (resvs l ! i)" using Cons.prems(1) i(1) by (simp add: balanced_def)
    then have "balanced ?l"
      using 2 i by (intro balanced_upd [OF Cons.prems(1) i(1)]) (auto simp: res_ok_def held_def)
    moreover have "queued_ok ?l q" using Cons.prems(2) i by (auto simp: queued_ok_def)
    moreover have w: "wakes (i # q) l = wakes q ?l" using 2 i by (simp add: wake_def)
    moreover have "grants ?l l' \<Longrightarrow> grants l l'" for l' using i(1) by (auto simp: grants_def)
    ultimately show ?thesis using Cons.IH [of ?l] by simp
  next
    case 3
    then show ?thesis using Cons.prems by (simp add: balanced_def queued_ok_def outstanding_def grants_def no_wake_due_def)
  qed
qed

lemma lim_initedD: "lim_inv l \<Longrightarrow> inited l \<Longrightarrow> balanced l \<and> queued_ok l (waiting l) \<and> 0 \<le> limMax l"
  by (simp add: lim_inv_def)

lemma lim_initedI: "balanced l \<Longrightarrow> queued_ok l (waiting l) \<Longrightarrow> inited l \<Longrightarrow> 0 \<le> limMax l \<Longrightarrow> lim_inv l"
  by (simp add: lim_inv_def)

lemma lim_inv_init: "lim_inv l \<Longrightarrow> lim_inv (lim_init l)"
  by (auto simp: lim_inv_def lim_init_def balanced_def queued_ok_def outstanding_def)

lemma doWakes_inv:
  assumes "lim_inv l"
  shows "lim_inv (doWakes l)" and "grants l (doWakes l)" and "no_wake_due (doWakes l)"
proof -
  have "lim_inv (doWakes l) \<and> grants l (doWakes l) \<and> no_wake_due (doWakes l)"
  proof (cases "inited l")
    case True
    then show ?thesis
      using wakes_inv [of l "waiting l"] lim_initedD [OF assms] by (auto simp: doWakes_def grants_def intro!: lim_initedI)
  next
    case False
    then have "doWakes l = l" "resvs l = []" "waiting l = []" using assms by (simp_all add: lim_inv_def doWakes_def)
    then show ?thesis using assms by (simp add: grants_def no_wake_due_def)
  qed
  then show "lim_inv (doWakes l)" "grants l (doWakes l)" "no_wake_due (doWakes l)" by simp_all
qed

lemma Reserve_inv:
  assumes "lim_inv l" "0 \<le> n"
  shows "lim_inv (fst (Reserve n l))" and "snd (Reserve n l) = length (resvs l)"
    and "length (resvs (fst (Reserve n l))) = Suc (length (resvs l))"
    and "i < length (resvs l) \<Longrightarrow> resvs (fst (Reserve n l)) ! i = resvs l ! i"
proof -
  let ?l = "lim_init l"
  have "inited ?l" by (simp add: lim_init_def)
  then have b: "balanced ?l" "queued_ok ?l (waiting ?l)" "0 \<le> limMax ?l"
    using lim_initedD [OF lim_inv_init [OF assms(1)]] by simp_all
  have r: "resvs ?l = resvs l" by (simp add: lim_init_def)
  let ?l' = "fst (Reserve n l)"
  have "balanced ?l'" using b assms(2) by (auto simp: Reserve_def Let_def balanced_def outstanding_def held_def res_ok_def)
  moreover have "queued_ok ?l' (waiting ?l')"
    using b(2) by (auto simp: Reserve_def Let_def queued_ok_def nth_append less_Suc_eq)
  moreover have "inited ?l'" "0 \<le> limMax ?l'" using \<open>inited ?l\<close> b(3) by (simp_all add: Reserve_def Let_def)
  ultimately show "lim_inv ?l'" by (rule lim_initedI)
  show "snd (Reserve n l) = length (resvs l)" "length (resvs ?l') = Suc (length (resvs l))"
    "i < length (resvs l) \<Longrightarrow> resvs ?l' ! i = resvs l ! i"
    by (simp_all add: Reserve_def Let_def r nth_append)
qed

lemma release_once_inv:
  assumes "lim_inv l" "i < length (resvs l)" "granted (resvs l ! i)"
  shows "lim_inv (release_once i l)" and "released (resvs (release_once i l) ! i)"
    and "grants (upd_res i (\<lambda>r. r\<lparr>released := True\<rparr>) l) (release_once i l)"
proof -
  have "lim_inv (release_once i l) \<and> released (resvs (release_once i l) ! i)
      \<and> grants (upd_res i (\<lambda>r. r\<lparr>released := True\<rparr>) l) (release_once i l)"
  proof (cases "released (resvs l ! i)")
    case True
    then show ?thesis using assms by (simp add: release_once_def grants_def)
  next
    case False
    let ?l = "upd_res i (\<lambda>r. r\<lparr>released := True\<rparr>) l"
    let ?v = "limValue l + resN (resvs l ! i)"
    have inited: "inited l" using assms(1,2) by (auto simp: lim_inv_def split: if_splits)
    note b = lim_initedD [OF assms(1) inited]
    have ok: "res_ok (resvs l ! i)" using b assms(2) by (simp add: balanced_def)
    have "balanced (?l\<lparr>limValue := ?v\<rparr>)"
      by (rule balanced_upd [OF _ assms(2)]) (use b False ok assms(3) in \<open>simp_all add: res_ok_def held_def balanced_def\<close>)
    moreover have "queued_ok (?l\<lparr>limValue := ?v\<rparr>) (waiting l)"
      using b assms(2,3) by (simp add: queued_ok_def) blast
    ultimately have "lim_inv (?l\<lparr>limValue := ?v\<rparr>)" using inited b by (intro lim_initedI) simp_all
    note d = doWakes_inv [OF this]
    have e: "release_once i l = doWakes (?l\<lparr>limValue := ?v\<rparr>)" using False assms(2) by (simp add: release_once_def addValue_def)
    have "grants ?l (release_once i l)" using d(2) unfolding e by (simp add: grants_def)
    moreover from this have "released (resvs (release_once i l) ! i)" using assms(2) by (simp add: grants_def)
    ultimately show ?thesis using d(1) e by simp
  qed
  then show "lim_inv (release_once i l)" "released (resvs (release_once i l) ! i)"
    "grants (upd_res i (\<lambda>r. r\<lparr>released := True\<rparr>) l) (release_once i l)" by simp_all
qed

lemma cancel_inv:
  assumes "lim_inv l" "i < length (resvs l)" "\<not> granted (resvs l ! i)"
  shows "lim_inv (upd_res i (\<lambda>r. r\<lparr>cancelled := True\<rparr>) l)"
proof -
  let ?l = "upd_res i (\<lambda>r. r\<lparr>cancelled := True\<rparr>) l"
  have inited: "inited l" using assms(1,2) by (auto simp: lim_inv_def split: if_splits)
  note b = lim_initedD [OF assms(1) inited]
  have ok: "res_ok (resvs l ! i)" using b assms(2) by (simp add: balanced_def)
  have "balanced (?l\<lparr>limValue := limValue l\<rparr>)"
    by (rule balanced_upd [OF _ assms(2)]) (use b ok assms(3) in \<open>simp_all add: res_ok_def held_def balanced_def\<close>)
  moreover have "?l\<lparr>limValue := limValue l\<rparr> = ?l" by (simp add: upd_res_def)
  moreover have "granted (resvs ?l ! j) = granted (resvs l ! j)" "\<not> cancelled (resvs ?l ! j) \<Longrightarrow> \<not> cancelled (resvs l ! j)" for j
    using assms(2) by (auto split: if_splits)
  then have "queued_ok ?l (waiting ?l)" using b unfolding queued_ok_def resvs_upd by blast
  ultimately show ?thesis using inited b by (intro lim_initedI) simp_all
qed


section \<open>Any sequence of operations\<close>

datatype lim_op = LReserve int | LRelease nat | LCancel nat | LDrop nat | LWakes

fun lim_exec :: "lim_op \<Rightarrow> limiter \<Rightarrow> limiter option" where
  "lim_exec (LReserve n) l = Some (fst (Reserve n l))"
| "lim_exec (LRelease i) l = Release i l"
| "lim_exec (LCancel i) l = Some (fst (Cancel i l))"
| "lim_exec (LDrop i) l = Some (Drop i l)"
| "lim_exec LWakes l = Some (doWakes l)"

text \<open>Amounts are not negative, operations are called on reservations made, and only a resolved one is released.\<close>

fun lim_guard :: "lim_op \<Rightarrow> limiter \<Rightarrow> bool" where
  "lim_guard (LReserve n) l \<longleftrightarrow> 0 \<le> n"
| "lim_guard (LRelease i) l \<longleftrightarrow> i < length (resvs l) \<and> (granted (resvs l ! i) \<or> cancelled (resvs l ! i))"
| "lim_guard (LCancel i) l \<longleftrightarrow> i < length (resvs l)"
| "lim_guard (LDrop i) l \<longleftrightarrow> i < length (resvs l)"
| "lim_guard LWakes l \<longleftrightarrow> True"

inductive lim_reach :: "limiter \<Rightarrow> limiter \<Rightarrow> bool" where
  start: "lim_reach l l"
| step: "lim_reach l l' \<Longrightarrow> lim_guard op l' \<Longrightarrow> lim_exec op l' = Some l'' \<Longrightarrow> lim_reach l l''"

lemma lim_exec_inv:
  assumes "lim_inv l" "lim_guard op l"
  shows "\<exists>l'. lim_exec op l = Some l' \<and> lim_inv l' \<and> limMax l' = limMax l"
proof (cases op)
  case (LReserve n)
  then show ?thesis using Reserve_inv(1) [OF assms(1), of n] assms(2) by (simp add: Reserve_def Let_def lim_init_def)
next
  case (LRelease i)
  then show ?thesis
    using assms release_once_inv(1,3) [OF assms(1), of i] by (auto simp: Release_def grants_def)
next
  case (LCancel i)
  then show ?thesis using assms cancel_inv [OF assms(1), of i] by (simp add: Cancel_def)
next
  case (LDrop i)
  then show ?thesis
    using assms cancel_inv [OF assms(1), of i] release_once_inv(1,3) [OF assms(1), of i] by (simp add: Drop_def grants_def)
next
  case LWakes
  then show ?thesis using doWakes_inv [OF assms(1)] by (simp add: grants_def)
qed

lemma lim_reach_inv: "lim_reach l l' \<Longrightarrow> lim_inv l \<Longrightarrow> lim_inv l' \<and> limMax l' = limMax l"
proof (induction rule: lim_reach.induct)
  case (step l l' op l'')
  then have "lim_inv l'" "limMax l' = limMax l" by simp_all
  then show ?case using lim_exec_inv [of l' op] step(2,3) by auto
qed simp

lemma new_limiter_inv: "0 \<le> m \<Longrightarrow> lim_inv (new_limiter m)"
  by (simp add: lim_inv_def new_limiter_def)

lemma outstanding_bound:
  assumes "lim_inv l"
  shows "0 \<le> outstanding l" "outstanding l \<le> limMax l" "inited l \<Longrightarrow> limValue l = limMax l - outstanding l"
proof -
  have "\<forall>r \<in> set (resvs l). 0 \<le> held r"
    using assms by (auto simp: lim_inv_def balanced_def res_ok_def held_def split: if_splits)
  then show "0 \<le> outstanding l" by (auto simp: outstanding_def intro!: sum_list_nonneg)
  show "outstanding l \<le> limMax l" "inited l \<Longrightarrow> limValue l = limMax l - outstanding l"
    using assms by (auto simp: lim_inv_def balanced_def outstanding_def split: if_splits)
qed



end
