(* ===== verification/Sha1.thy ===== *)
theory Sha1
  imports Torrent_Prelude
begin

text \<open>
  The SHA-1 hash of the Go library (\<^verbatim>\<open>crypto/sha1\<close>, FIPS 180), with which info dictionaries, pieces and the keys
  of encrypted connections are hashed, and \<^verbatim>\<open>infohash.HashBytes\<close>.
\<close>

unbundle bit_operations_syntax

definition rotl :: "nat \<Rightarrow> u32 \<Rightarrow> u32" where
  "rotl n w = push_bit n w OR drop_bit (32 - n) w"

definition sha1_pad :: "bytes \<Rightarrow> bytes" where
  "sha1_pad b = b @ [0x80] @ replicate (nat ((55 - int (length b)) mod 64)) 0 @ be_bytes 8 (8 * length b)"

text \<open>The message schedule of a block, one word after the other.\<close>

definition schedule_step :: "u32 list \<Rightarrow> u32 list" where
  "schedule_step w = (let t = length w in w @ [rotl 1 (w ! (t - 3) XOR w ! (t - 8) XOR w ! (t - 14) XOR w ! (t - 16))])"

definition schedule :: "bytes \<Rightarrow> u32 list" where
  "schedule blk = (schedule_step ^^ 64) (map (\<lambda>i. u32_of (take 4 (drop (4 * i) blk))) [0..<16])"

type_synonym sha1_state = "u32 \<times> u32 \<times> u32 \<times> u32 \<times> u32"

definition sha1_round :: "sha1_state \<Rightarrow> nat \<times> u32 \<Rightarrow> sha1_state" where
  "sha1_round s tw =
     (case s of (a, b, c, d, e) \<Rightarrow> case tw of (t, w) \<Rightarrow>
      let (f, k) =
            (if t < 20 then ((b AND c) OR (NOT b AND d), 0x5A827999)
             else if t < 40 then (b XOR c XOR d, 0x6ED9EBA1)
             else if t < 60 then ((b AND c) OR (b AND d) OR (c AND d), 0x8F1BBCDC)
             else (b XOR c XOR d, 0xCA62C1D6))
      in (rotl 5 a + f + e + k + w, a, rotl 30 b, c, d))"

definition sha1_block :: "sha1_state \<Rightarrow> bytes \<Rightarrow> sha1_state" where
  "sha1_block h blk =
     (case foldl sha1_round h (zip [0..<80] (schedule blk)) of (a, b, c, d, e) \<Rightarrow>
      case h of (a', b', c', d', e') \<Rightarrow> (a' + a, b' + b, c' + c, d' + d, e' + e))"

function sha1_blocks :: "sha1_state \<Rightarrow> bytes \<Rightarrow> sha1_state" where
  "sha1_blocks h b = (if length b < 64 then h else sha1_blocks (sha1_block h (take 64 b)) (drop 64 b))"
  by pat_completeness auto
termination
  by (relation "measure (\<lambda>(h, b). length b)") auto

declare sha1_blocks.simps [simp del]

definition sha1 :: "bytes \<Rightarrow> bytes" where
  "sha1 b =
     (case sha1_blocks (0x67452301, 0xEFCDAB89, 0x98BADCFE, 0x10325476, 0xC3D2E1F0) (sha1_pad b) of
        (a, b, c, d, e) \<Rightarrow> be32 a @ be32 b @ be32 c @ be32 d @ be32 e)"

definition HashBytes :: "bytes \<Rightarrow> bytes" where
  "HashBytes b = sha1 b"

lemma length_sha1 [simp]: "length (sha1 b) = 20"
  by (simp add: sha1_def be32_def split: prod.split)

lemma length_HashBytes [simp]: "length (HashBytes b) = 20"
  by (simp add: HashBytes_def)

text \<open>The padded message is a whole number of blocks.\<close>

lemma sha1_pad_blocks: "length (sha1_pad b) mod 64 = 0"
proof -
  have "int (length (sha1_pad b)) = int (length b) + 9 + (55 - int (length b)) mod 64"
    by (simp add: sha1_pad_def)
  then have "int (length (sha1_pad b)) mod 64 = 0" by presburger
  then show ?thesis by presburger
qed

end
