(* ===== verification/Metainfo.thy ===== *)
theory Metainfo
  imports Bencode_Reflect Geometry Sha1 "HOL-Library.Signed_Division" "HOL-Library.Monad_Syntax"
begin

text \<open>
  Package \<^verbatim>\<open>metainfo\<close>: the info dictionary with its files and pieces (\<^verbatim>\<open>info.go\<close>, \<^verbatim>\<open>fileinfo.go\<close>, \<^verbatim>\<open>piece.go\<close>,
  \<^verbatim>\<open>pieces.go\<close>, \<^verbatim>\<open>piece-length.go\<close>), its decoding by the typed decoder of \<^verbatim>\<open>bencode\<close>, announce lists (\<^verbatim>\<open>announcelist.go\<close>), and
  \<^verbatim>\<open>validateInfo\<close> of \<^verbatim>\<open>misc.go\<close>.  Strings are their bytes.
\<close>

section \<open>The info dictionary\<close>

record file_info =
  FLength :: int
  FPath :: "bytes list"
  FPathUtf8 :: "bytes list"

record info_dict =
  iPieceLength :: int
  iPieces :: bytes
  iName :: bytes
  iNameUtf8 :: bytes
  iLength :: int
  iPrivate :: "bool option"
  iSource :: bytes
  iFiles :: "file_info list"

definition IsDir :: "info_dict \<Rightarrow> bool" where
  "IsDir info \<longleftrightarrow> length (iFiles info) \<noteq> 0"

definition info_TotalLength :: "info_dict \<Rightarrow> int" where
  "info_TotalLength info =
     (if IsDir info then foldl (\<lambda>ret fi. int64 (ret + FLength fi)) 0 (iFiles info) else iLength info)"

definition info_NumPieces :: "info_dict \<Rightarrow> nat" where
  "info_NumPieces info = length (iPieces info) div 20"

definition UpvertedFiles :: "info_dict \<Rightarrow> file_info list" where
  "UpvertedFiles info =
     (if length (iFiles info) = 0 then [\<lparr>FLength = iLength info, FPath = [], FPathUtf8 = []\<rparr>] else iFiles info)"

definition BestName :: "info_dict \<Rightarrow> bytes" where
  "BestName info = (if iNameUtf8 info \<noteq> [] then iNameUtf8 info else iName info)"

definition BestPath :: "file_info \<Rightarrow> bytes list" where
  "BestPath fi = (if length (FPathUtf8 fi) \<noteq> 0 then FPathUtf8 fi else FPath fi)"

fun join_slash :: "bytes list \<Rightarrow> bytes" where
  "join_slash [] = []"
| "join_slash [s] = s"
| "join_slash (s # ss) = s @ [47] @ join_slash ss"

definition DisplayPath :: "file_info \<Rightarrow> info_dict \<Rightarrow> bytes" where
  "DisplayPath fi info = (if IsDir info then join_slash (BestPath fi) else BestName info)"

text \<open>\<open>None\<close>: the panic for a file that is not there.\<close>

fun offset_loop :: "info_dict \<Rightarrow> bytes \<Rightarrow> int \<Rightarrow> file_info list \<Rightarrow> int option" where
  "offset_loop info path ret [] = None"
| "offset_loop info path ret (fi # fis) =
     (if path = DisplayPath fi info then Some ret else offset_loop info path (int64 (ret + FLength fi)) fis)"

definition FileInfo_Offset :: "file_info \<Rightarrow> info_dict \<Rightarrow> int option" where
  "FileInfo_Offset me info = offset_loop info (DisplayPath me info) 0 (UpvertedFiles info)"

section \<open>Pieces\<close>

definition Piece_Offset :: "info_dict \<Rightarrow> int \<Rightarrow> int" where
  "Piece_Offset info i = int64 (i * iPieceLength info)"

definition Piece_Length :: "info_dict \<Rightarrow> int \<Rightarrow> int" where
  "Piece_Length info i =
     (if i = int (info_NumPieces info) - 1 then int64 (info_TotalLength info - int64 (i * iPieceLength info))
      else iPieceLength info)"

text \<open>A slice out of range is a panic.\<close>

definition Piece_Hash :: "info_dict \<Rightarrow> int \<Rightarrow> bytes option" where
  "Piece_Hash info i =
     (if 0 \<le> i \<and> (i + 1) * 20 \<le> int (length (iPieces info)) then Some (take 20 (drop (nat i * 20) (iPieces info)))
      else None)"

fun infoPieceHashes_loop :: "nat \<Rightarrow> bytes \<Rightarrow> bytes list option" where
  "infoPieceHashes_loop 0 ps = Some []"
| "infoPieceHashes_loop (Suc n) ps =
     (if ps = [] then Some []
      else if length ps < 20 then None
      else map_option ((#) (take 20 ps)) (infoPieceHashes_loop n (drop 20 ps)))"

text \<open>The loop goes round once for each 20 bytes, so the length of the pieces is more than enough rounds.\<close>

definition infoPieceHashes :: "info_dict \<Rightarrow> bytes list option" where
  "infoPieceHashes info = infoPieceHashes_loop (length (iPieces info)) (iPieces info)"

datatype info_error = PiecesLength | ZeroPieceLength | PieceCount

text \<open>The quotient of Go truncates towards zero; the count of pieces is compared as an \<^verbatim>\<open>int\<close>.\<close>

definition validateInfo :: "info_dict \<Rightarrow> info_error option" where
  "validateInfo info =
     (if length (iPieces info) mod 20 \<noteq> 0 then Some PiecesLength
      else if iPieceLength info = 0 then
        if info_TotalLength info \<noteq> 0 then Some ZeroPieceLength else None
      else if int64 (int64 (int64 (info_TotalLength info + iPieceLength info) - 1) sdiv iPieceLength info) \<noteq> int (info_NumPieces info)
        then Some PieceCount
      else None)"

section \<open>Making an info dictionary\<close>

text \<open>\<^verbatim>\<open>ChoosePieceLength\<close>: the loop doubles the length and halves the number of pieces.\<close>

function choose_loop :: "int \<Rightarrow> int \<Rightarrow> int" where
  "choose_loop pieceLen pieces = (if pieces \<ge> 2048 then choose_loop (int64 (pieceLen * 2)) (pieces div 2) else pieceLen)"
  by pat_completeness auto
termination
  by (relation "measure (\<lambda>(l, n). nat n)") auto

declare choose_loop.simps [simp del]

definition ChoosePieceLength :: "int \<Rightarrow> int" where
  "ChoosePieceLength totalLen = choose_loop (2 ^ 14) (totalLen sdiv 2 ^ 14)"

text \<open>
  \<^verbatim>\<open>io.CopyN\<close> from a reader of the given bytes: what is copied, what is left, and whether it ended with \<^verbatim>\<open>io.EOF\<close>.
  A negative count copies nothing and is no end.
\<close>

definition CopyN :: "bytes \<Rightarrow> int \<Rightarrow> bytes \<times> bytes \<times> bool" where
  "CopyN r n = (take (nat n) r, drop (nat n) r, int (length r) < n)"

text \<open>\<open>None\<close>: the loop does not end.\<close>

partial_function (option) GeneratePieces :: "bytes \<Rightarrow> int \<Rightarrow> bytes \<Rightarrow> bytes option" where
  "GeneratePieces r pieceLen b =
     (case CopyN r pieceLen of (written, rest, eof) \<Rightarrow>
      let b' = (if length written > 0 then b @ sha1 written else b) in
      if eof then Some b' else GeneratePieces rest pieceLen b')"

section \<open>Announce lists\<close>

type_synonym announce_list = "bytes list list"

definition OverridesAnnounce :: "announce_list \<Rightarrow> bytes \<Rightarrow> bool" where
  "OverridesAnnounce al announce \<longleftrightarrow> (\<exists>tier \<in> set al. \<exists>url \<in> set tier. url \<noteq> [] \<or> announce = [])"

fun distinct_from :: "bytes set \<Rightarrow> bytes list \<Rightarrow> bytes list" where
  "distinct_from seen [] = []"
| "distinct_from seen (v # vs) = (if v \<in> seen then distinct_from seen vs else v # distinct_from (insert v seen) vs)"

definition DistinctValues :: "announce_list \<Rightarrow> bytes list" where
  "DistinctValues al = distinct_from {} (concat al)"

definition UpvertedAnnounceList :: "announce_list \<Rightarrow> bytes \<Rightarrow> announce_list" where
  "UpvertedAnnounceList al announce =
     (if OverridesAnnounce al announce then al else if announce \<noteq> [] then [[announce]] else [])"

lemma distinct_from_spec: "distinct (distinct_from seen vs) \<and> set (distinct_from seen vs) = set vs - seen"
  by (induction vs arbitrary: seen) auto

lemma DistinctValues_spec: "distinct (DistinctValues al) \<and> set (DistinctValues al) = \<Union> (set ` set al)"
  using distinct_from_spec by (simp add: DistinctValues_def)


section \<open>Generated pieces\<close>

definition ceil_div :: "nat \<Rightarrow> nat \<Rightarrow> nat" where
  "ceil_div n k = (n + k - 1) div k"

lemma ceil_div_step: "0 < k \<Longrightarrow> k \<le> n \<Longrightarrow> ceil_div n k = Suc (ceil_div (n - k) k)"
  using le_div_geq [of k "n + k - 1"] by (simp add: ceil_div_def)

lemma ceil_div_small: "0 < k \<Longrightarrow> n < k \<Longrightarrow> ceil_div n k = (if n = 0 then 0 else 1)"
  by (auto simp: ceil_div_def div_nat_eqI)

definition piece_hashes :: "nat \<Rightarrow> bytes \<Rightarrow> bytes list" where
  "piece_hashes k d = map (\<lambda>i. sha1 (take k (drop (i * k) d))) [0..<ceil_div (length d) k]"

lemma piece_hashes_step:
  assumes "0 < k" "k \<le> length d"
  shows "piece_hashes k d = sha1 (take k d) # piece_hashes k (drop k d)"
proof -
  have "[0..<ceil_div (length d) k] = 0 # map Suc [0..<ceil_div (length d - k) k]"
    using ceil_div_step [OF assms] by (simp add: upt_conv_Cons map_Suc_upt del: upt_Suc)
  then show ?thesis by (simp add: piece_hashes_def comp_def add.commute)
qed

lemma GeneratePieces_eq:
  assumes "0 < k"
  shows "GeneratePieces d (int k) b = Some (b @ concat (piece_hashes k d))"
proof (induction d arbitrary: b rule: length_induct)
  case (1 d)
  show ?case
  proof (cases "length d < k")
    case True
    then show ?thesis
      using assms by (subst GeneratePieces.simps) (simp add: CopyN_def piece_hashes_def ceil_div_small Let_def)
  next
    case False
    then have "d \<noteq> []" "length (drop k d) < length d" using assms by auto
    then have "d \<noteq> []" "GeneratePieces (drop k d) (int k) (b @ sha1 (take k d)) = Some ((b @ sha1 (take k d)) @ concat (piece_hashes k (drop k d)))"
      using 1 [rule_format, of "drop k d"] by simp_all
    moreover have "piece_hashes k d = sha1 (take k d) # piece_hashes k (drop k d)"
      using piece_hashes_step assms False by simp
    ultimately show ?thesis
      using False assms by (subst GeneratePieces.simps) (simp add: CopyN_def Let_def)
  qed
qed

lemma GeneratePieces_diverges:
  assumes "n \<le> 0"
  shows "GeneratePieces d n b = None"
proof -
  have "0 < n" if g: "GeneratePieces d n b = Some y" for y
    by (rule GeneratePieces.raw_induct [OF _ g]) (auto simp: CopyN_def Let_def split: if_splits)
  then show ?thesis using assms by (cases "GeneratePieces d n b") auto
qed

lemma concat_hashes_nth:
  assumes "\<forall>h \<in> set hs. length h = 20" "i < length hs"
  shows "take 20 (drop (i * 20) (concat hs)) = hs ! i"
  using assms
proof (induction hs arbitrary: i)
  case (Cons h hs)
  then show ?case by (cases i) auto
qed simp

lemma length_concat_hashes: "\<forall>h \<in> set hs. length h = 20 \<Longrightarrow> length (concat hs) = 20 * length hs"
  by (induction hs) auto

lemma piece_hashes_20: "\<forall>h \<in> set (piece_hashes k d). length h = 20"
  by (simp add: piece_hashes_def)

lemma ceil_div_mult: "0 < k \<Longrightarrow> 0 < n \<Longrightarrow> (ceil_div n k - 1) * k < n \<and> n \<le> ceil_div n k * k"
proof -
  assume k: "0 < k" and n: "0 < n"
  let ?q = "ceil_div n k"
  have e: "?q * k + (n + k - 1) mod k = n + k - 1" unfolding ceil_div_def by (rule div_mult_mod_eq)
  have m: "(n + k - 1) mod k < k" using k by simp
  have "0 < ?q" using e m n by (cases ?q) auto
  then have "?q * k = (?q - 1) * k + k" by (cases ?q) auto
  then show ?thesis using e m k by linarith
qed

lemma ceil_div_le:
  assumes "0 < k"
  shows "ceil_div n k \<le> n"
proof (cases "n = 0")
  case False
  have "ceil_div n k - 1 \<le> (ceil_div n k - 1) * k" using assms by simp
  also have "\<dots> < n" using ceil_div_mult assms False by blast
  finally show ?thesis by simp
qed (use assms in \<open>simp add: ceil_div_small\<close>)

definition generated :: "nat \<Rightarrow> bytes \<Rightarrow> info_dict \<Rightarrow> bool" where
  "generated k d info \<longleftrightarrow> 0 < k \<and> length d + k < 2 ^ 63 \<and> iPieceLength info = int k \<and> iFiles info = [] \<and>
     iLength info = int (length d) \<and> iPieces info = concat (piece_hashes k d)"

lemma generated_numbers:
  assumes "generated k d info"
  shows "info_NumPieces info = ceil_div (length d) k" "length (iPieces info) = 20 * ceil_div (length d) k"
    "info_TotalLength info = int (length d)"
  using assms length_concat_hashes [OF piece_hashes_20, of k d]
  by (simp_all add: generated_def info_NumPieces_def piece_hashes_def info_TotalLength_def IsDir_def)

lemma generated_valid:
  assumes "generated k d info"
  shows "validateInfo info = None"
proof -
  have k: "0 < k" "length d + k < 2 ^ 63" "iPieceLength info = int k" using assms by (simp_all add: generated_def)
  note n = generated_numbers [OF assms]
  have "int64 (int64 (info_TotalLength info + iPieceLength info) - 1) = int (length d + k - 1)"
    using k n by (simp add: int64_small of_nat_diff)
  moreover have "int (length d + k - 1) sdiv int k = int (ceil_div (length d) k)"
    using k(1) by (simp add: signed_divide_int_def ceil_div_def zdiv_int sgn_if)
  moreover have "ceil_div (length d) k \<le> length d" by (rule ceil_div_le [OF k(1)])
  ultimately show ?thesis using n k by (simp add: validateInfo_def int64_small)
qed

lemma generated_piece:
  assumes "generated k d info" "i < info_NumPieces info"
  shows "Piece_Hash info (int i) = Some (sha1 (take (nat (Piece_Length info (int i))) (drop (nat (Piece_Offset info (int i))) d)))"
    and "0 < Piece_Length info (int i)" "Piece_Length info (int i) \<le> int k"
proof -
  have k: "0 < k" "length d + k < 2 ^ 63" "iPieceLength info = int k" "iPieces info = concat (piece_hashes k d)"
    using assms(1) by (simp_all add: generated_def)
  note n = generated_numbers [OF assms(1)]
  have i: "i < ceil_div (length d) k" using assms(2) n by simp
  then have pos: "0 < length d" using k(1) by (cases "length d = 0") (simp_all add: ceil_div_small)
  note cd = ceil_div_mult [OF k(1) pos]
  have "i * k \<le> (ceil_div (length d) k - 1) * k" using i by (intro mult_le_mono1) simp
  then have ik: "i * k < length d" using cd by linarith
  have off: "int64 (int i * int k) = int (i * k)" using ik k(2) by (subst int64_small) (simp_all flip: of_nat_mult)
  have "Piece_Hash info (int i) = Some (piece_hashes k d ! i)"
    using i n k(4) concat_hashes_nth [OF piece_hashes_20, of i k d] by (simp add: Piece_Hash_def piece_hashes_def)
  then have h: "Piece_Hash info (int i) = Some (sha1 (take k (drop (i * k) d)))" using i by (simp add: piece_hashes_def)
  have d: "int (length d) - int (i * k) = int (length d - i * k)"
    by (rule of_nat_diff [symmetric]) (use ik in simp)
  have e: "int64 (int (length d - i * k)) = int (length d - i * k)" using k(2) by (intro int64_small) simp_all
  have "Piece_Length info (int i) = (if Suc i = ceil_div (length d) k then int64 (int (length d) - int64 (int i * int k)) else int k)"
    using i n k by (auto simp: Piece_Length_def)
  then have "Piece_Length info (int i) = (if Suc i = ceil_div (length d) k then int (length d - i * k) else int k)"
    unfolding off d e .
  moreover define len where "len = (if Suc i = ceil_div (length d) k then length d - i * k else k)"
  ultimately have l: "Piece_Length info (int i) = int len" by simp
  have "length d - i * k \<le> k" if "Suc i = ceil_div (length d) k" using cd that [symmetric] by (simp add: le_diff_conv)
  then have len: "0 < len" "len \<le> k" "take k (drop (i * k) d) = take len (drop (i * k) d)"
    using ik k(1) by (auto simp: len_def)
  have "Piece_Offset info (int i) = int (i * k)" using off k(3) by (simp add: Piece_Offset_def)
  then show "Piece_Hash info (int i)
        = Some (sha1 (take (nat (Piece_Length info (int i))) (drop (nat (Piece_Offset info (int i))) d)))"
    unfolding h l len(3) by (metis nat_int)
  show "0 < Piece_Length info (int i)" "Piece_Length info (int i) \<le> int k" using l len by simp_all
qed

text \<open>
  C22. Hashing data into pieces ends for every positive piece length, and for no other one.  The info dictionary
  with the hashes passes the client's validation, and the hash it gives for a piece is that of the bytes of the data at
  the piece's offset, of the piece's length; the last piece is what remains of the data.
\<close>

theorem GeneratePieces_valid:
  assumes "int (length d) + plen < 2 ^ 63" "iPieceLength info = plen" "iFiles info = []" "iLength info = int (length d)"
  shows "case GeneratePieces d plen [] of
      None \<Rightarrow> plen \<le> 0
    | Some ps \<Rightarrow>
        let info = info\<lparr>iPieces := ps\<rparr> in
        0 < plen \<and> validateInfo info = None \<and>
        (\<forall>i < info_NumPieces info.
           Piece_Hash info (int i) = Some (sha1 (take (nat (Piece_Length info (int i))) (drop (nat (Piece_Offset info (int i))) d)))
           \<and> 0 < Piece_Length info (int i) \<and> Piece_Length info (int i) \<le> plen)"
proof (cases "0 < plen")
  case False
  then show ?thesis using GeneratePieces_diverges by simp
next
  case True
  define k where "k = nat plen"
  have k: "0 < k" "plen = int k" using True by (simp_all add: k_def)
  let ?info = "info\<lparr>iPieces := concat (piece_hashes k d)\<rparr>"
  have g: "generated k d ?info" using assms k by (simp add: generated_def)
  have "GeneratePieces d plen [] = Some (concat (piece_hashes k d))" using GeneratePieces_eq [OF k(1)] k(2) by simp
  then show ?thesis using generated_valid [OF g] generated_piece [OF g] k by (simp add: Let_def)
qed

theorem GeneratePieces_valid_witness:
  "\<exists>ps. GeneratePieces [1, 2, 3, 4, 5] 2 [] = Some ps \<and> length ps = 60 \<and>
    validateInfo \<lparr>iPieceLength = 2, iPieces = ps, iName = [], iNameUtf8 = [], iLength = 5, iPrivate = None, iSource = [], iFiles = []\<rparr> = None"
proof -
  have g: "GeneratePieces [1, 2, 3, 4, 5] 2 [] = Some (concat (piece_hashes 2 [1, 2, 3, 4, 5]))"
    using GeneratePieces_eq [of 2 "[1, 2, 3, 4, 5]" "[]"] by simp
  moreover have "length (concat (piece_hashes 2 [1, 2, 3, 4, 5])) = 60"
    using length_concat_hashes [OF piece_hashes_20, of 2 "[1, 2, 3, 4, 5]"] by (simp add: piece_hashes_def ceil_div_def)
  ultimately show ?thesis
    using GeneratePieces_valid [of "[1, 2, 3, 4, 5]" 2 "\<lparr>iPieceLength = 2, iPieces = [], iName = [], iNameUtf8 = [],
      iLength = 5, iPrivate = None, iSource = [], iFiles = []\<rparr>"] by (simp add: Let_def)
qed

section \<open>The chosen piece length\<close>

text \<open>The number of doublings a total length needs.\<close>

lemma choose_loop_spec:
  assumes "0 \<le> n" "n * l < 2 ^ 63" "0 < l"
  shows "\<exists>j. choose_loop l n = l * 2 ^ j \<and> n div 2 ^ j < 2048 \<and> (0 < j \<longrightarrow> 1024 \<le> n div 2 ^ j)"
  using assms
proof (induction l n rule: choose_loop.induct)
  case (1 l n)
  show ?case
  proof (cases "2048 \<le> n")
    case False
    then show ?thesis by (intro exI [of _ 0]) (simp add: choose_loop.simps [of l n])
  next
    case True
    have "l * 2 \<le> n * l" using True 1(4) by (simp add: mult.commute)
    then have "l * 2 < 2 ^ 63" using 1(3) by (rule order.strict_trans1)
    then have l: "int64 (l * 2) = l * 2" using 1(4) by (intro int64_small) simp_all
    have "n div 2 * 2 * l \<le> n * l" using 1(4) by (intro mult_right_mono) simp_all
    moreover have "n div 2 * 2 * l = n div 2 * (l * 2)" by simp
    ultimately have "n div 2 * (l * 2) < 2 ^ 63" using 1(3) order.strict_trans1 by metis
    then obtain j where j: "choose_loop (l * 2) (n div 2) = l * 2 * 2 ^ j" "n div 2 div 2 ^ j < 2048"
        "0 < j \<longrightarrow> 1024 \<le> n div 2 div 2 ^ j"
      using 1(1) [OF True] 1(2,4) unfolding l by auto
    have "n div 2 ^ Suc j = n div 2 div 2 ^ j" by (simp add: zdiv_zmult2_eq)
    moreover have "1024 \<le> n div 2 div 2 ^ j" using j(3) True by (cases "j = 0") auto
    ultimately show ?thesis using j(1,2) l True by (intro exI [of _ "Suc j"]) (simp add: choose_loop.simps [of l n])
  qed
qed

lemma ChoosePieceLength_spec:
  assumes "0 \<le> n" "n < 2 ^ 63"
  shows "\<exists>j. ChoosePieceLength n = 2 ^ (14 + j) \<and> n div 2 ^ (14 + j) < 2048 \<and> (0 < j \<longrightarrow> 1024 \<le> n div 2 ^ (14 + j))"
proof -
  have e: "n sdiv 2 ^ 14 = n div 2 ^ 14" using assms(1) by (simp add: signed_divide_int_def sgn_if)
  have "n div 2 ^ 14 * 2 ^ 14 < 2 ^ 63" using assms by (smt (verit) div_mult_mod_eq pos_mod_sign zero_less_power)
  then obtain j where "choose_loop (2 ^ 14) (n div 2 ^ 14) = 2 ^ 14 * 2 ^ j" "n div 2 ^ 14 div 2 ^ j < 2048"
      "0 < j \<longrightarrow> 1024 \<le> n div 2 ^ 14 div 2 ^ j"
    using choose_loop_spec [of "n div 2 ^ 14" "2 ^ 14"] assms(1) pos_imp_zdiv_nonneg_iff [of "2 ^ 14" n] by auto
  moreover have "n div 2 ^ (14 + j) = n div 2 ^ 14 div 2 ^ j" by (simp add: power_add zdiv_zmult2_eq)
  ultimately show ?thesis by (intro exI [of _ j]) (simp only: ChoosePieceLength_def e power_add)
qed

end
