(* ===== verification/Metadata.thy ===== *)
theory Metadata
  imports Pieces Metainfo Bencode_Roundtrip
begin

text \<open>
  The exchange of the info dictionary between peers (\<^verbatim>\<open>torrent.go\<close>, \<^verbatim>\<open>peerconn.go\<close>, \<^verbatim>\<open>Client.gotMetadataExtensionMsg\<close> of
  \<^verbatim>\<open>client.go\<close>, \<^verbatim>\<open>peer_protocol/extended.go\<close>, \<^verbatim>\<open>peer_protocol/metadata.go\<close>): extended handshakes, requests for and pieces of the
  metadata, and what happens once it is complete.  Peer exchange is taken to be disabled by the
  configuration.  \<open>None\<close> is a panic; errors the code returns are values.
\<close>

section \<open>Messages\<close>

definition field :: "string \<Rightarrow> string \<Rightarrow> gtype \<Rightarrow> field_info \<times> gtype" where
  "field name tag ty = (\<lparr>fname = str_bytes name, fanon = False, fexported = True, ftag = str_bytes tag\<rparr>, ty)"

text \<open>
  None of the types below has methods of its own for decoding, and nothing that is encoded here has
  fields that may be omitted.
\<close>

definition plain_methods :: "unit methods" where
  "plain_methods = \<lparr>UnmarshalBencode = (\<lambda>_ _. None), MarshalBencode = (\<lambda>_ _. None), zeroCustom = (\<lambda>_. ()),
     isEmptyValue = (\<lambda>_. False)\<rparr>"

definition decode_as :: "gtype \<Rightarrow> bytes \<Rightarrow> (berror option \<times> unit gval) option" where
  "decode_as ty b = Unmarshal plain_methods b ty (zero plain_methods ty)"

record metadata_msg =
  mdPiece :: int
  mdTotalSize :: int
  mdType :: int

abbreviation (input) RequestMetadataExtensionMsgType :: int where "RequestMetadataExtensionMsgType \<equiv> 0"
abbreviation (input) DataMetadataExtensionMsgType :: int where "DataMetadataExtensionMsgType \<equiv> 1"
abbreviation (input) RejectMetadataExtensionMsgType :: int where "RejectMetadataExtensionMsgType \<equiv> 2"

definition metadata_msg_type :: gtype where
  "metadata_msg_type =
     TStruct [field ''Piece'' ''piece'' (TInt 64), field ''TotalSize'' ''total_size'' (TInt 64), field ''Type'' ''msg_type'' (TInt 64)]"

fun metadata_msg_of :: "unit gval \<Rightarrow> metadata_msg" where
  "metadata_msg_of (GStruct [GInt piece, GInt size', GInt type']) = \<lparr>mdPiece = piece, mdTotalSize = size', mdType = type'\<rparr>"
| "metadata_msg_of v = \<lparr>mdPiece = 0, mdTotalSize = 0, mdType = 0\<rparr>"

definition metadata_msg_val :: "metadata_msg \<Rightarrow> unit gval" where
  "metadata_msg_val d = GStruct [GInt (mdPiece d), GInt (mdTotalSize d), GInt (mdType d)]"

definition encode_metadata_msg :: "metadata_msg \<Rightarrow> bytes option" where
  "encode_metadata_msg d =
     (case Marshal plain_methods metadata_msg_type (metadata_msg_val d) of Some (Inr b) \<Rightarrow> Some b | _ \<Rightarrow> None)"

definition PieceSize :: "metadata_msg \<Rightarrow> int" where
  "PieceSize me =
     (let ret = int64 (mdTotalSize me - int64 (mdPiece me * 2 ^ 14)) in if ret > 2 ^ 14 then 2 ^ 14 else ret)"

definition MetadataExtensionRequestMsg :: "int \<Rightarrow> int \<Rightarrow> message option" where
  "MetadataExtensionRequestMsg eID piece =
     map_option (\<lambda>b. zero_message\<lparr>MType := mtExtended, ExtendedID := eID, ExtendedPayload := b\<rparr>)
       (encode_metadata_msg \<lparr>mdPiece = piece, mdTotalSize = 0, mdType = RequestMetadataExtensionMsgType\<rparr>)"

text \<open>The extended handshake, as far as it is read.\<close>

record extended_handshake =
  hM :: "(bytes \<times> int) list"
  hV :: bytes
  hReqq :: int
  hEncryption :: bool
  hMetadataSize :: int
  hPort :: int

definition handshake_type :: gtype where
  "handshake_type =
     TStruct [field ''M'' ''m'' (TMap (TInt 64)), field ''V'' ''v,omitempty'' TString, field ''Reqq'' ''reqq,omitempty'' (TInt 64),
       field ''Encryption'' ''e,omitempty'' TBool, field ''MetadataSize'' ''metadata_size,omitempty'' (TInt 64),
       field ''Port'' ''p,omitempty'' (TInt 64), field ''YourIp'' ''yourip,omitempty'' (TSlice (TUint 8)),
       field ''Ipv4'' ''ipv4,omitempty'' (TSlice (TUint 8)), field ''Ipv6'' ''ipv6,omitempty'' (TSlice (TUint 8))]"

definition val_int :: "unit gval \<Rightarrow> int" where
  "val_int v = (case v of GInt n \<Rightarrow> n | _ \<Rightarrow> 0)"

definition val_string :: "unit gval \<Rightarrow> bytes" where
  "val_string v = (case v of GString s \<Rightarrow> s | _ \<Rightarrow> [])"

definition val_fields :: "unit gval \<Rightarrow> unit gval list" where
  "val_fields v = (case v of GStruct vs \<Rightarrow> vs | _ \<Rightarrow> [])"

definition handshake_of :: "unit gval \<Rightarrow> extended_handshake" where
  "handshake_of v =
     (let vs = val_fields v in
      \<lparr>hM = (case vs ! 0 of GMap (Some kvs) \<Rightarrow> map (\<lambda>(k, x). (k, val_int x)) kvs | _ \<Rightarrow> []),
       hV = val_string (vs ! 1), hReqq = val_int (vs ! 2),
       hEncryption = (case vs ! 3 of GBool b \<Rightarrow> b | _ \<Rightarrow> False), hMetadataSize = val_int (vs ! 4), hPort = val_int (vs ! 5)\<rparr>)"

text \<open>The info dictionary as it is decoded.\<close>

definition file_info_type :: gtype where
  "file_info_type =
     TStruct [field ''Length'' ''length'' (TInt 64), field ''Path'' ''path'' (TSlice TString),
       field ''PathUtf8'' ''path.utf-8,omitempty'' (TSlice TString)]"

definition info_type :: gtype where
  "info_type =
     TStruct [field ''PieceLength'' ''piece length'' (TInt 64), field ''Pieces'' ''pieces'' (TSlice (TUint 8)),
       field ''Name'' ''name'' TString, field ''NameUtf8'' ''name.utf-8,omitempty'' TString,
       field ''Length'' ''length,omitempty'' (TInt 64), field ''Private'' ''private,omitempty'' (TPtr TBool),
       field ''Source'' ''source,omitempty'' TString, field ''Files'' ''files,omitempty'' (TSlice file_info_type)]"

definition file_info_of :: "unit gval \<Rightarrow> file_info" where
  "file_info_of v =
     (let vs = val_fields v in
      \<lparr>FLength = val_int (vs ! 0), FPath = map val_string (slice_elems (vs ! 1)), FPathUtf8 = map val_string (slice_elems (vs ! 2))\<rparr>)"

definition info_of :: "unit gval \<Rightarrow> info_dict" where
  "info_of v =
     (let vs = val_fields v in
      \<lparr>iPieceLength = val_int (vs ! 0), iPieces = val_bytes (slice_elems (vs ! 1)), iName = val_string (vs ! 2),
       iNameUtf8 = val_string (vs ! 3), iLength = val_int (vs ! 4),
       iPrivate = (case vs ! 5 of GPtr (Some (GBool b)) \<Rightarrow> Some b | _ \<Rightarrow> None), iSource = val_string (vs ! 6),
       iFiles = map file_info_of (slice_elems (vs ! 7))\<rparr>)"


section \<open>The state\<close>

record meta_state =
  mtor :: torrent_state
  infoHash :: bytes
  metadataBytes :: bytes
  metadataCompletedChunks :: "bool list option"
  metadataRequests :: "peer_id \<Rightarrow> bool list"

abbreviation (input) maxMetadataSize :: int where "maxMetadataSize \<equiv> 16 * 1024 * 1024"

definition metadataPieceCount :: "meta_state \<Rightarrow> nat" where
  "metadataPieceCount m = (length (metadataBytes m) + 2 ^ 14 - 1) div 2 ^ 14"

text \<open>The element of a slice, if the index is below its length; a negative index is a panic.\<close>

definition flag_at :: "bool list \<Rightarrow> int \<Rightarrow> bool option" where
  "flag_at xs i = (if i < int (length xs) then if i < 0 then None else Some (xs ! nat i) else Some False)"

definition haveMetadataPiece :: "meta_state \<Rightarrow> int \<Rightarrow> bool option" where
  "haveMetadataPiece m piece =
     (if haveInfo (mtor m) then Some (int64 (2 ^ 14 * piece) < int (length (metadataBytes m)))
      else case metadataCompletedChunks m of None \<Rightarrow> flag_at [] piece | Some cs \<Rightarrow> flag_at cs piece)"

definition requestedMetadataPiece :: "peer_id \<Rightarrow> int \<Rightarrow> meta_state \<Rightarrow> bool option" where
  "requestedMetadataPiece p index m = flag_at (metadataRequests m p) index"

definition peer_extension_id :: "peer_id \<Rightarrow> meta_state \<Rightarrow> int" where
  "peer_extension_id p m = (case PeerExtensionIDs (peers (mtor m) p) ''ut_metadata'' of None \<Rightarrow> 0 | Some n \<Rightarrow> n)"

definition meta_write :: "peer_id \<Rightarrow> message \<Rightarrow> meta_state \<Rightarrow> meta_state option" where
  "meta_write p msg m = map_option (\<lambda>(t, _). m\<lparr>mtor := t\<rparr>) (writeMsg p msg (mtor m))"

definition requestMetadataPiece :: "peer_id \<Rightarrow> nat \<Rightarrow> meta_state \<Rightarrow> meta_state option" where
  "requestMetadataPiece p index m =
     (let eID = peer_extension_id p m; reqs = metadataRequests m p in
      if eID = 0 then Some m
      else if index < length reqs \<and> reqs ! index then Some m
      else do {
        msg \<leftarrow> MetadataExtensionRequestMsg eID (int index);
        m \<leftarrow> meta_write p msg m;
        let reqs = reqs @ replicate (Suc index - length reqs) False;
        Some (m\<lparr>metadataRequests := (metadataRequests m)(p := reqs[index := True])\<rparr>)
      })"

fun requestMetadataPieces :: "peer_id \<Rightarrow> nat list \<Rightarrow> meta_state \<Rightarrow> meta_state option" where
  "requestMetadataPieces p [] m = Some m"
| "requestMetadataPieces p (i # is) m = do { m \<leftarrow> requestMetadataPiece p i m; requestMetadataPieces p is m }"

text \<open>The pieces still to request, in the order \<^verbatim>\<open>rand.Shuffle\<close> puts them in, \<open>shuf\<close>.\<close>

definition requestPendingMetadata :: "(nat list \<Rightarrow> nat list) \<Rightarrow> peer_id \<Rightarrow> meta_state \<Rightarrow> meta_state option" where
  "requestPendingMetadata shuf p m =
     (if haveInfo (mtor m) then Some m
      else if peer_extension_id p m = 0 then Some m
      else requestMetadataPieces p
        (shuf (filter (\<lambda>i. haveMetadataPiece m (int i) = Some False \<and> requestedMetadataPiece p (int i) m = Some False)
           [0..<metadataPieceCount m])) m)"

fun requestPendingMetadata_all :: "(nat list \<Rightarrow> nat list) \<Rightarrow> peer_id list \<Rightarrow> meta_state \<Rightarrow> meta_state option" where
  "requestPendingMetadata_all shuf [] m = Some m"
| "requestPendingMetadata_all shuf (p # ps) m = do { m \<leftarrow> requestPendingMetadata shuf p m; requestPendingMetadata_all shuf ps m }"

datatype meta_error =
    BencodeError berror | UnexpectedPiece | BadOffset | BadSize | WrongHash | BadInfo info_error | StorageError
  | UnknownMsgType | UnexpectedExtendedID

text \<open>\<^verbatim>\<open>uint32(size)\<close> keeps the low 32 bits; \<^verbatim>\<open>make\<close> panics for a negative length.\<close>

definition setMetadataSize :: "(nat list \<Rightarrow> nat list) \<Rightarrow> int \<Rightarrow> meta_state \<Rightarrow> (meta_state \<times> meta_error option) option" where
  "setMetadataSize shuf sz m =
     (if haveInfo (mtor m) then Some (m, None)
      else if sz mod 2 ^ 32 > maxMetadataSize then Some (m, Some BadSize)
      else if int (length (metadataBytes m)) = sz then Some (m, None)
      else if sz < 0 then None
      else do {
        let m = m\<lparr>metadataBytes := replicate (nat sz) 0,
                  metadataCompletedChunks := Some (replicate (nat ((sz + 2 ^ 14 - 1) div 2 ^ 14)) False)\<rparr>;
        m \<leftarrow> requestPendingMetadata_all shuf (conns (mtor m)) m;
        Some (m, None)
      })"

definition copy_at :: "nat \<Rightarrow> bytes \<Rightarrow> bytes \<Rightarrow> bytes" where
  "copy_at off data b = take off b @ take (length b - off) data @ drop (off + length data) b"

definition saveMetadataPiece :: "nat \<Rightarrow> bytes \<Rightarrow> meta_state \<Rightarrow> meta_state option" where
  "saveMetadataPiece index data m =
     (if haveInfo (mtor m) then Some m
      else case metadataCompletedChunks m of
        None \<Rightarrow> Some m
      | Some cs \<Rightarrow>
          if index \<ge> length cs then Some m
          else if 2 ^ 14 * index > length (metadataBytes m) then None
          else Some (m\<lparr>metadataBytes := copy_at (2 ^ 14 * index) data (metadataBytes m),
                       metadataCompletedChunks := Some (cs[index := True])\<rparr>))"

definition haveAllMetadataPieces :: "meta_state \<Rightarrow> bool" where
  "haveAllMetadataPieces m =
     (if haveInfo (mtor m) then True
      else case metadataCompletedChunks m of None \<Rightarrow> False | Some cs \<Rightarrow> (\<forall>have \<in> set cs. have))"

definition invalidateMetadata :: "meta_state \<Rightarrow> meta_state" where
  "invalidateMetadata m =
     m\<lparr>metadataCompletedChunks := map_option (map (\<lambda>_. False)) (metadataCompletedChunks m), mtor := (mtor m)\<lparr>info := None\<rparr>\<rparr>"

section \<open>Once the info is there\<close>

definition geom_of :: "info_dict \<Rightarrow> u32 \<Rightarrow> geom" where
  "geom_of i csize = \<lparr>PieceLength = iPieceLength i, TotalLength = info_TotalLength i, NumPieces = info_NumPieces i, chunkSize = csize\<rparr>"

text \<open>\<open>opened\<close>: whether the storage could be opened for the torrent.  The pieces are made new.\<close>

definition setInfo :: "bool \<Rightarrow> info_dict \<Rightarrow> torrent_state \<Rightarrow> (torrent_state \<times> meta_error option) option" where
  "setInfo opened i t =
     (case validateInfo i of
        Some e \<Rightarrow> Some (t, Some (BadInfo e))
      | None \<Rightarrow>
          if \<not> opened then Some (t, Some StorageError)
          else do {
            hashes \<leftarrow> infoPieceHashes i;
            Some (t\<lparr>info := Some (geom_of i (tchunkSize t)), storageOpen := True,
                    relativeAvailability := replicate (length hashes) 0\<rparr>, None)
          })"

fun onSetInfo_loop :: "(nat \<Rightarrow> completion) \<Rightarrow> nat list \<Rightarrow> torrent_state \<Rightarrow> torrent_state option" where
  "onSetInfo_loop cs [] t = Some t"
| "onSetInfo_loop cs (i # is) t =
     (if relativeAvailability t ! i \<noteq> 0 then None
      else do {
        let t = t\<lparr>relativeAvailability := (relativeAvailability t)[i := selectivePieceAvailabilityFromPeers t i]\<rparr>;
        (t, _) \<leftarrow> updatePieceCompletion (cs i) i t;
        let t = (if \<not> initialPieceCheckDisabled t \<and> i \<notin> storageCompletionOk t then queuePieceCheck i t else t);
        onSetInfo_loop cs is t
      })"

definition setNumPieces :: "peer_id \<Rightarrow> nat \<Rightarrow> torrent_state \<Rightarrow> torrent_state option" where
  "setNumPieces p num t = peerPiecesChanged p (upd_peer p (\<lambda>cn. cn\<lparr>peerPieces := peerPieces cn \<inter> {..<num}\<rparr>) t)"

fun gotInfo_peers :: "nat \<Rightarrow> peer_id list \<Rightarrow> torrent_state \<Rightarrow> torrent_state option" where
  "gotInfo_peers num [] t = Some t"
| "gotInfo_peers num (p # ps) t = do {
     t \<leftarrow> setNumPieces p num t;
     gotInfo_peers num ps (updateRequests p ''onSetInfo'' t)
   }"

text \<open>\<open>cs\<close>: what the storage says of each piece.\<close>

definition onSetInfo :: "(nat \<Rightarrow> completion) \<Rightarrow> torrent_state \<Rightarrow> torrent_state option" where
  "onSetInfo cs t = do {
     t \<leftarrow> onSetInfo_loop cs [0..<numPieces t] t;
     let t = tryCreateMorePieceHashers (t\<lparr>requestState := Map.empty\<rparr>);
     gotInfo_peers (numPieces t) (conns t) t
   }"

definition setInfoBytesLocked ::
  "bool \<Rightarrow> (nat \<Rightarrow> completion) \<Rightarrow> bytes \<Rightarrow> meta_state \<Rightarrow> (meta_state \<times> meta_error option) option" where
  "setInfoBytesLocked opened cs b m =
     (if HashBytes b \<noteq> infoHash m then Some (m, Some WrongHash)
      else do {
        (err, v) \<leftarrow> decode_as info_type b;
        (case err of
           Some e \<Rightarrow> Some (m, Some (BencodeError e))
         | None \<Rightarrow>
             let m = m\<lparr>metadataBytes := b, metadataCompletedChunks := None\<rparr> in
             if haveInfo (mtor m) then Some (m, None)
             else do {
               (t, err) \<leftarrow> setInfo opened (info_of v) (mtor m);
               (case err of
                  Some e \<Rightarrow> Some (m\<lparr>mtor := t\<rparr>, Some e)
                | None \<Rightarrow> do { t \<leftarrow> onSetInfo cs t; Some (m\<lparr>mtor := t\<rparr>, None) })
             })
      })"

definition maybeCompleteMetadata :: "bool \<Rightarrow> (nat \<Rightarrow> completion) \<Rightarrow> meta_state \<Rightarrow> (meta_state \<times> meta_error option) option" where
  "maybeCompleteMetadata opened cs m =
     (if haveInfo (mtor m) then Some (m, None)
      else if \<not> haveAllMetadataPieces m then Some (m, None)
      else do {
        (m, err) \<leftarrow> setInfoBytesLocked opened cs (metadataBytes m) m;
        Some (if err \<noteq> None then invalidateMetadata m else m, err)
      })"


section \<open>Extended messages\<close>

definition newMetadataExtensionMessage :: "peer_id \<Rightarrow> int \<Rightarrow> int \<Rightarrow> bytes \<Rightarrow> meta_state \<Rightarrow> message option" where
  "newMetadataExtensionMessage p msgType piece data m =
     map_option (\<lambda>b. zero_message\<lparr>MType := mtExtended, ExtendedID := peer_extension_id p m, ExtendedPayload := b @ data\<rparr>)
       (encode_metadata_msg \<lparr>mdPiece = piece, mdTotalSize = int (length (metadataBytes m)), mdType = msgType\<rparr>)"

text \<open>A piece of the metadata that a peer sent.\<close>

definition got_metadata_data ::
  "bool \<Rightarrow> (nat \<Rightarrow> completion) \<Rightarrow> bytes \<Rightarrow> metadata_msg \<Rightarrow> peer_id \<Rightarrow> meta_state \<Rightarrow> (meta_state \<times> meta_error option) option" where
  "got_metadata_data opened cs payload d p m = do {
     requested \<leftarrow> requestedMetadataPiece p (mdPiece d) m;
     (if \<not> requested then Some (m, Some UnexpectedPiece)
      else
        let m = m\<lparr>metadataRequests := (metadataRequests m)(p := (metadataRequests m p)[nat (mdPiece d) := False])\<rparr>;
            begin = int64 (int (length payload) - PieceSize d)
        in if begin < 0 \<or> begin \<ge> int (length payload) then Some (m, Some BadOffset)
           else do {
             m \<leftarrow> saveMetadataPiece (nat (mdPiece d)) (drop (nat begin) payload) m;
             let m = m\<lparr>mtor := upd_peer p (\<lambda>cn. cn\<lparr>lastUsefulChunkReceived := Some (now (mtor m))\<rparr>) (mtor m)\<rparr>;
             maybeCompleteMetadata opened cs m
           })
   }"

text \<open>A peer that asks for a piece of the metadata.\<close>

definition got_metadata_request :: "metadata_msg \<Rightarrow> peer_id \<Rightarrow> meta_state \<Rightarrow> (meta_state \<times> meta_error option) option" where
  "got_metadata_request d p m = do {
     have' \<leftarrow> haveMetadataPiece m (mdPiece d);
     (if \<not> have' then do {
        msg \<leftarrow> newMetadataExtensionMessage p RejectMetadataExtensionMsgType (mdPiece d) [] m;
        m \<leftarrow> meta_write p msg m;
        Some (m, None)
      }
      else do {
        let start = int64 (2 ^ 14 * mdPiece d);
        data \<leftarrow> go_slice (metadataBytes m) start (int64 (start + metadataPieceSize (int (length (metadataBytes m))) (mdPiece d)));
        msg \<leftarrow> newMetadataExtensionMessage p DataMetadataExtensionMsgType (mdPiece d) data m;
        m \<leftarrow> meta_write p msg m;
        Some (m, None)
      })
   }"

text \<open>Bytes left over, which carry the piece, are no error.\<close>

fun is_failure :: "berror option \<Rightarrow> bool" where
  "is_failure None = False"
| "is_failure (Some (EUnused n)) = False"
| "is_failure (Some e) = True"

definition gotMetadataExtensionMsg ::
  "bool \<Rightarrow> (nat \<Rightarrow> completion) \<Rightarrow> bytes \<Rightarrow> peer_id \<Rightarrow> meta_state \<Rightarrow> (meta_state \<times> meta_error option) option" where
  "gotMetadataExtensionMsg opened cs payload p m = do {
     (err, v) \<leftarrow> decode_as metadata_msg_type payload;
     let d = metadata_msg_of v;
     (if is_failure err then Some (m, map_option BencodeError err)
      else if mdType d = DataMetadataExtensionMsgType then got_metadata_data opened cs payload d p m
      else if mdType d = RequestMetadataExtensionMsgType then got_metadata_request d p m
      else if mdType d = RejectMetadataExtensionMsgType then Some (m, None)
      else Some (m, Some UnknownMsgType))
   }"

definition bytes_str :: "bytes \<Rightarrow> string" where
  "bytes_str b = map (\<lambda>w. char_of (unat w)) b"

definition note_handshake :: "extended_handshake \<Rightarrow> peer_state \<Rightarrow> peer_state" where
  "note_handshake d cn =
     (let cn = (if hReqq d \<noteq> 0 then cn\<lparr>PeerMaxRequests := hReqq d\<rparr> else cn)
      in cn\<lparr>PeerExtensionIDs := PeerExtensionIDs cn ++ map_of (rev (map (\<lambda>(k, n). (bytes_str k, n)) (hM d)))\<rparr>)"

definition on_extended_handshake ::
  "(nat list \<Rightarrow> nat list) \<Rightarrow> extended_handshake \<Rightarrow> peer_id \<Rightarrow> meta_state \<Rightarrow> (meta_state \<times> meta_error option) option" where
  "on_extended_handshake shuf d p m = do {
     let m = m\<lparr>mtor := upd_peer p (note_handshake d) (mtor m)\<rparr>;
     (m, err) \<leftarrow> (if hMetadataSize d \<noteq> 0 then setMetadataSize shuf (hMetadataSize d) m else Some (m, None));
     (if err \<noteq> None then Some (m, err)
      else do { m \<leftarrow> requestPendingMetadata shuf p m; Some (m, None) })
   }"

text \<open>Clients that are forgiven errors in extended messages.\<close>

definition forgiven :: "bytes \<Rightarrow> bool" where
  "forgiven peerID \<longleftrightarrow> take 8 peerID = str_bytes ''-SD0100-'' \<or> take 8 peerID = str_bytes ''-XL0012-''"

text \<open>With peer exchange disabled, its messages are ignored.\<close>

definition onReadExtendedMsg ::
  "(nat list \<Rightarrow> nat list) \<Rightarrow> bool \<Rightarrow> (nat \<Rightarrow> completion) \<Rightarrow> int \<Rightarrow> bytes \<Rightarrow> peer_id \<Rightarrow> meta_state \<Rightarrow>
     (meta_state \<times> meta_error option) option" where
  "onReadExtendedMsg shuf opened cs id' payload p m = do {
     (m, err) \<leftarrow>
       (if id' = 0 then do {
          (err, v) \<leftarrow> decode_as handshake_type payload;
          (case err of
             Some e \<Rightarrow> Some (m, Some (BencodeError e))
           | None \<Rightarrow> on_extended_handshake shuf (handshake_of v) p m)
        }
        else if id' = 1 then gotMetadataExtensionMsg opened cs payload p m
        else if id' = 2 then Some (m, None)
        else Some (m, Some UnexpectedExtendedID));
     Some (m, if forgiven (PeerID (peers (mtor m) p)) then None else err)
   }"


section \<open>The info is only ever the one that was asked for\<close>

definition same_info :: "torrent_state \<Rightarrow> torrent_state \<Rightarrow> bool" where
  "same_info t t' \<longleftrightarrow> info t' = info t \<and> tchunkSize t' = tchunkSize t"

lemma same_info_refl [simp]: "same_info t t"
  by (simp add: same_info_def)

lemma same_info_trans [trans]: "same_info t t' \<Longrightarrow> same_info t' t'' \<Longrightarrow> same_info t t''"
  by (simp add: same_info_def)

lemma same_info_frame: "peer_frame t t' \<Longrightarrow> same_info t t'"
  by (simp add: same_info_def peer_frame_fields)

lemma same_info_cancelRequestList: "cancelRequestList rs t = Some t' \<Longrightarrow> same_info t t'"
proof (induction rs arbitrary: t)
  case (Cons r rs)
  then obtain t1 q where t1: "cancelRequest r t = Some (t1, q)" "cancelRequestList rs t1 = Some t'"
    by (auto simp: bind_eq_Some_conv)
  have "env_frame t t1"
    using t1(1) only_peer_cancel by (auto simp: cancelRequest_def Let_def bind_eq_Some_conv only_peer_def split: if_splits option.splits)
  then show ?case using Cons.IH [OF t1(2)] same_info_trans same_info_frame peer_frame_env by blast
qed simp

lemma same_info_writeMsg: "writeMsg p msg t = Some (t', ok) \<Longrightarrow> same_info t t'"
  by (auto simp: writeMsg_def bind_eq_Some_conv Let_def same_info_def upd_peer_def)

lemma same_info_announce: "announce_piece i ps t = Some t' \<Longrightarrow> same_info t t'"
proof (induction ps arbitrary: t)
  case (Cons p ps)
  then obtain t1 t2 where t: "sendHave p i t = Some t1" "maybeDropMutuallyCompletePeer p t1 = Some t2" "announce_piece i ps t2 = Some t'"
    by (auto simp: bind_eq_Some_conv)
  have "same_info t t1"
    using t(1) by (auto simp: sendHave_def bind_eq_Some_conv upd_peer_def same_info_def dest!: same_info_writeMsg split: if_splits)
  then show ?case using same_info_trans same_info_frame [OF peer_frame_maybeDrop [OF t(2)]] Cons.IH [OF t(3)] by blast
qed simp

lemma same_info_updatePiecePriority: "same_info t (updatePiecePriority i reason t)"
  using same_info_frame [OF updatePiecePriority_frame(2) [of t i reason]] by (simp add: same_info_def)

lemma same_info_onIncomplete: "same_info t (onIncompletePiece i t)"
proof -
  let ?t = "if pieceAllDirty t i then pendAllChunkSpecs i t else t"
  have "peer_frame ?t (onIncompletePiece i t)"
    by (auto simp: onIncompletePiece_def Let_def intro: peer_frame_iterPeers same_swarm_wakes)
  moreover have "same_info t ?t" by (simp add: same_info_def pendAllChunkSpecs_def)
  ultimately show ?thesis using same_info_trans same_info_frame by blast
qed

lemma same_info_updatePieceCompletion:
  assumes "updatePieceCompletion c i t = Some (t', ch)"
  shows "same_info t t'"
proof -
  define t1 where "t1 = t\<lparr>storageCompletionOk := (if snd (pieceCompleteUncached c t) then insert i (storageCompletionOk t) else storageCompletionOk t - {i}),
    completedPieces := (if fst (pieceCompleteUncached c t) then insert i (completedPieces t) else completedPieces t - {i})\<rparr>"
  have 1: "same_info t t1" by (simp add: t1_def same_info_def)
  have "t' = t1 \<or> pieceCompletionChanged i ''Torrent.updatePieceCompletion'' t1 = Some t'"
    using assms by (auto simp: updatePieceCompletion_def Let_def t1_def bind_eq_Some_conv split: if_splits)
  moreover have "same_info t1 t'" if c: "pieceCompletionChanged i ''Torrent.updatePieceCompletion'' t1 = Some t'"
  proof -
    obtain t2 where t2: "(if pieceComplete t1 i then onPieceCompleted i t1 else Some (onIncompletePiece i t1)) = Some t2"
      "t' = updatePiecePriority i ''Torrent.updatePieceCompletion'' t2"
      using c by (auto simp: pieceCompletionChanged_def bind_eq_Some_conv)
    have "same_info t1 t2"
    proof (cases "pieceComplete t1 i")
      case True
      then obtain t3 where t3: "cancelRequestsForPiece i (pendAllChunkSpecs i t1) = Some t3" "announce_piece i (conns t3) t3 = Some t2"
        using t2(1) by (auto simp: onPieceCompleted_def bind_eq_Some_conv Let_def)
      have "same_info (pendAllChunkSpecs i t1) t3"
        using t3(1) same_info_cancelRequestList by (auto simp: cancelRequestsForPiece_def Let_def split: option.splits)
      moreover have "same_info t1 (pendAllChunkSpecs i t1)" by (simp add: same_info_def pendAllChunkSpecs_def)
      ultimately show ?thesis using same_info_announce [OF t3(2)] same_info_trans by blast
    next
      case False
      then show ?thesis using t2(1) same_info_onIncomplete by auto
    qed
    then show ?thesis using same_info_trans same_info_updatePiecePriority t2(2) by blast
  qed
  ultimately show ?thesis using 1 same_info_trans by blast
qed

lemma same_info_tryCreateMore: "same_info t (tryCreateMorePieceHashers t)"
proof (induction t rule: tryCreateMorePieceHashers.induct)
  case (1 t)
  have "same_info t t'" if "tryCreatePieceHasher t = Some t'" for t'
    using that same_info_updatePiecePriority
    by (auto simp: tryCreatePieceHasher_def Let_def same_info_def split: if_splits option.splits)
  then show ?case using 1 same_info_trans by (subst tryCreateMorePieceHashers.simps) (auto split: option.splits)
qed

lemma same_info_queuePieceCheck: "same_info t (queuePieceCheck i t)"
proof -
  let ?t = "t\<lparr>piecesQueuedForHash := insert i (piecesQueuedForHash t)\<rparr>"
  have "same_info t ?t" by (simp add: same_info_def)
  also have "same_info ?t (updatePiecePriority i ''Torrent.queuePieceCheck'' ?t)" by (rule same_info_updatePiecePriority)
  also note same_info_tryCreateMore
  finally show ?thesis by (simp add: queuePieceCheck_def Let_def)
qed

lemma same_info_onSetInfo_loop: "onSetInfo_loop cs is t = Some t' \<Longrightarrow> same_info t t'"
proof (induction "is" arbitrary: t)
  case (Cons i "is")
  let ?t = "t\<lparr>relativeAvailability := (relativeAvailability t)[i := selectivePieceAvailabilityFromPeers t i]\<rparr>"
  obtain t1 ch where t1: "updatePieceCompletion (cs i) i ?t = Some (t1, ch)"
    and rest: "onSetInfo_loop cs is (if \<not> initialPieceCheckDisabled t1 \<and> i \<notin> storageCompletionOk t1 then queuePieceCheck i t1 else t1) = Some t'"
    using Cons.prems by (auto simp: bind_eq_Some_conv Let_def split: if_splits)
  have "same_info t ?t" by (simp add: same_info_def)
  also note same_info_updatePieceCompletion [OF t1]
  also have "same_info t1 (if \<not> initialPieceCheckDisabled t1 \<and> i \<notin> storageCompletionOk t1 then queuePieceCheck i t1 else t1)"
    by (simp add: same_info_queuePieceCheck)
  also note Cons.IH [OF rest]
  finally show ?case .
qed simp

lemma same_info_gotInfo: "gotInfo_peers num ps t = Some t' \<Longrightarrow> same_info t t'"
proof (induction ps arbitrary: t)
  case (Cons p ps)
  then obtain t1 where t1: "setNumPieces p num t = Some t1" "gotInfo_peers num ps (updateRequests p ''onSetInfo'' t1) = Some t'"
    by (auto simp: bind_eq_Some_conv)
  have "same_info t (upd_peer p (\<lambda>cn. cn\<lparr>peerPieces := peerPieces cn \<inter> {..<num}\<rparr>) t)"
    by (simp add: same_info_def upd_peer_def)
  also have "same_info \<dots> t1"
    using t1(1) by (intro same_info_frame peer_frame_maybeDrop) (simp add: setNumPieces_def peerPiecesChanged_def)
  also note same_info_frame [OF peer_frame_updateRequests]
  also note Cons.IH [OF t1(2)]
  finally show ?case .
qed simp

lemma same_info_onSetInfo:
  assumes "onSetInfo cs t = Some t'"
  shows "same_info t t'"
proof -
  obtain t1 where t1: "onSetInfo_loop cs [0..<numPieces t] t = Some t1"
    "gotInfo_peers (numPieces (tryCreateMorePieceHashers (t1\<lparr>requestState := Map.empty\<rparr>)))
       (conns (tryCreateMorePieceHashers (t1\<lparr>requestState := Map.empty\<rparr>))) (tryCreateMorePieceHashers (t1\<lparr>requestState := Map.empty\<rparr>)) = Some t'"
    using assms by (auto simp: onSetInfo_def bind_eq_Some_conv Let_def)
  note same_info_onSetInfo_loop [OF t1(1)]
  also have "same_info t1 (t1\<lparr>requestState := Map.empty\<rparr>)" by (simp add: same_info_def)
  also note same_info_tryCreateMore
  also note same_info_gotInfo [OF t1(2)]
  finally show ?thesis .
qed


definition meta_keeps :: "meta_state \<Rightarrow> meta_state \<Rightarrow> bool" where
  "meta_keeps m m' \<longleftrightarrow> same_info (mtor m) (mtor m') \<and> infoHash m' = infoHash m"

lemma meta_keeps_refl [simp]: "meta_keeps m m"
  by (simp add: meta_keeps_def)

lemma meta_keeps_trans [trans]: "meta_keeps m m' \<Longrightarrow> meta_keeps m' m'' \<Longrightarrow> meta_keeps m m''"
  unfolding meta_keeps_def using same_info_trans by metis

lemma meta_keeps_write: "meta_write p msg m = Some m' \<Longrightarrow> meta_keeps m m'"
  by (auto simp: meta_write_def meta_keeps_def dest: same_info_writeMsg)

lemma meta_keeps_request: "requestMetadataPiece p i m = Some m' \<Longrightarrow> meta_keeps m m'"
  by (auto simp: requestMetadataPiece_def Let_def bind_eq_Some_conv meta_keeps_def dest!: meta_keeps_write split: if_splits)

lemma meta_keeps_requests: "requestMetadataPieces p is m = Some m' \<Longrightarrow> meta_keeps m m'"
proof (induction "is" arbitrary: m)
  case (Cons i "is")
  then show ?case using meta_keeps_trans meta_keeps_request by (fastforce simp: bind_eq_Some_conv)
qed simp

lemma meta_keeps_pending: "requestPendingMetadata shuf p m = Some m' \<Longrightarrow> meta_keeps m m'"
  using meta_keeps_requests by (auto simp: requestPendingMetadata_def split: if_splits)

lemma meta_keeps_pending_all: "requestPendingMetadata_all shuf ps m = Some m' \<Longrightarrow> meta_keeps m m'"
proof (induction ps arbitrary: m)
  case (Cons p ps)
  then show ?case using meta_keeps_trans meta_keeps_pending by (fastforce simp: bind_eq_Some_conv)
qed simp

lemma meta_keeps_size: "setMetadataSize shuf sz m = Some (m', err) \<Longrightarrow> meta_keeps m m'"
  by (auto simp: setMetadataSize_def Let_def bind_eq_Some_conv meta_keeps_def split: if_splits dest!: meta_keeps_pending_all)

lemma meta_keeps_handshake:
  assumes "on_extended_handshake shuf d p m = Some (m', err)"
  shows "meta_keeps m m'"
proof -
  let ?m = "m\<lparr>mtor := upd_peer p (note_handshake d) (mtor m)\<rparr>"
  obtain m1 e where m1: "(if hMetadataSize d \<noteq> 0 then setMetadataSize shuf (hMetadataSize d) ?m else Some (?m, None)) = Some (m1, e)"
    and m': "m' = m1 \<or> requestPendingMetadata shuf p m1 = Some m'"
    using assms by (auto simp: on_extended_handshake_def bind_eq_Some_conv Let_def split: if_splits)
  have "meta_keeps m ?m" by (simp add: meta_keeps_def same_info_def upd_peer_def)
  also have "meta_keeps ?m m1" using m1 meta_keeps_size by (auto split: if_splits)
  also have "meta_keeps m1 m'" using m' meta_keeps_pending by auto
  finally show ?thesis .
qed

lemma meta_keeps_got_request: "got_metadata_request d p m = Some (m', err) \<Longrightarrow> meta_keeps m m'"
  by (auto simp: got_metadata_request_def bind_eq_Some_conv Let_def split: if_splits dest: meta_keeps_write)

lemma meta_keeps_save: "saveMetadataPiece i b m = Some m' \<Longrightarrow> meta_keeps m m'"
  by (auto simp: saveMetadataPiece_def meta_keeps_def split: if_splits option.splits)

text \<open>The metadata is the one with the info hash, and the info is what it says.\<close>

definition verified_info :: "meta_state \<Rightarrow> bool" where
  "verified_info m \<longleftrightarrow> HashBytes (metadataBytes m) = infoHash m \<and>
     (\<exists>v. decode_as info_type (metadataBytes m) = Some (None, v) \<and> validateInfo (info_of v) = None \<and>
        info (mtor m) = Some (geom_of (info_of v) (tchunkSize (mtor m))))"

lemma setInfo_info:
  assumes "setInfo opened i t = Some (t', err)"
  shows "(err = None \<longrightarrow> validateInfo i = None \<and> info t' = Some (geom_of i (tchunkSize t'))) \<and> (err \<noteq> None \<longrightarrow> t' = t)"
  using assms by (auto simp: setInfo_def bind_eq_Some_conv split: option.splits if_splits)

lemma setInfoBytes_verified:
  assumes "setInfoBytesLocked opened cs b m = Some (m', err)" "\<not> haveInfo (mtor m)" "haveInfo (mtor m')"
  shows "verified_info m' \<and> infoHash m' = infoHash m"
proof -
  let ?m = "m\<lparr>metadataBytes := b, metadataCompletedChunks := None\<rparr>"
  have h: "HashBytes b = infoHash m" using assms by (auto simp: setInfoBytesLocked_def split: if_splits)
  obtain e0 v where ev: "decode_as info_type b = Some (e0, v)"
    using assms(1) h by (auto simp: setInfoBytesLocked_def bind_eq_Some_conv)
  have "e0 = None" using assms ev h by (cases e0) (auto simp: setInfoBytesLocked_def)
  with ev have v: "decode_as info_type b = Some (None, v)" by simp
  obtain t e where t: "setInfo opened (info_of v) (mtor m) = Some (t, e)"
    and m': "case e of Some e' \<Rightarrow> m' = ?m\<lparr>mtor := t\<rparr> | None \<Rightarrow> (\<exists>t'. onSetInfo cs t = Some t' \<and> m' = ?m\<lparr>mtor := t'\<rparr>)"
    using assms h v by (auto simp: setInfoBytesLocked_def bind_eq_Some_conv Let_def split: option.splits)
  note i = setInfo_info [OF t]
  show ?thesis
  proof (cases e)
    case None
    then obtain t' where t': "onSetInfo cs t = Some t'" "m' = ?m\<lparr>mtor := t'\<rparr>" using m' by auto
    have "same_info t t'" by (rule same_info_onSetInfo [OF t'(1)])
    then show ?thesis using i None v h t'(2) by (auto simp: verified_info_def same_info_def)
  next
    case (Some e')
    then show ?thesis using i m' assms(2,3) by (auto simp: haveInfo_def)
  qed
qed

lemma maybeComplete_verified:
  assumes "maybeCompleteMetadata opened cs m = Some (m', err)" "\<not> haveInfo (mtor m)" "haveInfo (mtor m')"
  shows "verified_info m' \<and> infoHash m' = infoHash m"
proof -
  have "m' \<noteq> m" using assms(2,3) by auto
  then obtain m1 where m1: "setInfoBytesLocked opened cs (metadataBytes m) m = Some (m1, err)"
    "m' = (if err \<noteq> None then invalidateMetadata m1 else m1)"
    using assms(1,2) by (auto simp: maybeCompleteMetadata_def bind_eq_Some_conv split: if_splits)
  moreover have "err = None" using m1(2) assms(3) by (auto simp: invalidateMetadata_def haveInfo_def split: if_splits)
  ultimately show ?thesis using setInfoBytes_verified assms(2,3) by auto
qed

lemma meta_keeps_haveInfo: "meta_keeps m m' \<Longrightarrow> haveInfo (mtor m') = haveInfo (mtor m)"
  by (simp add: meta_keeps_def same_info_def haveInfo_def)

lemma got_data_verified:
  assumes "got_metadata_data opened cs payload d p m = Some (m', err)" "\<not> haveInfo (mtor m)" "haveInfo (mtor m')"
  shows "verified_info m' \<and> infoHash m' = infoHash m"
proof -
  let ?m = "m\<lparr>metadataRequests := (metadataRequests m)(p := (metadataRequests m p)[nat (mdPiece d) := False])\<rparr>"
  obtain m1 where m1: "saveMetadataPiece (nat (mdPiece d)) (drop (nat (int64 (int (length payload) - PieceSize d))) payload) ?m = Some m1"
    and m': "maybeCompleteMetadata opened cs
      (m1\<lparr>mtor := upd_peer p (\<lambda>cn. cn\<lparr>lastUsefulChunkReceived := Some (now (mtor m1))\<rparr>) (mtor m1)\<rparr>) = Some (m', err)"
    using assms by (auto simp: got_metadata_data_def bind_eq_Some_conv Let_def split: if_splits)
  have "meta_keeps ?m m1" by (rule meta_keeps_save [OF m1])
  then have k: "\<not> haveInfo (mtor m1)" "infoHash m1 = infoHash m"
    using meta_keeps_haveInfo assms(2) by (auto simp: meta_keeps_def)
  show ?thesis using maybeComplete_verified [OF m' _ assms(3)] k by (simp add: haveInfo_def upd_peer_def)
qed

text \<open>
  C1. A torrent added by its info hash only ever gets the info dictionary with that hash.  Whatever extended
  messages peers send (handshakes, pieces of metadata, requests, garbage), if the torrent had no info before a message
  and has it afterwards, then the metadata it holds hashes to the torrent's info hash and decodes to an
  info dictionary that passes validation, whose geometry is the torrent's.
\<close>

theorem info_has_info_hash:
  assumes "onReadExtendedMsg shuf opened cs id' payload p m = Some (m', err)" "\<not> haveInfo (mtor m)" "haveInfo (mtor m')"
  shows "HashBytes (metadataBytes m') = infoHash m \<and>
    (\<exists>v. decode_as info_type (metadataBytes m') = Some (None, v) \<and> validateInfo (info_of v) = None \<and>
       info (mtor m') = Some (geom_of (info_of v) (tchunkSize (mtor m'))))"
proof -
  have no: "\<not> meta_keeps m m'" using meta_keeps_haveInfo assms(2,3) by blast
  then have "id' = 1" using assms(1) meta_keeps_handshake
    by (auto simp: onReadExtendedMsg_def bind_eq_Some_conv split: if_splits option.splits)
  then obtain e where "gotMetadataExtensionMsg opened cs payload p m = Some (m', e)"
    using assms(1) by (auto simp: onReadExtendedMsg_def bind_eq_Some_conv)
  then obtain d where "got_metadata_data opened cs payload d p m = Some (m', e)"
    using no meta_keeps_got_request by (auto simp: gotMetadataExtensionMsg_def bind_eq_Some_conv Let_def split: if_splits)
  from got_data_verified [OF this assms(2,3)] show ?thesis by (auto simp: verified_info_def)
qed


section \<open>A piece of metadata on its way\<close>

abbreviation (input) int_range :: "int \<Rightarrow> bool" where
  "int_range n \<equiv> - (2 ^ 63) \<le> n \<and> n < 2 ^ 63"

lemma metadata_msg_plain:
  assumes "int_range (mdPiece d)" "int_range (mdTotalSize d)" "int_range (mdType d)"
  shows "plain plain_methods 134217727 metadata_msg_type (metadata_msg_val d)"
proof -
  have o: "\<not> omitted plain_methods f x" for f x by (simp add: omitted_def plain_methods_def)
  have i: "plain plain_methods 134217727 (TInt 64) (GInt n)" if "int_range n" for n
    by (rule plain.int) (use that in \<open>simp_all add: OverflowInt_def\<close>)
  show ?thesis
    unfolding metadata_msg_type_def metadata_msg_val_def field_def
    by (rule plain.struct)
      (use i assms in \<open>auto simp: o plain_field_def field_key_def parseTag_def tag_Ignore_def tag_Key_def str_bytes_def less_Suc_eq Let_def\<close>)
qed

lemma metadata_msg_of_val [simp]: "metadata_msg_of (metadata_msg_val d) = d"
  by (simp add: metadata_msg_val_def)

lemma metadata_msg_read:
  assumes "int_range (mdPiece d)" "int_range (mdTotalSize d)" "int_range (mdType d)"
  obtains b where "encode_metadata_msg d = Some b"
    and "\<And>rest. \<exists>err. decode_as metadata_msg_type (b @ rest) = Some (err, metadata_msg_val d) \<and> \<not> is_failure err"
proof -
  obtain b where b: "Marshal plain_methods metadata_msg_type (metadata_msg_val d) = Some (Inr b)"
    "Unmarshal plain_methods b metadata_msg_type (zero plain_methods metadata_msg_type) = Some (None, metadata_msg_val d)"
    "\<And>rest. rest \<noteq> [] \<Longrightarrow>
       Unmarshal plain_methods (b @ rest) metadata_msg_type (zero plain_methods metadata_msg_type) = Some (Some (EUnused (length rest)), metadata_msg_val d)"
    using plain_roundtrip [OF metadata_msg_plain [OF assms]] by metis
  have "\<exists>err. decode_as metadata_msg_type (b @ rest) = Some (err, metadata_msg_val d) \<and> \<not> is_failure err" for rest
    using b(2,3) by (cases "rest = []") (simp_all add: decode_as_def)
  then show thesis using that b(1) by (simp add: encode_metadata_msg_def)
qed

lemma got_message:
  assumes "decode_as metadata_msg_type payload = Some (err, metadata_msg_val d)" "\<not> is_failure err"
  shows "mdType d = 1 \<Longrightarrow> gotMetadataExtensionMsg opened cs payload p m = got_metadata_data opened cs payload d p m"
    and "mdType d = 0 \<Longrightarrow> gotMetadataExtensionMsg opened cs payload p m = got_metadata_request d p m"
  using assms by (simp_all add: gotMetadataExtensionMsg_def)

text \<open>The smallest torrent: its metadata is an empty dictionary.\<close>

definition sample_meta :: meta_state where
  "sample_meta = \<lparr>mtor = sample_torrent\<lparr>info := None, conns := [], piecesQueuedForHash := {}\<rparr>, infoHash = HashBytes [ch_d, ch_e],
     metadataBytes = [0, 0], metadataCompletedChunks = Some [False], metadataRequests = (\<lambda>_. [True])\<rparr>"

lemma sample_info:
  obtains v where "decode_as info_type [ch_d, ch_e] = Some (None, v)" "validateInfo (info_of v) = None" "info_NumPieces (info_of v) = 0"
    "infoPieceHashes (info_of v) = Some []"
proof
  let ?v = "zero plain_methods info_type"
  show "decode_as info_type [ch_d, ch_e] = Some (None, ?v)"
    unfolding decode_as_def by (rule empty_dict_decodes) (simp_all add: info_type_def unmarshaler_of_def)
  show "validateInfo (info_of ?v) = None" "info_NumPieces (info_of ?v) = 0" "infoPieceHashes (info_of ?v) = Some []"
    by (simp_all add: info_of_def info_type_def field_def val_fields_def val_int_def val_string_def val_bytes_def slice_elems_def
        validateInfo_def info_TotalLength_def IsDir_def info_NumPieces_def infoPieceHashes_def)
qed

lemma sample_onSetInfo:
  assumes "numPieces t = 0" "conns t = []" "piecesQueuedForHash t = {}"
  shows "onSetInfo cs t = Some (t\<lparr>requestState := Map.empty\<rparr>)"
proof -
  have "tryCreateMorePieceHashers (t\<lparr>requestState := Map.empty\<rparr>) = t\<lparr>requestState := Map.empty\<rparr>"
    using assms(3) by (subst tryCreateMorePieceHashers.simps) (simp add: tryCreatePieceHasher_def getPieceToHash_def bitmap_iter_def)
  then show ?thesis using assms(1,2) by (simp add: onSetInfo_def)
qed

lemma sample_setInfoBytes:
  assumes "infoHash m = HashBytes [ch_d, ch_e]" "\<not> haveInfo (mtor m)" "conns (mtor m) = []" "piecesQueuedForHash (mtor m) = {}"
  shows "\<exists>m'. setInfoBytesLocked True cs [ch_d, ch_e] m = Some (m', None) \<and> haveInfo (mtor m') \<and> metadataBytes m' = [ch_d, ch_e]"
proof -
  obtain v where v: "decode_as info_type [ch_d, ch_e] = Some (None, v)" "validateInfo (info_of v) = None" "info_NumPieces (info_of v) = 0"
    "infoPieceHashes (info_of v) = Some []" by (rule sample_info)
  show ?thesis
    using assms v by (simp add: setInfoBytesLocked_def setInfo_def sample_onSetInfo numPieces_def geom_of_def haveInfo_def)
qed

lemma sample_message:
  "encode_metadata_msg \<lparr>mdPiece = 0, mdTotalSize = 2, mdType = 1\<rparr> = Some (str_bytes ''d8:msg_typei1e5:piecei0e10:total_sizei2ee'')"
  by (simp add: encode_metadata_msg_def Marshal_def reflectValue.simps makeEncodeFields.simps metadata_msg_type_def metadata_msg_val_def field_def
      parseTag_def tag_Ignore_def tag_Key_def Let_def AppendInt_def str_bytes_def
      around_def plain_methods_def reflectString_def writeStringPrefix_def AppendUint.simps)

theorem info_has_info_hash_witness:
  "\<exists>payload m'. onReadExtendedMsg id True (\<lambda>_. (False, False)) 1 payload 0 sample_meta = Some (m', None) \<and>
     \<not> haveInfo (mtor sample_meta) \<and> haveInfo (mtor m') \<and> HashBytes (metadataBytes m') = infoHash sample_meta"
proof -
  let ?d = "\<lparr>mdPiece = 0, mdTotalSize = 2, mdType = 1\<rparr>"
  let ?b = "str_bytes ''d8:msg_typei1e5:piecei0e10:total_sizei2ee''"
  let ?cs = "\<lambda>_. (False, False)"
  obtain err where d: "decode_as metadata_msg_type (?b @ [ch_d, ch_e]) = Some (err, metadata_msg_val ?d)" "\<not> is_failure err"
    using metadata_msg_read [of ?d thesis] sample_message by force
  let ?m = "sample_meta\<lparr>metadataRequests := (\<lambda>_. [True])(0 := [False]), metadataBytes := [ch_d, ch_e], metadataCompletedChunks := Some [True],
    mtor := upd_peer 0 (\<lambda>cn. cn\<lparr>lastUsefulChunkReceived := Some (now (mtor sample_meta))\<rparr>) (mtor sample_meta)\<rparr>"
  obtain m' where m': "setInfoBytesLocked True ?cs [ch_d, ch_e] ?m = Some (m', None)" "haveInfo (mtor m')"
    using sample_setInfoBytes [of ?m ?cs] by (auto simp: sample_meta_def upd_peer_def haveInfo_def)
  have no: "\<not> haveInfo (mtor sample_meta)" by (simp add: sample_meta_def haveInfo_def)
  have "maybeCompleteMetadata True ?cs ?m = Some (m', None)"
    using m'(1) no by (simp add: maybeCompleteMetadata_def haveAllMetadataPieces_def haveInfo_def upd_peer_def)
  then have "got_metadata_data True ?cs (?b @ [ch_d, ch_e]) ?d 0 sample_meta = Some (m', None)"
    using no by (simp add: got_metadata_data_def requestedMetadataPiece_def flag_at_def PieceSize_def int64_small saveMetadataPiece_def
        copy_at_def sample_meta_def str_bytes_def)
  then have "onReadExtendedMsg id True ?cs 1 (?b @ [ch_d, ch_e]) 0 sample_meta = Some (m', None)"
    using got_message(1) [OF d] by (simp add: onReadExtendedMsg_def)
  with no m'(2) show ?thesis using info_has_info_hash by blast
qed



end
