(* ===== verification/Trees.thy ===== *)
theory Trees
  imports Main
begin

text \<open>
  The ordered trees of two packages the client imports, \<^verbatim>\<open>github.com/google/btree\<close> (the reserve of
  peers) and \<^verbatim>\<open>github.com/ajwerner/btree\<close> (the order of pieces).  Their code is not part of the repository: the
  operations are arguments of the definitions that use them, and \<open>btree_law\<close> is what their documentation
  says of them.  Items that are not less than each other either way count as equal.
\<close>

record ('a, 't) btree_ops =
  ReplaceOrInsert :: "'a \<Rightarrow> 't \<Rightarrow> 't \<times> 'a option"
  tree_Delete :: "'a \<Rightarrow> 't \<Rightarrow> 't \<times> 'a option"
  tree_DeleteMin :: "'t \<Rightarrow> 't \<times> 'a option"
  tree_DeleteMax :: "'t \<Rightarrow> 't \<times> 'a option"
  Ascend :: "'t \<Rightarrow> 'a list"

definition tree_Len :: "('a, 't) btree_ops \<Rightarrow> 't \<Rightarrow> nat" where
  "tree_Len B t = length (Ascend B t)"

definition same_key :: "('a \<Rightarrow> 'a \<Rightarrow> bool) \<Rightarrow> 'a \<Rightarrow> 'a \<Rightarrow> bool" where
  "same_key lt x y \<longleftrightarrow> \<not> lt x y \<and> \<not> lt y x"

text \<open>The trees \<open>ok\<close> are those the operations make.\<close>

definition btree_law :: "('a \<Rightarrow> 'a \<Rightarrow> bool) \<Rightarrow> ('t \<Rightarrow> bool) \<Rightarrow> ('a, 't) btree_ops \<Rightarrow> bool" where
  "btree_law lt ok B \<longleftrightarrow> (\<forall>t. ok t \<longrightarrow>
     sorted_wrt lt (Ascend B t) \<and>
     (\<forall>x. (case ReplaceOrInsert B x t of (t', old) \<Rightarrow>
        ok t' \<and> set (Ascend B t') = insert x {y \<in> set (Ascend B t). \<not> same_key lt x y} \<and>
        old = List.find (same_key lt x) (Ascend B t))) \<and>
     (\<forall>x. (case tree_Delete B x t of (t', old) \<Rightarrow>
        ok t' \<and> set (Ascend B t') = {y \<in> set (Ascend B t). \<not> same_key lt x y} \<and>
        old = List.find (same_key lt x) (Ascend B t))) \<and>
     (case tree_DeleteMin B t of (t', old) \<Rightarrow>
        ok t' \<and> (case Ascend B t of [] \<Rightarrow> Ascend B t' = [] \<and> old = None | x # xs \<Rightarrow> Ascend B t' = xs \<and> old = Some x)) \<and>
     (case tree_DeleteMax B t of (t', old) \<Rightarrow>
        ok t' \<and> (if Ascend B t = [] then Ascend B t' = [] \<and> old = None
                  else Ascend B t' = butlast (Ascend B t) \<and> old = Some (last (Ascend B t)))))"

lemma btree_lawD:
  assumes "btree_law lt ok B" "ok t"
  shows "sorted_wrt lt (Ascend B t)"
    and "ReplaceOrInsert B x t = (t', old) \<Longrightarrow> ok t'"
    and "ReplaceOrInsert B x t = (t', old) \<Longrightarrow> set (Ascend B t') = insert x {y \<in> set (Ascend B t). \<not> same_key lt x y}"
    and "ReplaceOrInsert B x t = (t', old) \<Longrightarrow> old = List.find (same_key lt x) (Ascend B t)"
    and "tree_Delete B x t = (t', old) \<Longrightarrow> ok t'"
    and "tree_Delete B x t = (t', old) \<Longrightarrow> set (Ascend B t') = {y \<in> set (Ascend B t). \<not> same_key lt x y}"
    and "tree_Delete B x t = (t', old) \<Longrightarrow> old = List.find (same_key lt x) (Ascend B t)"
    and "tree_DeleteMin B t = (t', old) \<Longrightarrow> ok t'"
    and "tree_DeleteMin B t = (t', old) \<Longrightarrow> Ascend B t = y # ys \<Longrightarrow> Ascend B t' = ys \<and> old = Some y"
    and "tree_DeleteMax B t = (t', old) \<Longrightarrow> ok t'"
    and "tree_DeleteMax B t = (t', old) \<Longrightarrow> Ascend B t \<noteq> [] \<Longrightarrow> Ascend B t' = butlast (Ascend B t) \<and> old = Some (last (Ascend B t))"
proof -
  note law = assms(1) [unfolded btree_law_def, rule_format, OF assms(2)]
  show "sorted_wrt lt (Ascend B t)" by (rule law [THEN conjunct1])
  note ins = law [THEN conjunct2, THEN conjunct1, THEN spec [where x = x]]
  show "ok t'" "set (Ascend B t') = insert x {y \<in> set (Ascend B t). \<not> same_key lt x y}"
    "old = List.find (same_key lt x) (Ascend B t)" if "ReplaceOrInsert B x t = (t', old)"
    using ins unfolding that by simp_all
  note del = law [THEN conjunct2, THEN conjunct2, THEN conjunct1, THEN spec [where x = x]]
  show "ok t'" "set (Ascend B t') = {y \<in> set (Ascend B t). \<not> same_key lt x y}"
    "old = List.find (same_key lt x) (Ascend B t)" if "tree_Delete B x t = (t', old)"
    using del unfolding that by simp_all
  note mn = law [THEN conjunct2, THEN conjunct2, THEN conjunct2, THEN conjunct1]
  show "ok t'" if "tree_DeleteMin B t = (t', old)" using mn unfolding that by simp
  show "Ascend B t' = ys \<and> old = Some y" if "tree_DeleteMin B t = (t', old)" "Ascend B t = y # ys" using mn unfolding that by simp
  note mx = law [THEN conjunct2, THEN conjunct2, THEN conjunct2, THEN conjunct2]
  show "ok t'" if "tree_DeleteMax B t = (t', old)" using mx unfolding that by simp
  show "Ascend B t' = butlast (Ascend B t) \<and> old = Some (last (Ascend B t))"
    if "tree_DeleteMax B t = (t', old)" "Ascend B t \<noteq> []" using mx that(2) unfolding that(1) by simp
qed

section \<open>Sorted lists\<close>

text \<open>Ordered lists have the operations of the trees.\<close>

fun list_insert :: "('a \<Rightarrow> 'a \<Rightarrow> bool) \<Rightarrow> 'a \<Rightarrow> 'a list \<Rightarrow> 'a list" where
  "list_insert lt x [] = [x]"
| "list_insert lt x (y # ys) = (if lt y x then y # list_insert lt x ys else if lt x y then x # y # ys else x # ys)"

definition list_btree :: "('a \<Rightarrow> 'a \<Rightarrow> bool) \<Rightarrow> ('a, 'a list) btree_ops" where
  "list_btree lt = \<lparr>ReplaceOrInsert = (\<lambda>x xs. (list_insert lt x xs, List.find (same_key lt x) xs)),
     tree_Delete = (\<lambda>x xs. (filter (\<lambda>y. \<not> same_key lt x y) xs, List.find (same_key lt x) xs)),
     tree_DeleteMin = (\<lambda>xs. case xs of [] \<Rightarrow> ([], None) | y # ys \<Rightarrow> (ys, Some y)),
     tree_DeleteMax = (\<lambda>xs. if xs = [] then ([], None) else (butlast xs, Some (last xs))), Ascend = (\<lambda>xs. xs)\<rparr>"

text \<open>Orders by a tuple of keys: transitive, and items with the same key are interchangeable.\<close>

definition key_order :: "('a \<Rightarrow> 'a \<Rightarrow> bool) \<Rightarrow> bool" where
  "key_order lt \<longleftrightarrow> (\<forall>x. \<not> lt x x) \<and> (\<forall>x y z. lt x y \<longrightarrow> lt y z \<longrightarrow> lt x z) \<and>
     (\<forall>x y z. same_key lt x y \<longrightarrow> lt y z \<longrightarrow> lt x z) \<and> (\<forall>x y z. same_key lt x y \<longrightarrow> lt z y \<longrightarrow> lt z x)"

lemma key_order_by:
  fixes f :: "'a \<Rightarrow> 'k :: linorder"
  shows "key_order (\<lambda>x y. f x < f y)"
  by (auto simp: key_order_def same_key_def)

lemma key_orderD:
  assumes "key_order lt"
  shows "\<not> lt x x" "lt x y \<Longrightarrow> lt y z \<Longrightarrow> lt x z" "same_key lt x y \<Longrightarrow> lt y z \<Longrightarrow> lt x z" "same_key lt x y \<Longrightarrow> lt z y \<Longrightarrow> lt z x"
  using assms unfolding key_order_def by blast+

lemma list_insert_set:
  assumes "key_order lt" "sorted_wrt lt xs"
  shows "set (list_insert lt x xs) = insert x {y \<in> set xs. \<not> same_key lt x y}"
  using assms(2)
proof (induction xs)
  case (Cons y ys)
  have after: "lt y z" if "z \<in> set ys" for z using that Cons.prems by simp
  consider (below) "lt y x" | (above) "\<not> lt y x" "lt x y" | (same) "same_key lt x y" unfolding same_key_def by blast
  then show ?case
  proof cases
    case below
    then have "\<not> same_key lt x y" by (simp add: same_key_def)
    then show ?thesis using Cons below by auto
  next
    case above
    have "\<not> same_key lt x z" if "z \<in> set ys" for z
      using key_orderD(2) [OF assms(1) above(2) after [OF that]] by (simp add: same_key_def)
    moreover have "\<not> same_key lt x y" using above by (simp add: same_key_def)
    ultimately show ?thesis using above by auto
  next
    case same
    have "\<not> same_key lt x z" if "z \<in> set ys" for z
      using key_orderD(3) [OF assms(1) same after [OF that]] by (simp add: same_key_def)
    then show ?thesis using same by (auto simp: same_key_def)
  qed
qed simp

lemma list_insert_sorted:
  assumes "key_order lt" "sorted_wrt lt xs"
  shows "sorted_wrt lt (list_insert lt x xs)"
  using assms(2)
proof (induction xs)
  case (Cons y ys)
  have after: "lt y z" if "z \<in> set ys" for z using that Cons.prems by simp
  have sub: "set (list_insert lt x ys) \<subseteq> insert x (set ys)" using list_insert_set [OF assms(1), of ys x] Cons.prems by auto
  consider (below) "lt y x" | (above) "\<not> lt y x" "lt x y" | (same) "same_key lt x y" unfolding same_key_def by blast
  then show ?case
  proof cases
    case below
    then have "lt y z" if "z \<in> set (list_insert lt x ys)" for z using that sub after by blast
    then show ?thesis using Cons below by simp
  next
    case above
    have "lt x z" if "z \<in> set ys" for z using key_orderD(2) [OF assms(1) above(2) after [OF that]] .
    then show ?thesis using Cons.prems above by simp
  next
    case same
    have "lt x z" if "z \<in> set ys" for z using key_orderD(3) [OF assms(1) same after [OF that]] .
    then show ?thesis using Cons.prems same by (simp add: same_key_def)
  qed
qed simp

lemma sorted_butlast: "sorted_wrt lt xs \<Longrightarrow> sorted_wrt lt (butlast xs)"
  using sorted_wrt_take [of lt xs "length xs - 1"] by (simp add: butlast_conv_take)

theorem list_btree_law:
  assumes "key_order lt"
  shows "btree_law lt (sorted_wrt lt) (list_btree lt)"
  unfolding btree_law_def
proof (intro allI impI conjI)
  fix t :: "'a list" assume t: "sorted_wrt lt t"
  show "sorted_wrt lt (Ascend (list_btree lt) t)" using t by (simp add: list_btree_def)
  fix x
  show "case ReplaceOrInsert (list_btree lt) x t of (t', old) \<Rightarrow>
      sorted_wrt lt t' \<and> set (Ascend (list_btree lt) t') = insert x {y \<in> set (Ascend (list_btree lt) t). \<not> same_key lt x y} \<and>
      old = List.find (same_key lt x) (Ascend (list_btree lt) t)"
    using list_insert_set [OF assms t] list_insert_sorted [OF assms t] by (simp add: list_btree_def)
  show "case tree_Delete (list_btree lt) x t of (t', old) \<Rightarrow>
      sorted_wrt lt t' \<and> set (Ascend (list_btree lt) t') = {y \<in> set (Ascend (list_btree lt) t). \<not> same_key lt x y} \<and>
      old = List.find (same_key lt x) (Ascend (list_btree lt) t)"
    using t by (simp add: list_btree_def sorted_wrt_filter)
qed (use sorted_butlast in \<open>auto simp: list_btree_def split: list.splits\<close>)

end
