(* ===== verification/PeerPool.thy ===== *)
theory PeerPool
  imports Swarm Trees Iplist "HOL-Library.Product_Lexorder"
begin

text \<open>
  The reserve of peers a torrent may connect to (\<^verbatim>\<open>prioritized_peers.go\<close>, \<^verbatim>\<open>bep40.go\<close>, \<^verbatim>\<open>peer_info.go\<close>, \<^verbatim>\<open>Torrent.addPeer\<close> and
  \<^verbatim>\<open>Torrent.openNewConns\<close> of \<^verbatim>\<open>torrent.go\<close>), and how a tracker's answer goes into it together with the baseline provider,
  the one peer that is to be reachable at all times (\<^verbatim>\<open>trackerScraper.announce\<close>).  Addresses are those of type
  \<^verbatim>\<open>ipPortAddr\<close>, an IP in the form \<^verbatim>\<open>net.ParseIP\<close> gives and a port, so that the text of an address determines it.  The comparison
  package \<^verbatim>\<open>multiless\<close> is lexicographic comparison.  \<open>None\<close> is a panic.
\<close>

unbundle bit_operations_syntax

section \<open>Canonical peer priority\<close>

definition IP_Equal :: "bytes \<Rightarrow> bytes \<Rightarrow> bool" where
  "IP_Equal ip x =
     (if length ip = length x then ip = x
      else if length ip = 4 \<and> length x = 16 then take 12 x = v4InV6Prefix \<and> ip = drop 12 x
      else if length ip = 16 \<and> length x = 4 then take 12 ip = v4InV6Prefix \<and> drop 12 ip = x
      else False)"

definition CIDRMask :: "nat \<Rightarrow> nat \<Rightarrow> bytes" where
  "CIDRMask ones bits = map (\<lambda>i. if 8 * i + 8 \<le> ones then 255 else NOT (drop_bit (ones - 8 * i) 255)) [0..<bits div 8]"

text \<open>\<^verbatim>\<open>IP.Mask\<close>; nil is no bytes.\<close>

definition IP_Mask :: "bytes \<Rightarrow> bytes \<Rightarrow> bytes" where
  "IP_Mask ip m =
     (let m = (if length m = 16 \<and> length ip = 4 \<and> (\<forall>b \<in> set (take 12 m). b = 255) then drop 12 m else m);
          ip = (if length m = 4 \<and> length ip = 16 \<and> take 12 ip = v4InV6Prefix then drop 12 ip else ip)
      in if length ip \<noteq> length m then [] else map2 (AND) ip m)"

definition sameSubnet :: "nat \<Rightarrow> nat \<Rightarrow> bytes \<Rightarrow> bytes \<Rightarrow> bool" where
  "sameSubnet ones bits a b = IP_Equal (IP_Mask a (CIDRMask ones bits)) (IP_Mask b (CIDRMask ones bits))"

definition ipv4Mask :: "bytes \<Rightarrow> bytes \<Rightarrow> bytes" where
  "ipv4Mask a b =
     (if \<not> sameSubnet 16 32 a b then [0xff, 0xff, 0x55, 0x55]
      else if \<not> sameSubnet 24 32 a b then [0xff, 0xff, 0xff, 0x55]
      else [0xff, 0xff, 0xff, 0xff])"

definition prefix_mask :: "nat \<Rightarrow> nat \<Rightarrow> bytes" where
  "prefix_mask prefix n = replicate prefix 0xff @ replicate (n - prefix) 0x55"

definition ipv6Mask :: "bytes \<Rightarrow> bytes \<Rightarrow> bytes option" where
  "ipv6Mask a b = map_option (\<lambda>i. prefix_mask i 16) (List.find (\<lambda>i. \<not> sameSubnet (i * 8) 128 a b) [6..<17])"

record ip_port =
  IP :: bytes
  Port :: int

text \<open>The inner \<open>None\<close> is the error of addresses that cannot be compared.\<close>

definition bep40PriorityBytes :: "ip_port \<Rightarrow> ip_port \<Rightarrow> bytes option option" where
  "bep40PriorityBytes a b =
     (if IP_Equal (IP a) (IP b) then Some (Some (be16 (word_of_int (Port a)) @ be16 (word_of_int (Port b))))
      else case (To4 (IP a), To4 (IP b)) of
        (Some a4, Some b4) \<Rightarrow>
          let m = ipv4Mask (IP a) (IP b) in Some (Some (IP_Mask a4 m @ IP_Mask b4 m))
      | _ \<Rightarrow>
          (case (To16 (IP a), To16 (IP b)) of
             (Some a6, Some b6) \<Rightarrow>
               map_option (\<lambda>m. Some (IP_Mask a6 m @ IP_Mask b6 m)) (ipv6Mask (IP a) (IP b))
           | _ \<Rightarrow> Some None))"

text \<open>\<^verbatim>\<open>hash/crc32\<close> with the Castagnoli polynomial.\<close>

definition crc_bit :: "u32 \<Rightarrow> u32" where
  "crc_bit c = (if c AND 1 = 1 then drop_bit 1 c XOR 0x82F63B78 else drop_bit 1 c)"

definition crc32c :: "bytes \<Rightarrow> u32" where
  "crc32c bs = NOT (foldl (\<lambda>c b. (crc_bit ^^ 8) (c XOR ucast b)) (NOT 0) bs)"

definition bep40Priority :: "ip_port \<Rightarrow> ip_port \<Rightarrow> u32 option option" where
  "bep40Priority a b =
     map_option (map_option (\<lambda>bs.
       let i = length bs div 2; x = take i bs; y = drop i bs
       in crc32c (if x > y then y @ x else bs))) (bep40PriorityBytes a b)"

definition bep40PriorityIgnoreError :: "ip_port \<Rightarrow> ip_port \<Rightarrow> u32 option" where
  "bep40PriorityIgnoreError a b = map_option (\<lambda>r. case r of None \<Rightarrow> 0 | Some p \<Rightarrow> p) (bep40Priority a b)"

lemma IP_Equal_sym: "IP_Equal a b = IP_Equal b a"
  by (auto simp: IP_Equal_def)

lemma sameSubnet_sym: "sameSubnet k n a b = sameSubnet k n b a"
  by (simp add: sameSubnet_def IP_Equal_sym)

lemma masks_sym: "ipv4Mask a b = ipv4Mask b a" "ipv6Mask a b = ipv6Mask b a"
  by (simp_all add: ipv4Mask_def ipv6Mask_def sameSubnet_sym [of _ _ a b])

lemma To4_length: "To4 ip = Some x \<Longrightarrow> length x = 4"
  by (auto simp: To4_def split: if_splits)

lemma To16_length: "To16 ip = Some x \<Longrightarrow> length x = 16"
  by (auto simp: To16_def split: if_splits)

lemma IP_Mask_length: "length m = length ip \<Longrightarrow> length (IP_Mask ip m) = length ip"
  by (auto simp: IP_Mask_def Let_def)

lemma ipv4Mask_length: "length (ipv4Mask a b) = 4"
  by (simp add: ipv4Mask_def)

lemma ipv6Mask_length: "ipv6Mask a b = Some m \<Longrightarrow> length m = 16"
  by (auto simp: ipv6Mask_def prefix_mask_def find_Some_iff simp del: upt_rec_numeral)

lemma byte_255: "(255 :: byte) = - 1"
  by simp

lemma and_255: "(w :: byte) AND 255 = w"
  by (subst byte_255) simp

lemma IP_Mask_full:
  assumes "length ip = 16"
  shows "IP_Mask ip (CIDRMask 128 128) = ip"
proof -
  have "map2 (AND) ip (CIDRMask 128 128) = ip"
    using assms by (intro nth_equalityI) (simp_all add: CIDRMask_def and_255 del: upt_rec_numeral)
  then show ?thesis using assms by (simp add: IP_Mask_def CIDRMask_def del: upt_rec_numeral)
qed

lemma IP_Mask_48:
  "length x = 4 \<Longrightarrow> IP_Mask x (CIDRMask 48 128) = []" "length x = 16 \<Longrightarrow> length (IP_Mask x (CIDRMask 48 128)) = 16"
proof -
  have l: "length (CIDRMask 48 128) = 16" by (simp add: CIDRMask_def del: upt_rec_numeral)
  have "CIDRMask 48 128 ! 6 = 0" by (simp add: CIDRMask_def byte_255 del: upt_rec_numeral)
  then have "take 12 (CIDRMask 48 128) ! 6 = 0" by simp
  moreover have "take 12 (CIDRMask 48 128) ! 6 \<in> set (take 12 (CIDRMask 48 128))" by (rule nth_mem) (simp add: l)
  ultimately have "0 \<in> set (take 12 (CIDRMask 48 128))" by simp
  then have no: "\<not> (\<forall>b \<in> set (take 12 (CIDRMask 48 128)). b = 255)" by force
  show "length x = 4 \<Longrightarrow> IP_Mask x (CIDRMask 48 128) = []" using l no by (auto simp: IP_Mask_def)
  show "length x = 16 \<Longrightarrow> length (IP_Mask x (CIDRMask 48 128)) = 16" using l by (simp add: IP_Mask_def)
qed

text \<open>The mask of two different addresses exists.\<close>

lemma ipv6Mask_exists:
  assumes "\<not> IP_Equal a b" "To16 a \<noteq> None" "To16 b \<noteq> None" "To4 a = None \<or> To4 b = None"
  shows "ipv6Mask a b \<noteq> None"
proof -
  have "\<exists>i \<in> set [6..<17]. \<not> sameSubnet (i * 8) 128 a b"
  proof (cases "length a = length b")
    case True
    then have "length a = 16" "length b = 16" using assms(2-4) by (auto simp: To16_def To4_def split: if_splits)
    then have "\<not> sameSubnet (16 * 8) 128 a b" using assms(1) by (simp add: sameSubnet_def IP_Mask_full)
    then show ?thesis by (intro bexI [of _ 16]) simp_all
  next
    case False
    then have "length a = 4 \<and> length b = 16 \<or> length a = 16 \<and> length b = 4"
      using assms(2,3) by (auto simp: To16_def split: if_splits)
    then have "\<not> sameSubnet (6 * 8) 128 a b"
      using IP_Mask_48 [of a] IP_Mask_48 [of b] by (auto simp: sameSubnet_def IP_Equal_def)
    then show ?thesis by (intro bexI [of _ 6]) simp_all
  qed
  then show ?thesis by (auto simp: ipv6Mask_def find_None_iff)
qed

lemma priority_bytes_halves:
  obtains (bytes) x y where "bep40PriorityBytes a b = Some (Some (x @ y))" "bep40PriorityBytes b a = Some (Some (y @ x))" "length x = length y"
  | (error) "bep40PriorityBytes a b = Some None" "bep40PriorityBytes b a = Some None"
proof (cases "IP_Equal (IP a) (IP b)")
  case True
  then have "IP_Equal (IP b) (IP a)" using IP_Equal_sym by blast
  with True show thesis by (intro bytes [of "be16 (word_of_int (Port a))" "be16 (word_of_int (Port b))"]) (simp_all add: bep40PriorityBytes_def)
next
  case False
  then have F: "\<not> IP_Equal (IP b) (IP a)" using IP_Equal_sym by blast
  consider (v4) a4 b4 where "To4 (IP a) = Some a4" "To4 (IP b) = Some b4"
    | (v6) a6 b6 where "To4 (IP a) = None \<or> To4 (IP b) = None" "To16 (IP a) = Some a6" "To16 (IP b) = Some b6"
    | (none) "To4 (IP a) = None \<or> To4 (IP b) = None" "To16 (IP a) = None \<or> To16 (IP b) = None"
    by (cases "To4 (IP a)"; cases "To4 (IP b)"; cases "To16 (IP a)"; cases "To16 (IP b)") simp_all
  then show thesis
  proof cases
    case v4
    let ?m = "ipv4Mask (IP a) (IP b)"
    have "length (IP_Mask a4 ?m) = length (IP_Mask b4 ?m)"
      using To4_length [OF v4(1)] To4_length [OF v4(2)] ipv4Mask_length IP_Mask_length by simp
    moreover have "bep40PriorityBytes a b = Some (Some (IP_Mask a4 ?m @ IP_Mask b4 ?m))" "bep40PriorityBytes b a = Some (Some (IP_Mask b4 ?m @ IP_Mask a4 ?m))"
      using False F v4 masks_sym(1) [of "IP b" "IP a"] by (simp_all add: bep40PriorityBytes_def Let_def)
    ultimately show thesis using bytes by blast
  next
    case v6
    then obtain m where m: "ipv6Mask (IP a) (IP b) = Some m" "ipv6Mask (IP b) (IP a) = Some m"
      using ipv6Mask_exists [OF False] masks_sym(2) [of "IP a" "IP b"] by auto
    have "length (IP_Mask a6 m) = length (IP_Mask b6 m)"
      using To16_length [OF v6(2)] To16_length [OF v6(3)] ipv6Mask_length [OF m(1)] IP_Mask_length by simp
    moreover have "bep40PriorityBytes a b = Some (Some (IP_Mask a6 m @ IP_Mask b6 m))" "bep40PriorityBytes b a = Some (Some (IP_Mask b6 m @ IP_Mask a6 m))"
      using False F v6 m by (auto simp: bep40PriorityBytes_def split: option.splits)
    ultimately show thesis using bytes by blast
  next
    case none
    then have "bep40PriorityBytes a b = Some None" "bep40PriorityBytes b a = Some None"
      using False F by (auto simp: bep40PriorityBytes_def split: option.splits)
    then show thesis by (rule error)
  qed
qed

text \<open>
  C26. Both ends of a connection give it the same priority.  The priority of two addresses is always
  defined (the panic of \<^verbatim>\<open>ipv6Mask\<close> for addresses it finds no difference in is not reachable), and it does not depend on which
  of the two is the own one.
\<close>

theorem bep40Priority_symmetric: "bep40Priority a b = bep40Priority b a \<and> bep40Priority a b \<noteq> None"
proof (cases rule: priority_bytes_halves [of a b])
  case (bytes x y)
  consider "x < y" "\<not> y < x" | "x = y" | "y < x" "\<not> x < y" using less_linear [of x y] order.asym by blast
  then show ?thesis using bytes by cases (simp_all add: bep40Priority_def Let_def)
next
  case error
  then show ?thesis by (simp add: bep40Priority_def)
qed

section \<open>The reserve of peers\<close>

record peer_info =
  piId :: bytes
  piAddr :: ip_port
  piSource :: string
  SupportsEncryption :: bool
  PexPeerFlags :: byte
  Trusted :: bool
  BaselineProvider :: bool

definition peer_info_equal :: "peer_info \<Rightarrow> peer_info \<Rightarrow> bool" where
  "peer_info_equal me other \<longleftrightarrow> piId me = piId other \<and> piAddr me = piAddr other \<and> piSource me = piSource other \<and>
     SupportsEncryption me = SupportsEncryption other \<and> PexPeerFlags me = PexPeerFlags other \<and> Trusted me = Trusted other"

text \<open>The port of an address as \<^verbatim>\<open>PeerInfo.addr\<close> reads it.\<close>

definition peer_info_addr :: "peer_info \<Rightarrow> ip_port" where
  "peer_info_addr me = (piAddr me)\<lparr>Port := uint (word_of_int (Port (piAddr me)) :: u16)\<rparr>"

record prioritizedPeersItem =
  prio :: u32
  itemPeer :: peer_info

text \<open>
  What adding peers and dialling them depends on and does not change: the trees, the hash of an
  address under the process's seed, the client's public address for a peer, bad addresses, limits, and the state
  of the torrent itself.  \<open>worstBad\<close> is the connection \<^verbatim>\<open>worstBadConn\<close> offers up for a better one.
\<close>

record 't pool_env =
  pool_tree :: "(prioritizedPeersItem, 't) btree_ops"
  addrHash :: "ip_port \<Rightarrow> int"
  publicAddr :: "bytes \<Rightarrow> ip_port"
  dopplegangerAddrs :: "ip_port set"
  ipBlocked :: "bytes \<Rightarrow> bool"
  badPeerIPs :: "bytes set"
  ownPeerID :: bytes
  TorrentPeersHighWater :: nat
  TorrentPeersLowWater :: nat
  TotalHalfOpenConns :: int
  HalfOpenConnsPerTorrent :: int
  numDialers :: nat
  Reliable :: bool
  networkingEnabled :: bool
  maxEstablishedConns :: int
  numReceivedConns :: int
  worstBad :: "peer_id option"
  pool_torrent :: torrent_state
  connAddrs :: "ip_port set"

record 't pool =
  reserve :: 't
  halfOpen :: "ip_port \<rightharpoonup> peer_info"
  numHalfOpen :: int
  wantPeersEvent :: bool
  tBaselineProvider :: "ip_port option"

definition item_key :: "(ip_port \<Rightarrow> int) \<Rightarrow> prioritizedPeersItem \<Rightarrow> bool \<times> u32 \<times> int" where
  "item_key h i = (Trusted (itemPeer i), prio i, h (piAddr (itemPeer i)))"

definition item_less :: "(ip_port \<Rightarrow> int) \<Rightarrow> prioritizedPeersItem \<Rightarrow> prioritizedPeersItem \<Rightarrow> bool" where
  "item_less h x y \<longleftrightarrow> item_key h x < item_key h y"

text \<open>The priority a torrent gives to a peer (\<^verbatim>\<open>newTorrentOpt\<close>).\<close>

definition getPrio :: "('t, 'e) pool_env_scheme \<Rightarrow> peer_info \<Rightarrow> u32 option" where
  "getPrio e p =
     (if BaselineProvider p then Some 0xFFFFFFFF
      else let ipPort = peer_info_addr p in bep40PriorityIgnoreError (publicAddr e (IP ipPort)) ipPort)"

definition AddReturningReplacedPeer :: "('t, 'e) pool_env_scheme \<Rightarrow> peer_info \<Rightarrow> 't \<Rightarrow> ('t \<times> peer_info option) option" where
  "AddReturningReplacedPeer e p om =
     map_option (\<lambda>pr. apsnd (map_option itemPeer) (ReplaceOrInsert (pool_tree e) \<lparr>prio = pr, itemPeer = p\<rparr> om)) (getPrio e p)"

definition pool_DeleteMin :: "('t, 'e) pool_env_scheme \<Rightarrow> 't \<Rightarrow> 't \<times> prioritizedPeersItem option" where
  "pool_DeleteMin e om = tree_DeleteMin (pool_tree e) om"

definition PopMax :: "('t, 'e) pool_env_scheme \<Rightarrow> 't \<Rightarrow> ('t \<times> peer_info) option" where
  "PopMax e om = (case tree_DeleteMax (pool_tree e) om of (om', Some i) \<Rightarrow> Some (om', itemPeer i) | (_, None) \<Rightarrow> None)"

definition DeleteBaseLineProvider :: "('t, 'e) pool_env_scheme \<Rightarrow> peer_info \<Rightarrow> 't \<Rightarrow> 't option" where
  "DeleteBaseLineProvider e bp om = map_option (\<lambda>pr. fst (tree_Delete (pool_tree e) \<lparr>prio = pr, itemPeer = bp\<rparr> om)) (getPrio e bp)"

definition pool_Len :: "('t, 'e) pool_env_scheme \<Rightarrow> 't \<Rightarrow> nat" where
  "pool_Len e om = tree_Len (pool_tree e) om"

section \<open>Connecting\<close>

definition badPeerIPPort :: "('t, 'e) pool_env_scheme \<Rightarrow> bytes \<Rightarrow> int \<Rightarrow> bool option" where
  "badPeerIPPort e ip port =
     (if port = 0 \<or> ip = [] then Some True
      else if \<lparr>IP = ip, Port = port\<rparr> \<in> dopplegangerAddrs e then Some True
      else if ipBlocked e ip then Some True
      else if length ip \<noteq> 4 \<and> length ip \<noteq> 16 then None
      else Some (ip \<in> badPeerIPs e))"

definition badPeerAddr :: "('t, 'e) pool_env_scheme \<Rightarrow> ip_port \<Rightarrow> bool option" where
  "badPeerAddr e a = badPeerIPPort e (IP a) (Port a)"

definition wantConns :: "('t, 'e) pool_env_scheme \<Rightarrow> bool" where
  "wantConns e =
     (let t = pool_torrent e in
      if \<not> networkingEnabled e then False
      else if tclosed t then False
      else if \<not> needData t \<and> (\<not> seeding t \<or> \<not> haveAnyPieces t) then False
      else int (length (conns t)) < maxEstablishedConns e \<or> worstBad e \<noteq> None)"

definition isCompleteReliable :: "('t, 'e) pool_env_scheme \<Rightarrow> bool" where
  "isCompleteReliable e \<longleftrightarrow> haveAllPieces (pool_torrent e) \<and> Reliable e"

definition wantPeers :: "('t, 'e) pool_env_scheme \<Rightarrow> 't \<Rightarrow> bool" where
  "wantPeers e om =
     (if tclosed (pool_torrent e) then False
      else if pool_Len e om > TorrentPeersLowWater e then False
      else wantConns e)"

definition updateWantPeersEvent :: "('t, 'e) pool_env_scheme \<Rightarrow> 't pool \<Rightarrow> 't pool" where
  "updateWantPeersEvent e s = s\<lparr>wantPeersEvent := wantPeers e (reserve s)\<rparr>"

text \<open>Go's division rounds towards zero.\<close>

definition maxHalfOpen :: "('t, 'e) pool_env_scheme \<Rightarrow> int" where
  "maxHalfOpen e =
     (let establishedHeadroom = maxEstablishedConns e - int (length (conns (pool_torrent e)));
          extraIncoming = numReceivedConns e - sgn (maxEstablishedConns e) * (\<bar>maxEstablishedConns e\<bar> div 2)
      in min (max 5 extraIncoming + establishedHeadroom) (HalfOpenConnsPerTorrent e))"

definition addrActive :: "('t, 'e) pool_env_scheme \<Rightarrow> ip_port \<Rightarrow> 't pool \<Rightarrow> bool" where
  "addrActive e a s \<longleftrightarrow> halfOpen s a \<noteq> None \<or> a \<in> connAddrs e"

definition initiateConn :: "('t, 'e) pool_env_scheme \<Rightarrow> peer_info \<Rightarrow> 't pool \<Rightarrow> 't pool option" where
  "initiateConn e peer s =
     (if piId peer = ownPeerID e then Some s
      else do {
        bad \<leftarrow> badPeerAddr e (piAddr peer);
        Some (if bad \<and> \<not> Trusted peer then s
              else if addrActive e (piAddr peer) s then s
              else s\<lparr>numHalfOpen := numHalfOpen s + 1, halfOpen := (halfOpen s)(piAddr peer \<mapsto> peer)\<rparr>)
      })"

definition may_dial :: "('t, 'e) pool_env_scheme \<Rightarrow> 't pool \<Rightarrow> bool" where
  "may_dial e s \<longleftrightarrow> wantConns e \<and> int (card (dom (halfOpen s))) < maxHalfOpen e \<and> numDialers e \<noteq> 0 \<and>
     numHalfOpen s < TotalHalfOpenConns e"

text \<open>
  The loop of \<^verbatim>\<open>openNewConns\<close>: each round takes one peer out of the reserve, so its size is enough
  rounds.  The result also says which peers were taken, in order; the Go code counts them.
\<close>

fun openNewConns_loop :: "('t, 'e) pool_env_scheme \<Rightarrow> nat \<Rightarrow> 't pool \<Rightarrow> ('t pool \<times> peer_info list) option" where
  "openNewConns_loop e 0 s = Some (s, [])"
| "openNewConns_loop e (Suc n) s =
     (if pool_Len e (reserve s) = 0 \<or> \<not> may_dial e s then Some (s, [])
      else do {
        (om, p) \<leftarrow> PopMax e (reserve s);
        s \<leftarrow> initiateConn e p (s\<lparr>reserve := om\<rparr>);
        (s, ps) \<leftarrow> openNewConns_loop e n s;
        Some (s, p # ps)
      })"

definition openNewConns :: "('t, 'e) pool_env_scheme \<Rightarrow> 't pool \<Rightarrow> ('t pool \<times> peer_info list) option" where
  "openNewConns e s =
     (if isCompleteReliable e then Some (s, [])
      else map_option (apfst (updateWantPeersEvent e)) (openNewConns_loop e (pool_Len e (reserve s)) s))"

fun discard_excess :: "('t, 'e) pool_env_scheme \<Rightarrow> nat \<Rightarrow> 't \<Rightarrow> 't" where
  "discard_excess e 0 om = om"
| "discard_excess e (Suc n) om =
     (if pool_Len e om > TorrentPeersHighWater e then discard_excess e n (fst (pool_DeleteMin e om)) else om)"

text \<open>Each round discards a peer, so the size of the reserve is enough rounds.\<close>

definition addPeer :: "('t, 'e) pool_env_scheme \<Rightarrow> peer_info \<Rightarrow> 't pool \<Rightarrow> ('t pool \<times> bool \<times> peer_info list) option" where
  "addPeer e p s =
     (if tclosed (pool_torrent e) then Some (s, False, [])
      else do {
        bad \<leftarrow> badPeerIPPort e (IP (piAddr p)) (Port (piAddr p));
        (if bad then Some (s, False, [])
         else do {
           (om, replaced) \<leftarrow> AddReturningReplacedPeer e p (reserve s);
           let added = (case replaced of Some q \<Rightarrow> \<not> peer_info_equal q p | None \<Rightarrow> True);
           (s, dialled) \<leftarrow> openNewConns e (s\<lparr>reserve := om\<rparr>);
           Some (s\<lparr>reserve := discard_excess e (pool_Len e (reserve s)) (reserve s)\<rparr>, added, dialled)
         })
      })"

fun addPeers :: "('t, 'e) pool_env_scheme \<Rightarrow> peer_info list \<Rightarrow> 't pool \<Rightarrow> ('t pool \<times> nat \<times> peer_info list) option" where
  "addPeers e [] s = Some (s, 0, [])"
| "addPeers e (p # ps) s = do {
     (s, added, d1) \<leftarrow> addPeer e p s;
     (s, n, d2) \<leftarrow> addPeers e ps s;
     Some (s, (if added then n + 1 else n), d1 @ d2)
   }"

section \<open>What a tracker says\<close>

record tracker_peer =
  tpIP :: bytes
  tpPort :: int
  tpID :: bytes

text \<open>An IP as its text is read back.\<close>

definition canon_ip :: "bytes \<Rightarrow> bytes" where
  "canon_ip ip = (case To16 ip of Some x \<Rightarrow> x | None \<Rightarrow> [])"

text \<open>\<^verbatim>\<open>copy\<close> into an array of 20 bytes.\<close>

definition AppendFromTracker :: "peer_info list \<Rightarrow> tracker_peer list \<Rightarrow> peer_info list" where
  "AppendFromTracker ret ps = ret @ map (\<lambda>p.
     \<lparr>piId = take 20 (tpID p @ replicate 20 0), piAddr = \<lparr>IP = canon_ip (tpIP p), Port = tpPort p\<rparr>, piSource = ''Tr'',
      SupportsEncryption = False, PexPeerFlags = 0, Trusted = False, BaselineProvider = False\<rparr>) ps"

definition addBaselineProvider :: "tracker_peer \<Rightarrow> 't pool \<Rightarrow> 't pool \<times> bool" where
  "addBaselineProvider bp s =
     (if tBaselineProvider s = None then (s\<lparr>tBaselineProvider := Some \<lparr>IP = tpIP bp, Port = tpPort bp\<rparr>\<rparr>, True)
      else (s, False))"

text \<open>
  \<^verbatim>\<open>trackerScraper.announce\<close> from the answer of the tracker on: the number of peers it reports, and
  those dialled.
\<close>

definition announced :: "('t, 'e) pool_env_scheme \<Rightarrow> tracker_peer list \<Rightarrow> tracker_peer \<Rightarrow> 't pool \<Rightarrow> ('t pool \<times> nat \<times> peer_info list) option" where
  "announced e ps bp s = do {
     let peerInfos = AppendFromTracker [] ps;
     let (s, fresh) = (if tpIP bp \<noteq> [] then addBaselineProvider bp s else (s, False));
     (s, peerInfos) \<leftarrow>
       (if fresh then do {
          let b = (hd (AppendFromTracker [] [bp]))\<lparr>Trusted := True, BaselineProvider := True\<rparr>;
          om \<leftarrow> DeleteBaseLineProvider e b (reserve s);
          Some (s\<lparr>reserve := om\<rparr>, peerInfos @ [b])
        }
        else Some (s, peerInfos));
     (s, _, dialled) \<leftarrow> addPeers e peerInfos s;
     Some (s, length ps + (if fresh then 1 else 0), dialled)
   }"

section \<open>The baseline provider stays on top\<close>

definition pool_law :: "('t, 'e) pool_env_scheme \<Rightarrow> ('t \<Rightarrow> bool) \<Rightarrow> bool" where
  "pool_law e ok \<longleftrightarrow> btree_law (item_less (addrHash e)) ok (pool_tree e)"

definition items :: "('t, 'e) pool_env_scheme \<Rightarrow> 't \<Rightarrow> prioritizedPeersItem set" where
  "items e om = set (Ascend (pool_tree e) om)"

lemma item_order: "key_order (item_less h)"
  using key_order_by [of "item_key h"] by (simp add: item_less_def [abs_def])

text \<open>An item above all others is the last one.\<close>

definition on_top :: "('t, 'e) pool_env_scheme \<Rightarrow> prioritizedPeersItem \<Rightarrow> 't \<Rightarrow> bool" where
  "on_top e b om \<longleftrightarrow> b \<in> items e om \<and> (\<forall>y \<in> items e om. y \<noteq> b \<longrightarrow> item_less (addrHash e) y b)"

lemma on_top_last:
  assumes "pool_law e ok" "ok om" "on_top e b om"
  obtains ys where "Ascend (pool_tree e) om = ys @ [b]" "b \<notin> set ys"
proof -
  let ?xs = "Ascend (pool_tree e) om"
  have s: "sorted_wrt (item_less (addrHash e)) ?xs" using assms(1,2) btree_lawD(1) by (auto simp: pool_law_def)
  have ne: "?xs \<noteq> []" using assms(3) by (auto simp: on_top_def items_def)
  then have xs: "?xs = butlast ?xs @ [last ?xs]" by simp
  have "b \<notin> set (butlast ?xs)"
  proof
    assume "b \<in> set (butlast ?xs)"
    then have "item_less (addrHash e) b (last ?xs)" using s xs by (metis sorted_wrt_append list.set_intros(1))
    moreover from this have "last ?xs \<noteq> b" using key_orderD(1) [OF item_order] by metis
    then have "item_less (addrHash e) (last ?xs) b" using assms(3) ne by (simp add: on_top_def items_def)
    ultimately show False using key_orderD(1,2) [OF item_order] by blast
  qed
  moreover have "b = last ?xs" using calculation assms(3) xs by (metis Un_iff items_def on_top_def set_ConsD set_append empty_iff empty_set)
  ultimately show thesis using that xs by metis
qed

lemma on_top_insert:
  assumes "pool_law e ok" "ok om" "on_top e b om" "item_less (addrHash e) i b" "ReplaceOrInsert (pool_tree e) i om = (om', old)"
  shows "ok om'" "on_top e b om'"
proof -
  note law = assms(1) [unfolded pool_law_def]
  show "ok om'" by (rule btree_lawD(2) [OF law assms(2,5)])
  have "items e om' = insert i {y \<in> items e om. \<not> same_key (item_less (addrHash e)) i y}"
    using btree_lawD(3) [OF law assms(2,5)] by (simp add: items_def)
  moreover have "\<not> same_key (item_less (addrHash e)) i b" using assms(4) by (simp add: same_key_def)
  ultimately show "on_top e b om'" using assms(3,4) by (auto simp: on_top_def)
qed

lemma on_top_pop:
  assumes "pool_law e ok" "ok om" "on_top e b om"
  shows "\<exists>om'. PopMax e om = Some (om', itemPeer b) \<and> ok om'"
proof -
  obtain ys where ys: "Ascend (pool_tree e) om = ys @ [b]" by (rule on_top_last [OF assms])
  obtain om' old where d: "tree_DeleteMax (pool_tree e) om = (om', old)" by force
  note law = assms(1) [unfolded pool_law_def]
  have "old = Some b" using btree_lawD(11) [OF law assms(2) d] ys by simp
  then show ?thesis using d btree_lawD(10) [OF law assms(2) d] by (simp add: PopMax_def)
qed

lemma on_top_discard:
  assumes "pool_law e ok" "ok om" "on_top e b om" "0 < TorrentPeersHighWater e"
  shows "ok (discard_excess e n om) \<and> on_top e b (discard_excess e n om)"
  using assms(2,3)
proof (induction n arbitrary: om)
  case (Suc n)
  show ?case
  proof (cases "pool_Len e om > TorrentPeersHighWater e")
    case True
    obtain ys where ys: "Ascend (pool_tree e) om = ys @ [b]" "b \<notin> set ys" by (rule on_top_last [OF assms(1) Suc.prems])
    then obtain z zs where z: "ys = z # zs" using True assms(4) by (cases ys) (auto simp: pool_Len_def tree_Len_def)
    obtain om' old where d: "tree_DeleteMin (pool_tree e) om = (om', old)" by force
    note law = assms(1) [unfolded pool_law_def]
    have "Ascend (pool_tree e) om' = zs @ [b]" "ok om'"
      using btree_lawD(9) [OF law Suc.prems(1) d, of z "zs @ [b]"] btree_lawD(8) [OF law Suc.prems(1) d] ys z by simp_all
    moreover from this have "on_top e b om'" using Suc.prems(2) ys z by (auto simp: on_top_def items_def)
    ultimately show ?thesis using Suc.IH True d by (simp add: pool_DeleteMin_def)
  qed (use Suc.prems in simp)
qed (use assms in simp)

text \<open>Nobody is dialled before the one on top.\<close>

definition first_or_kept :: "('t, 'e) pool_env_scheme \<Rightarrow> ('t \<Rightarrow> bool) \<Rightarrow> prioritizedPeersItem \<Rightarrow> 't pool \<Rightarrow> peer_info list \<Rightarrow> bool" where
  "first_or_kept e ok b s dialled \<longleftrightarrow>
     (if dialled = [] then ok (reserve s) \<and> on_top e b (reserve s) else hd dialled = itemPeer b)"

lemma openNewConns_first:
  assumes "pool_law e ok" "ok (reserve s)" "on_top e b (reserve s)" "openNewConns e s = Some (s', dialled)"
  shows "first_or_kept e ok b s' dialled"
proof -
  have loop: "first_or_kept e ok b s' d" if "openNewConns_loop e n s = Some (s', d)" for n s' d
  proof (cases "n = 0 \<or> pool_Len e (reserve s) = 0 \<or> \<not> may_dial e s")
    case True
    then have "s' = s" "d = []" using that by (cases n; auto split: if_splits)+
    then show ?thesis using assms(2,3) by (simp add: first_or_kept_def)
  next
    case False
    then obtain m where m: "n = Suc m" by (cases n) auto
    obtain om' where "PopMax e (reserve s) = Some (om', itemPeer b)" using on_top_pop [OF assms(1-3)] by blast
    then show ?thesis using that False unfolding m by (auto simp: bind_eq_Some_conv first_or_kept_def)
  qed
  show ?thesis
  proof (cases "isCompleteReliable e")
    case True
    then show ?thesis using assms by (simp add: openNewConns_def first_or_kept_def)
  next
    case False
    then obtain s1 where s1: "openNewConns_loop e (pool_Len e (reserve s)) s = Some (s1, dialled)" "s' = updateWantPeersEvent e s1"
      using assms(4) by (auto simp: openNewConns_def)
    then show ?thesis using loop [OF s1(1)] by (simp add: first_or_kept_def updateWantPeersEvent_def)
  qed
qed

definition plain_item :: "prioritizedPeersItem \<Rightarrow> bool" where
  "plain_item i \<longleftrightarrow> \<not> (Trusted (itemPeer i) \<and> prio i = 0xFFFFFFFF)"

definition plain_peer :: "('t, 'e) pool_env_scheme \<Rightarrow> peer_info \<Rightarrow> bool" where
  "plain_peer e p \<longleftrightarrow> \<not> (Trusted p \<and> getPrio e p = Some 0xFFFFFFFF)"

lemma plain_below:
  assumes "plain_item i" "Trusted (itemPeer b)" "prio b = 0xFFFFFFFF"
  shows "item_less h i b"
proof -
  have "(0xFFFFFFFF :: u32) = - 1" by simp
  then have "prio i \<le> 0xFFFFFFFF" by (simp only: word_n1_ge)
  then show ?thesis using assms by (auto simp: plain_item_def item_less_def item_key_def less_prod_def' order.strict_iff_order)
qed

lemma plain_peer_item: "plain_peer e p \<Longrightarrow> getPrio e p = Some pr \<Longrightarrow> plain_item \<lparr>prio = pr, itemPeer = p\<rparr>"
  by (simp add: plain_peer_def plain_item_def)

lemma addPeerE:
  assumes "addPeer e p s = Some (s', added, dialled)"
  obtains (ignored) "s' = s" "dialled = []" "tclosed (pool_torrent e) \<or> badPeerIPPort e (IP (piAddr p)) (Port (piAddr p)) = Some True"
  | (added) pr om old s1 where "badPeerIPPort e (IP (piAddr p)) (Port (piAddr p)) = Some False" "getPrio e p = Some pr"
      "ReplaceOrInsert (pool_tree e) \<lparr>prio = pr, itemPeer = p\<rparr> (reserve s) = (om, old)" "openNewConns e (s\<lparr>reserve := om\<rparr>) = Some (s1, dialled)"
      "s' = s1\<lparr>reserve := discard_excess e (pool_Len e (reserve s1)) (reserve s1)\<rparr>"
proof (cases "tclosed (pool_torrent e) \<or> badPeerIPPort e (IP (piAddr p)) (Port (piAddr p)) \<noteq> Some False")
  case True
  then show thesis using assms ignored by (auto simp: addPeer_def bind_eq_Some_conv split: if_splits)
next
  case False
  then obtain pr where pr: "getPrio e p = Some pr"
    using assms by (auto simp: addPeer_def AddReturningReplacedPeer_def bind_eq_Some_conv)
  obtain om old where om: "ReplaceOrInsert (pool_tree e) \<lparr>prio = pr, itemPeer = p\<rparr> (reserve s) = (om, old)" by force
  then obtain s1 where "openNewConns e (s\<lparr>reserve := om\<rparr>) = Some (s1, dialled)"
      "s' = s1\<lparr>reserve := discard_excess e (pool_Len e (reserve s1)) (reserve s1)\<rparr>"
    using False pr assms by (auto simp: addPeer_def AddReturningReplacedPeer_def bind_eq_Some_conv Let_def)
  then show thesis using False pr om added by simp
qed

lemma addPeer_first:
  assumes "pool_law e ok" "ok (reserve s)" "on_top e b (reserve s)" "0 < TorrentPeersHighWater e"
    "Trusted (itemPeer b)" "prio b = 0xFFFFFFFF" "plain_peer e p" "addPeer e p s = Some (s', added, dialled)"
  shows "first_or_kept e ok b s' dialled"
  using assms(8)
proof (cases rule: addPeerE)
  case ignored
  then show ?thesis using assms(2,3) by (simp add: first_or_kept_def)
next
  case (added pr om old s1)
  have "item_less (addrHash e) \<lparr>prio = pr, itemPeer = p\<rparr> b"
    using plain_below plain_peer_item [OF assms(7) added(2)] assms(5,6) by blast
  note top = on_top_insert [OF assms(1-3) this added(3)]
  have "first_or_kept e ok b s1 dialled" using openNewConns_first [OF assms(1) _ _ added(4)] top by simp
  then show ?thesis
    using on_top_discard [OF assms(1) _ _ assms(4), of "reserve s1" b "pool_Len e (reserve s1)"] added(5)
    by (cases "dialled = []") (simp_all add: first_or_kept_def)
qed

lemma addPeers_first:
  assumes "pool_law e ok" "0 < TorrentPeersHighWater e" "Trusted (itemPeer b)" "prio b = 0xFFFFFFFF"
  shows "ok (reserve s) \<Longrightarrow> on_top e b (reserve s) \<Longrightarrow> \<forall>p \<in> set ps. plain_peer e p \<Longrightarrow> addPeers e ps s = Some (s', n, dialled) \<Longrightarrow>
    first_or_kept e ok b s' dialled"
proof (induction ps arbitrary: s n dialled)
  case Nil
  then show ?case by (simp add: first_or_kept_def)
next
  case (Cons p ps)
  obtain s1 added d1 m d2 where s1: "addPeer e p s = Some (s1, added, d1)" "addPeers e ps s1 = Some (s', m, d2)" "dialled = d1 @ d2"
    using Cons.prems(4) by (auto simp: bind_eq_Some_conv)
  have "first_or_kept e ok b s1 d1"
    using addPeer_first [OF assms(1) Cons.prems(1,2) assms(2-4) _ s1(1)] Cons.prems(3) by simp
  then show ?case using Cons.IH [OF _ _ _ s1(2)] Cons.prems(3) s1(3) by (cases "d1 = []") (auto simp: first_or_kept_def)
qed

text \<open>Plain peers leave the reserve without trusted peers of the highest priority.\<close>

definition all_plain :: "('t, 'e) pool_env_scheme \<Rightarrow> 't \<Rightarrow> bool" where
  "all_plain e om \<longleftrightarrow> (\<forall>i \<in> items e om. plain_item i)"

lemma loop_shrinks:
  assumes "pool_law e ok"
  shows "ok (reserve s) \<Longrightarrow> openNewConns_loop e n s = Some (s', d) \<Longrightarrow> ok (reserve s') \<and> items e (reserve s') \<subseteq> items e (reserve s)"
proof (induction n arbitrary: s d)
  case (Suc n)
  show ?case
  proof (cases "pool_Len e (reserve s) = 0 \<or> \<not> may_dial e s")
    case False
    then obtain om p s1 d1 where 1: "PopMax e (reserve s) = Some (om, p)" "initiateConn e p (s\<lparr>reserve := om\<rparr>) = Some s1"
      "openNewConns_loop e n s1 = Some (s', d1)" using Suc.prems(2) by (auto simp: bind_eq_Some_conv)
    note law = assms [unfolded pool_law_def]
    obtain i where i: "tree_DeleteMax (pool_tree e) (reserve s) = (om, Some i)" using 1(1) by (auto simp: PopMax_def split: prod.splits option.splits)
    have "Ascend (pool_tree e) (reserve s) \<noteq> []" using False by (simp add: pool_Len_def tree_Len_def)
    then have "items e om \<subseteq> items e (reserve s)" "ok om"
      using btree_lawD(10,11) [OF law Suc.prems(1) i] by (auto simp: items_def dest: in_set_butlastD)
    moreover have "reserve s1 = om" using 1(2) by (auto simp: initiateConn_def bind_eq_Some_conv split: if_splits)
    ultimately show ?thesis using Suc.IH [OF _ 1(3)] by auto
  qed (use Suc.prems in auto)
qed simp

lemma discard_shrinks:
  assumes "pool_law e ok"
  shows "ok om \<Longrightarrow> ok (discard_excess e n om) \<and> items e (discard_excess e n om) \<subseteq> items e om"
proof (induction n arbitrary: om)
  case (Suc n)
  show ?case
  proof (cases "pool_Len e om > TorrentPeersHighWater e")
    case True
    then obtain x xs where x: "Ascend (pool_tree e) om = x # xs" by (cases "Ascend (pool_tree e) om") (auto simp: pool_Len_def tree_Len_def)
    obtain om' old where d: "tree_DeleteMin (pool_tree e) om = (om', old)" by force
    note law = assms [unfolded pool_law_def]
    have "items e om' \<subseteq> items e om" "ok om'" using btree_lawD(8,9) [OF law Suc.prems d] x by (auto simp: items_def)
    then show ?thesis using Suc.IH True d by (auto simp: pool_DeleteMin_def)
  qed (use Suc.prems in simp)
qed simp

lemma addPeer_items:
  assumes "pool_law e ok" "ok (reserve s)" "addPeer e p s = Some (s', added, dialled)"
  shows "ok (reserve s')" "items e (reserve s') \<subseteq> {\<lparr>prio = pr, itemPeer = p\<rparr> | pr. getPrio e p = Some pr} \<union> items e (reserve s)"
proof -
  have "ok (reserve s') \<and> items e (reserve s') \<subseteq> {\<lparr>prio = pr, itemPeer = p\<rparr> | pr. getPrio e p = Some pr} \<union> items e (reserve s)"
    using assms(3)
  proof (cases rule: addPeerE)
    case (added pr om old s1)
    note law = assms(1) [unfolded pool_law_def]
    have om: "ok om" "items e om \<subseteq> insert \<lparr>prio = pr, itemPeer = p\<rparr> (items e (reserve s))"
      using btree_lawD(2,3) [OF law assms(2) added(3)] by (auto simp: items_def)
    have "ok (reserve s1) \<and> items e (reserve s1) \<subseteq> items e om"
    proof (cases "isCompleteReliable e")
      case True
      then show ?thesis using added(4) om by (auto simp: openNewConns_def)
    next
      case False
      then obtain s2 where s2: "openNewConns_loop e (pool_Len e om) (s\<lparr>reserve := om\<rparr>) = Some (s2, dialled)" "s1 = updateWantPeersEvent e s2"
        using added(4) by (auto simp: openNewConns_def)
      then show ?thesis using loop_shrinks [OF assms(1) _ s2(1)] om(1) by (simp add: updateWantPeersEvent_def)
    qed
    then show ?thesis using discard_shrinks [OF assms(1)] added(2,5) om(2) by fastforce
  qed (use assms(2) in auto)
  then show "ok (reserve s')" "items e (reserve s') \<subseteq> {\<lparr>prio = pr, itemPeer = p\<rparr> | pr. getPrio e p = Some pr} \<union> items e (reserve s)" by auto
qed

lemma addPeers_plain:
  assumes "pool_law e ok"
  shows "ok (reserve s) \<Longrightarrow> all_plain e (reserve s) \<Longrightarrow> \<forall>p \<in> set ps. plain_peer e p \<Longrightarrow> addPeers e ps s = Some (s', n, dialled) \<Longrightarrow>
    ok (reserve s') \<and> all_plain e (reserve s')"
proof (induction ps arbitrary: s n dialled)
  case (Cons p ps)
  obtain s1 added d1 m d2 where s1: "addPeer e p s = Some (s1, added, d1)" "addPeers e ps s1 = Some (s', m, d2)"
    using Cons.prems(4) by (auto simp: bind_eq_Some_conv)
  note a = addPeer_items [OF assms Cons.prems(1) s1(1)]
  have "all_plain e (reserve s1)" using a(2) Cons.prems(2,3) plain_peer_item by (fastforce simp: all_plain_def)
  then show ?case using Cons.IH [OF a(1) _ _ s1(2)] Cons.prems(3) by simp
qed simp

lemma tracker_plain: "\<forall>p \<in> set (AppendFromTracker [] ps). plain_peer e p"
  by (auto simp: AppendFromTracker_def plain_peer_def)

lemma addPeers_append:
  "addPeers e (ps @ qs) s = Some (s', n, d) \<longleftrightarrow>
     (\<exists>s1 n1 d1 n2 d2. addPeers e ps s = Some (s1, n1, d1) \<and> addPeers e qs s1 = Some (s', n2, d2) \<and> n = n1 + n2 \<and> d = d1 @ d2)"
proof (induction ps arbitrary: s n d)
  case (Cons p ps)
  show ?case by (fastforce simp: bind_eq_Some_conv Cons)
qed auto

definition bp_info :: "tracker_peer \<Rightarrow> peer_info" where
  "bp_info bp = (hd (AppendFromTracker [] [bp]))\<lparr>Trusted := True, BaselineProvider := True\<rparr>"

abbreviation (input) bp_item :: "tracker_peer \<Rightarrow> prioritizedPeersItem" where
  "bp_item bp \<equiv> \<lparr>prio = 0xFFFFFFFF, itemPeer = bp_info bp\<rparr>"

lemma bp_info_simps [simp]: "Trusted (bp_info bp)" "getPrio e (bp_info bp) = Some 0xFFFFFFFF"
  "piAddr (bp_info bp) = \<lparr>IP = canon_ip (tpIP bp), Port = tpPort bp\<rparr>"
  by (simp_all add: bp_info_def getPrio_def AppendFromTracker_def)

lemma announcedE:
  assumes "announced e ps bp s = Some (s', n, dialled)" "tpIP bp \<noteq> []" "tBaselineProvider s = None"
  obtains s1 n1 d1 added d2 where
    "addPeers e (AppendFromTracker [] ps)
       (s\<lparr>tBaselineProvider := Some \<lparr>IP = tpIP bp, Port = tpPort bp\<rparr>, reserve := fst (tree_Delete (pool_tree e) (bp_item bp) (reserve s))\<rparr>)
     = Some (s1, n1, d1)"
    "addPeer e (bp_info bp) s1 = Some (s', added, d2)" "dialled = d1 @ d2"
  using assms
  by (auto simp: announced_def addBaselineProvider_def bind_eq_Some_conv Let_def DeleteBaseLineProvider_def addPeers_append bp_info_def [symmetric])

lemma bp_on_top:
  assumes "pool_law e ok" "ok om" "all_plain e om" "ReplaceOrInsert (pool_tree e) (bp_item bp) om = (om', old)"
  shows "ok om' \<and> on_top e (bp_item bp) om'"
proof -
  note law = assms(1) [unfolded pool_law_def]
  have "items e om' \<subseteq> insert (bp_item bp) (items e om)" "bp_item bp \<in> items e om'" "ok om'"
    using btree_lawD(2,3) [OF law assms(2,4)] by (auto simp: items_def)
  then show ?thesis using assms(3) plain_below by (fastforce simp: on_top_def all_plain_def)
qed

lemma announced_first:
  assumes "pool_law e ok" "ok (reserve s)" "all_plain e (reserve s)" "0 < TorrentPeersHighWater e" "\<not> tclosed (pool_torrent e)"
    "badPeerIPPort e (canon_ip (tpIP bp)) (tpPort bp) = Some False" "tpIP bp \<noteq> []" "tBaselineProvider s = None"
    "announced e ps bp s = Some (s', n, dialled)"
  shows "bp_info bp \<in> set dialled \<or> ok (reserve s') \<and> on_top e (bp_item bp) (reserve s')"
  using assms(9,7,8)
proof (cases rule: announcedE)
  case (1 s1 n1 d1 added d2)
  obtain om old where om: "tree_Delete (pool_tree e) (bp_item bp) (reserve s) = (om, old)" by force
  note law = assms(1) [unfolded pool_law_def]
  have "ok om" "items e om \<subseteq> items e (reserve s)" using btree_lawD(5,6) [OF law assms(2) om] by (auto simp: items_def)
  then have s1: "ok (reserve s1)" "all_plain e (reserve s1)"
    using addPeers_plain [OF assms(1) _ _ tracker_plain 1(1)] assms(3) om by (auto simp: all_plain_def)
  from 1(2) show ?thesis
  proof (cases rule: addPeerE)
    case ignored
    then show ?thesis using assms(5,6) by simp
  next
    case (added pr om' old' s2)
    have "ok om' \<and> on_top e (bp_item bp) om'" using bp_on_top [OF assms(1) s1] added(2,3) by simp
    then have "first_or_kept e ok (bp_item bp) s2 d2" using openNewConns_first [OF assms(1) _ _ added(4)] by simp
    then show ?thesis
      using on_top_discard [OF assms(1) _ _ assms(4), of "reserve s2" "bp_item bp" "pool_Len e (reserve s2)"] added(5) 1(3) hd_in_set [of d2]
      by (cases "d2 = []") (auto simp: first_or_kept_def)
  qed
qed


definition sample_env :: "prioritizedPeersItem list pool_env" where
  "sample_env = \<lparr>pool_tree = list_btree (item_less (\<lambda>_. 0)), addrHash = (\<lambda>_. 0), publicAddr = (\<lambda>_. \<lparr>IP = [1, 2, 3, 4], Port = 6881\<rparr>),
     dopplegangerAddrs = {}, ipBlocked = (\<lambda>_. False), badPeerIPs = {}, ownPeerID = [], TorrentPeersHighWater = 2, TorrentPeersLowWater = 1,
     TotalHalfOpenConns = 5, HalfOpenConnsPerTorrent = 5, numDialers = 1, Reliable = False, networkingEnabled = False,
     maxEstablishedConns = 10, numReceivedConns = 0, worstBad = None, pool_torrent = sample_torrent, connAddrs = {}\<rparr>"

definition sample_pool :: "prioritizedPeersItem list pool" where
  "sample_pool = \<lparr>reserve = [], halfOpen = Map.empty, numHalfOpen = 0, wantPeersEvent = False, tBaselineProvider = None\<rparr>"

abbreviation (input) sample_bp :: tracker_peer where
  "sample_bp \<equiv> \<lparr>tpIP = [10, 0, 0, 1], tpPort = 6881, tpID = []\<rparr>"

lemma sample_pool_law: "pool_law sample_env (sorted_wrt (item_less (\<lambda>_. 0)))"
  using list_btree_law [OF item_order] by (simp add: pool_law_def sample_env_def)

lemma getPrio_defined: "getPrio e p \<noteq> None"
  by (cases rule: priority_bytes_halves [of "publicAddr e (IP (peer_info_addr p))" "peer_info_addr p"])
    (simp_all add: getPrio_def bep40PriorityIgnoreError_def bep40Priority_def Let_def)

lemma addPeer_idle:
  assumes "badPeerIPPort e (IP (piAddr p)) (Port (piAddr p)) \<noteq> None" "\<not> wantConns e"
  shows "\<exists>s' added. addPeer e p s = Some (s', added, [])"
proof -
  obtain pr where pr: "getPrio e p = Some pr" using getPrio_defined by fastforce
  obtain om old where om: "ReplaceOrInsert (pool_tree e) \<lparr>prio = pr, itemPeer = p\<rparr> (reserve s) = (om, old)" by force
  have "openNewConns_loop e n s' = Some (s', [])" for n s' using assms(2) by (cases n) (simp_all add: may_dial_def)
  then have "\<exists>s'. openNewConns e (s\<lparr>reserve := om\<rparr>) = Some (s', [])" by (simp add: openNewConns_def)
  then show ?thesis using assms(1) pr om by (auto simp: addPeer_def AddReturningReplacedPeer_def)
qed

lemma addPeers_idle:
  assumes "\<forall>p \<in> set ps. badPeerIPPort e (IP (piAddr p)) (Port (piAddr p)) \<noteq> None" "\<not> wantConns e"
  shows "\<exists>s' n. addPeers e ps s = Some (s', n, [])"
  using assms(1)
proof (induction ps arbitrary: s)
  case (Cons p ps)
  obtain s1 added where s1: "addPeer e p s = Some (s1, added, [])" using addPeer_idle [OF _ assms(2)] Cons.prems by fastforce
  obtain s' n where "addPeers e ps s1 = Some (s', n, [])" using Cons by fastforce
  then show ?case using s1 by simp
qed simp

lemma announced_idle:
  assumes "badPeerIPPort e (canon_ip (tpIP bp)) (tpPort bp) \<noteq> None" "\<not> wantConns e" "tpIP bp \<noteq> []" "tBaselineProvider s = None"
  shows "\<exists>s'. announced e [] bp s = Some (s', 1, [])"
proof -
  let ?s = "s\<lparr>tBaselineProvider := Some \<lparr>IP = tpIP bp, Port = tpPort bp\<rparr>, reserve := fst (tree_Delete (pool_tree e) (bp_item bp) (reserve s))\<rparr>"
  have "badPeerIPPort e (IP (piAddr (bp_info bp))) (Port (piAddr (bp_info bp))) \<noteq> None" using assms(1) by simp
  from addPeer_idle [OF this assms(2)] obtain s' added where "addPeer e (bp_info bp) ?s = Some (s', added, [])" by blast
  moreover have "AppendFromTracker [] [] = []" by (simp add: AppendFromTracker_def)
  ultimately show ?thesis
    using assms(3,4) by (simp add: announced_def addBaselineProvider_def DeleteBaseLineProvider_def bp_info_def [symmetric] Let_def)
qed

lemma sample_idle: "\<not> wantConns sample_env"
  by (simp add: wantConns_def sample_env_def)


lemma pool_Len_card:
  assumes "pool_law e ok" "ok om"
  shows "pool_Len e om = card (items e om)"
proof -
  have "sorted_wrt (item_less (addrHash e)) (Ascend (pool_tree e) om)" using btree_lawD(1) assms by (auto simp: pool_law_def)
  then have "distinct (Ascend (pool_tree e) om)"
    using key_orderD(1) [OF item_order] by (auto simp: distinct_conv_nth sorted_wrt_iff_nth_less) (metis linorder_neqE_nat)
  then show ?thesis by (simp add: pool_Len_def tree_Len_def items_def distinct_card)
qed

section \<open>The record that was there before\<close>

text \<open>
  C34. A record of the baseline provider that was there before stays.  Suppose the reserve holds an ordinary, untrusted record of a peer
  at the address of the baseline provider when the tracker names it, there is room, and no connection is wanted.  Then the reserve holds both records
  afterwards: the deletion meant to replace the old one looks for an item with the trust and the priority of the new
  one and finds nothing.
\<close>

theorem baseline_provider_duplicate:
  assumes "pool_law e ok" "ok (reserve s)" "\<not> wantConns e" "\<not> tclosed (pool_torrent e)" "pool_Len e (reserve s) < TorrentPeersHighWater e"
    "badPeerIPPort e (canon_ip (tpIP bp)) (tpPort bp) = Some False" "tpIP bp \<noteq> []" "tBaselineProvider s = None"
    "i \<in> set (Ascend (pool_tree e) (reserve s))" "\<not> Trusted (itemPeer i)" "piAddr (itemPeer i) = piAddr (bp_info bp)"
  shows "\<exists>s'. announced e [] bp s = Some (s', 1, []) \<and> {i, bp_item bp} \<subseteq> set (Ascend (pool_tree e) (reserve s'))"
proof -
  let ?s = "s\<lparr>tBaselineProvider := Some \<lparr>IP = tpIP bp, Port = tpPort bp\<rparr>, reserve := fst (tree_Delete (pool_tree e) (bp_item bp) (reserve s))\<rparr>"
  obtain s' where s': "announced e [] bp s = Some (s', 1, [])" using announced_idle [OF _ assms(3,7,8)] assms(6) by auto
  obtain s1 n1 d1 added d2 where a: "addPeers e (AppendFromTracker [] []) ?s = Some (s1, n1, d1)" "addPeer e (bp_info bp) s1 = Some (s', added, d2)"
    by (rule announcedE [OF s' assms(7,8)])
  from a(2) have "{i, bp_item bp} \<subseteq> items e (reserve s')"
  proof (cases rule: addPeerE)
    case ignored
    then show ?thesis using assms(4,6) by simp
  next
    case (added pr om old s2)
    note law = assms(1) [unfolded pool_law_def]
    obtain om0 old0 where d: "tree_Delete (pool_tree e) (bp_item bp) (reserve s) = (om0, old0)" by force
    have s1: "s1 = ?s" "reserve s1 = om0" using a(1) d by (auto simp: AppendFromTracker_def)
    have i: "\<not> same_key (item_less (addrHash e)) (bp_item bp) i"
      using plain_below [of i "bp_item bp" "addrHash e"] assms(10) by (simp add: plain_item_def same_key_def)
    have om0: "ok om0" "items e om0 = {y \<in> items e (reserve s). \<not> same_key (item_less (addrHash e)) (bp_item bp) y}"
      using btree_lawD(5,6) [OF law assms(2) d] by (auto simp: items_def)
    have om: "ok om" "items e om = insert (bp_item bp) {y \<in> items e om0. \<not> same_key (item_less (addrHash e)) (bp_item bp) y}"
      using btree_lawD(2,3) [OF law om0(1)] added(2,3) s1(2) by (auto simp: items_def)
    have "items e om \<subseteq> insert (bp_item bp) (items e (reserve s))" using om(2) om0(2) by auto
    then have "card (items e om) \<le> card (insert (bp_item bp) (items e (reserve s)))" by (intro card_mono) (simp_all add: items_def)
    also have "\<dots> \<le> Suc (card (items e (reserve s)))" by (simp add: card_insert_if items_def)
    finally have "pool_Len e om \<le> TorrentPeersHighWater e"
      using assms(5) pool_Len_card [OF assms(1)] om(1) assms(2) by simp
    moreover have "openNewConns_loop e n s' = Some (s', [])" for n s' using assms(3) by (cases n) (simp_all add: may_dial_def)
    then have "reserve s2 = om" using added(4) by (auto simp: openNewConns_def updateWantPeersEvent_def split: if_splits)
    ultimately have "reserve s' = om" using added(5) by (cases "pool_Len e om") simp_all
    then show ?thesis using om(2) om0(2) i assms(9) by (auto simp: items_def)
  qed
  then show ?thesis using s' by (simp add: items_def)
qed

abbreviation (input) sample_record :: prioritizedPeersItem where
  "sample_record \<equiv> \<lparr>prio = 7, itemPeer = (bp_info sample_bp)\<lparr>Trusted := False, BaselineProvider := False\<rparr>\<rparr>"

theorem baseline_provider_duplicate_witness:
  "\<exists>s'. announced sample_env [] sample_bp (sample_pool\<lparr>reserve := [sample_record]\<rparr>) = Some (s', 1, []) \<and>
     {sample_record, bp_item sample_bp} \<subseteq> set (Ascend (pool_tree sample_env) (reserve s'))"
proof (rule baseline_provider_duplicate [OF sample_pool_law])
  show "\<not> wantConns sample_env" by (rule sample_idle)
  show "badPeerIPPort sample_env (canon_ip (tpIP sample_bp)) (tpPort sample_bp) = Some False"
    by (simp add: badPeerIPPort_def sample_env_def canon_ip_def To16_def)
qed (simp_all add: sample_env_def sample_pool_def sample_torrent_def pool_Len_def tree_Len_def list_btree_def)

end
