(* ===== verification/RequestOrder.thy ===== *)
theory RequestOrder
  imports Pieces PeerPool
begin

text \<open>
  Which requests a connection should have (\<^verbatim>\<open>requesting.go\<close>, \<^verbatim>\<open>request-strategy/order.go\<close>,
  \<^verbatim>\<open>request-strategy/piece-request-order.go\<close>, \<^verbatim>\<open>request-strategy-impls.go\<close>, \<^verbatim>\<open>torrent-piece-request-order.go\<close>): the client keeps the pieces of its
  torrents in an ordered tree, goes through it to find the pieces worth requesting, and picks from them the
  chunks a peer can be asked for.  A baseline provider is only asked for pieces it alone is thought to have.
  The tree is an argument, as in \<^verbatim>\<open>Trees\<close>; \<open>None\<close> is a panic.
\<close>

section \<open>The order of pieces\<close>

record order_key =
  okHash :: bytes
  okIndex :: nat

record order_state =
  osPriority :: nat
  osPartial :: bool
  osAvailability :: int

record order_item =
  oiKey :: order_key
  oiState :: order_state

definition order_tuple :: "order_item \<Rightarrow> int \<times> bool \<times> int \<times> nat \<times> bytes" where
  "order_tuple i = (- int (osPriority (oiState i)), \<not> osPartial (oiState i), osAvailability (oiState i), okIndex (oiKey i), okHash (oiKey i))"

definition pieceOrderLess :: "order_item \<Rightarrow> order_item \<Rightarrow> bool" where
  "pieceOrderLess i j \<longleftrightarrow> order_tuple i < order_tuple j"

record 't piece_order =
  orderTree :: 't
  orderKeys :: "order_key \<rightharpoonup> order_state"

definition btree_Add :: "(order_item, 't) btree_ops \<Rightarrow> order_item \<Rightarrow> 't \<Rightarrow> 't option" where
  "btree_Add B item t = (case ReplaceOrInsert B item t of (t', overwrote) \<Rightarrow> if overwrote \<noteq> None then None else Some t')"

definition btree_Delete :: "(order_item, 't) btree_ops \<Rightarrow> order_item \<Rightarrow> 't \<Rightarrow> 't option" where
  "btree_Delete B item t = (case tree_Delete B item t of (t', deleted) \<Rightarrow> if deleted = None then None else Some t')"

definition order_Add :: "(order_item, 't) btree_ops \<Rightarrow> order_key \<Rightarrow> order_state \<Rightarrow> 't piece_order \<Rightarrow> 't piece_order option" where
  "order_Add B key state me =
     (if orderKeys me key \<noteq> None then None
      else do {
        tree \<leftarrow> btree_Add B \<lparr>oiKey = key, oiState = state\<rparr> (orderTree me);
        Some (me\<lparr>orderTree := tree, orderKeys := (orderKeys me)(key \<mapsto> state)\<rparr>)
      })"

definition order_Update :: "(order_item, 't) btree_ops \<Rightarrow> order_key \<Rightarrow> order_state \<Rightarrow> 't piece_order \<Rightarrow> 't piece_order option" where
  "order_Update B key state me =
     (case orderKeys me key of
        None \<Rightarrow> None
      | Some oldState \<Rightarrow>
          if state = oldState then Some me
          else do {
            tree \<leftarrow> btree_Delete B \<lparr>oiKey = key, oiState = oldState\<rparr> (orderTree me);
            tree \<leftarrow> btree_Add B \<lparr>oiKey = key, oiState = state\<rparr> tree;
            Some (me\<lparr>orderTree := tree, orderKeys := (orderKeys me)(key \<mapsto> state)\<rparr>)
          })"

text \<open>A key that is not there reads as the zero state.\<close>

definition order_Delete :: "(order_item, 't) btree_ops \<Rightarrow> order_key \<Rightarrow> 't piece_order \<Rightarrow> 't piece_order option" where
  "order_Delete B key me =
     (let state = (case orderKeys me key of None \<Rightarrow> \<lparr>osPriority = 0, osPartial = False, osAvailability = 0\<rparr> | Some s \<Rightarrow> s) in
      do {
        tree \<leftarrow> btree_Delete B \<lparr>oiKey = key, oiState = state\<rparr> (orderTree me);
        Some (me\<lparr>orderTree := tree, orderKeys := (orderKeys me)(key := None)\<rparr>)
      })"

definition order_Len :: "'t piece_order \<Rightarrow> nat" where
  "order_Len me = card (dom (orderKeys me))"

section \<open>Pieces worth requesting\<close>

record request_input =
  Capacity :: "int option"
  MaxUnverifiedBytes :: int
  input_PieceLength :: "bytes \<Rightarrow> int option"
  IgnorePiece :: "bytes \<Rightarrow> nat \<Rightarrow> bool"

text \<open>
  The scan: the item before, the capacity left, the bytes of the pieces so far.  The result is the
  items the callback is called with.
\<close>

fun requestable :: "request_input \<Rightarrow> order_item option \<Rightarrow> int option \<Rightarrow> int \<Rightarrow> order_item list \<Rightarrow> order_item list option" where
  "requestable input lastItem storageLeft unverified [] = Some []"
| "requestable input lastItem storageLeft unverified (i # is) =
     (if (case lastItem of None \<Rightarrow> False | Some l \<Rightarrow> pieceOrderLess i l) then None
      else do {
        let ih = okHash (oiKey i);
        len \<leftarrow> input_PieceLength input ih;
        (if (case storageLeft of None \<Rightarrow> False | Some left \<Rightarrow> left < len) then Some []
         else
           let storageLeft = map_option (\<lambda>left. left - len) storageLeft in
           if IgnorePiece input ih (okIndex (oiKey i)) then requestable input (Some i) storageLeft unverified is
           else if MaxUnverifiedBytes input \<noteq> 0 \<and> int64 (unverified + len) > MaxUnverifiedBytes input
             then requestable input (Some i) storageLeft unverified is
           else map_option ((#) i) (requestable input (Some i) storageLeft (int64 (unverified + len)) is))
      })"

definition GetRequestablePieces :: "(order_item, 't) btree_ops \<Rightarrow> request_input \<Rightarrow> 't piece_order \<Rightarrow> order_item list option" where
  "GetRequestablePieces B input pro = requestable input None (Capacity input) 0 (Ascend B (orderTree pro))"

section \<open>A torrent in the order\<close>

definition pieceNumPendingChunks :: "torrent_state \<Rightarrow> nat \<Rightarrow> u32" where
  "pieceNumPendingChunks t piece =
     (if pieceComplete t piece then 0
      else (case info t of None \<Rightarrow> 0 | Some g \<Rightarrow> pieceNumChunks g (int piece)) - word_of_nat (numDirtyChunks t piece))"

definition piecePartiallyDownloaded :: "torrent_state \<Rightarrow> nat \<Rightarrow> bool" where
  "piecePartiallyDownloaded t piece =
     (if pieceComplete t piece then False
      else if pieceAllDirty t piece then False
      else numDirtyChunks t piece \<noteq> 0)"

definition requestStrategyPieceOrderState :: "torrent_state \<Rightarrow> nat \<Rightarrow> order_state" where
  "requestStrategyPieceOrderState t i =
     \<lparr>osPriority = purePriority t i, osPartial = piecePartiallyDownloaded t i, osAvailability = availability t i\<rparr>"

definition ignorePieceForRequests :: "torrent_state \<Rightarrow> nat \<Rightarrow> bool" where
  "ignorePieceForRequests t i \<longleftrightarrow> \<not> wantPieceIndex t i"

definition torrent_IgnorePiece :: "torrent_state \<Rightarrow> nat \<Rightarrow> bool" where
  "torrent_IgnorePiece t i =
     (if ignorePieceForRequests t i then True
      else if pieceNumPendingChunks t i = 0 then True
      else False)"

text \<open>The client's torrents by info hash, the storage capacity and the limit on unverified bytes.\<close>

definition requestStrategyInput :: "(bytes \<Rightarrow> torrent_state) \<Rightarrow> int option \<Rightarrow> int \<Rightarrow> request_input" where
  "requestStrategyInput torrents cap maxUnverified =
     \<lparr>Capacity = cap, MaxUnverifiedBytes = maxUnverified,
      input_PieceLength = (\<lambda>ih. map_option PieceLength (info (torrents ih))), IgnorePiece = (\<lambda>ih. torrent_IgnorePiece (torrents ih))\<rparr>"

definition updatePieceRequestOrder ::
  "(order_item, 't) btree_ops \<Rightarrow> bytes \<Rightarrow> torrent_state \<Rightarrow> nat \<Rightarrow> 't piece_order \<Rightarrow> 't piece_order option" where
  "updatePieceRequestOrder B ih t i pro =
     (if \<not> storageOpen t then Some pro
      else order_Update B \<lparr>okHash = ih, okIndex = i\<rparr> (requestStrategyPieceOrderState t i) pro)"

definition addRequestOrderPiece ::
  "(order_item, 't) btree_ops \<Rightarrow> bytes \<Rightarrow> torrent_state \<Rightarrow> nat \<Rightarrow> 't piece_order \<Rightarrow> 't piece_order option" where
  "addRequestOrderPiece B ih t i pro =
     (if \<not> storageOpen t then Some pro
      else order_Add B \<lparr>okHash = ih, okIndex = i\<rparr> (requestStrategyPieceOrderState t i) pro)"

fun order_deletes :: "(order_item, 't) btree_ops \<Rightarrow> bytes \<Rightarrow> nat list \<Rightarrow> 't piece_order \<Rightarrow> 't piece_order option" where
  "order_deletes B ih [] pro = Some pro"
| "order_deletes B ih (i # is) pro = do { pro \<leftarrow> order_Delete B \<lparr>okHash = ih, okIndex = i\<rparr> pro; order_deletes B ih is pro }"

text \<open>An order left empty is dropped: \<open>None\<close> inside.\<close>

definition deletePieceRequestOrder ::
  "(order_item, 't) btree_ops \<Rightarrow> bytes \<Rightarrow> torrent_state \<Rightarrow> 't piece_order \<Rightarrow> 't piece_order option option" where
  "deletePieceRequestOrder B ih t pro =
     (if \<not> storageOpen t then Some (Some pro)
      else map_option (\<lambda>pro. if order_Len pro = 0 then None else Some pro) (order_deletes B ih [0..<numPieces t] pro))"

section \<open>The requests a connection should have\<close>

definition isBaselineProvider :: "ip_port option \<Rightarrow> ip_port \<Rightarrow> bool" where
  "isBaselineProvider bp remote =
     (case bp of
        None \<Rightarrow> False
      | Some b \<Rightarrow>
          if IP remote = [] then False
          else IP_Equal (IP remote) (IP b) \<and> (word_of_int (Port remote) :: u16) = word_of_int (Port b))"

definition undirtiedRequests :: "torrent_state \<Rightarrow> nat \<Rightarrow> u32 list" where
  "undirtiedRequests t piece =
     (case info t of
        None \<Rightarrow> []
      | Some g \<Rightarrow> iterBitmapUnsetInRange (dirtyChunks t) (pieceRequestIndexOffset g (int piece))
          (pieceRequestIndexOffset g (int piece) + pieceNumChunks g (int piece)))"

text \<open>Whether a chunk of an item's piece goes on the heap.\<close>

definition desires :: "bool \<Rightarrow> peer_id \<Rightarrow> torrent_state \<Rightarrow> order_item \<Rightarrow> u32 \<Rightarrow> bool" where
  "desires baseline p t i r =
     (let cn = peers t p in
      if okIndex (oiKey i) \<notin> peerAllowedFast cn \<and> peerChoking cn \<and> \<not> Contains (Requests cn) r then False
      else if r \<in> Cancelled cn then False
      else if baseline \<and> osAvailability (oiState i) > 1 then False
      else True)"

fun desired_loop :: "bool \<Rightarrow> bytes \<Rightarrow> peer_id \<Rightarrow> torrent_state \<Rightarrow> order_item list \<Rightarrow> desired_requests \<Rightarrow> desired_requests option" where
  "desired_loop baseline ih p t [] d = Some d"
| "desired_loop baseline ih p t (i # is) d =
     (let piece = okIndex (oiKey i) in
      if okHash (oiKey i) \<noteq> ih then desired_loop baseline ih p t is d
      else if \<not> peerHasPiece t p piece then desired_loop baseline ih p t is d
      else if piece \<ge> numPieces t then None
      else
        let rs = undirtiedRequests t piece in
        desired_loop baseline ih p t is
          \<lparr>dRequests = dRequests d @ filter (desires baseline p t i) rs,
           dInterested = (dInterested d \<or> piece \<notin> peerAllowedFast (peers t p) \<and> rs \<noteq> [])\<rparr>)"

definition getDesiredRequestState ::
  "(order_item, 't) btree_ops \<Rightarrow> request_input \<Rightarrow> 't piece_order \<Rightarrow> bool \<Rightarrow> bytes \<Rightarrow> peer_id \<Rightarrow> torrent_state \<Rightarrow> desired_requests option" where
  "getDesiredRequestState B input pro baseline ih p t =
     (let none = \<lparr>dRequests = [], dInterested = False\<rparr> in
      if \<not> haveInfo t then Some none
      else if tclosed t then Some none
      else do { is \<leftarrow> GetRequestablePieces B input pro; desired_loop baseline ih p t is none })"

text \<open>Times are nanoseconds; an update that never happened is longer ago than the timer.\<close>

abbreviation (input) updateRequestsTimerDuration :: int where "updateRequestsTimerDuration \<equiv> 3 * 10 ^ 9"

definition maybeUpdateActualRequestState ::
  "heap_pop \<Rightarrow> (order_item, 't) btree_ops \<Rightarrow> request_input \<Rightarrow> 't piece_order \<Rightarrow> bool \<Rightarrow> bytes \<Rightarrow> peer_id \<Rightarrow> torrent_state \<Rightarrow> torrent_state option" where
  "maybeUpdateActualRequestState pop B input pro baseline ih p t =
     (if closed (peers t p) then Some t
      else if needRequestUpdate (peers t p) = [] then Some t
      else if needRequestUpdate (peers t p) = peerUpdateRequestsTimerReason \<and>
          (case lastRequestUpdate (peers t p) of None \<Rightarrow> False | Some l \<Rightarrow> now t - l < updateRequestsTimerDuration) then None
      else do {
        next \<leftarrow> getDesiredRequestState B input pro baseline ih p t;
        applyRequestState pop p next t
      })"

section \<open>The order is the map of its keys\<close>

definition order_graph :: "(order_key \<rightharpoonup> order_state) \<Rightarrow> order_item set" where
  "order_graph m = {\<lparr>oiKey = k, oiState = s\<rparr> | k s. m k = Some s}"

definition order_inv :: "('t \<Rightarrow> bool) \<Rightarrow> (order_item, 't) btree_ops \<Rightarrow> 't piece_order \<Rightarrow> bool" where
  "order_inv ok B pro \<longleftrightarrow> ok (orderTree pro) \<and> set (Ascend B (orderTree pro)) = order_graph (orderKeys pro)"

lemma in_graph [simp]: "i \<in> order_graph m \<longleftrightarrow> m (oiKey i) = Some (oiState i)"
  by (cases i) (auto simp: order_graph_def)

lemma item_eq: "i = \<lparr>oiKey = k, oiState = s\<rparr> \<longleftrightarrow> oiKey i = k \<and> oiState i = s"
  by (cases i) auto

lemma piece_order_order: "key_order pieceOrderLess"
  using key_order_by [of order_tuple] by (simp add: pieceOrderLess_def [abs_def])

lemma same_piece_order [simp]: "same_key pieceOrderLess i j \<longleftrightarrow> i = j"
proof
  assume "same_key pieceOrderLess i j"
  then have "order_tuple i = order_tuple j" by (auto simp: same_key_def pieceOrderLess_def)
  then show "i = j" by (cases i; cases j) (simp add: order_tuple_def)
qed (simp add: same_key_def pieceOrderLess_def)

lemma btree_Add_ok:
  assumes "btree_law pieceOrderLess ok B" "ok t" "i \<notin> set (Ascend B t)"
  shows "\<exists>t'. btree_Add B i t = Some t' \<and> ok t' \<and> set (Ascend B t') = insert i (set (Ascend B t))"
proof -
  obtain t' old where r: "ReplaceOrInsert B i t = (t', old)" by force
  note l = btree_lawD(2-4) [OF assms(1,2) r]
  have "old = None" using l(3) assms(3) by (auto simp: find_None_iff)
  then show ?thesis using l(1,2) r assms(3) by (auto simp: btree_Add_def)
qed

lemma btree_Delete_ok:
  assumes "btree_law pieceOrderLess ok B" "ok t" "i \<in> set (Ascend B t)"
  shows "\<exists>t'. btree_Delete B i t = Some t' \<and> ok t' \<and> set (Ascend B t') = set (Ascend B t) - {i}"
proof -
  obtain t' old where r: "tree_Delete B i t = (t', old)" by force
  note l = btree_lawD(5-7) [OF assms(1,2) r]
  have "old \<noteq> None" using l(3) assms(3) by (auto simp: find_None_iff)
  then show ?thesis using l(1,2) r by (auto simp: btree_Delete_def)
qed

datatype order_op = OAdd order_key order_state | OUpdate order_key order_state | ODelete order_key

fun order_exec :: "(order_item, 't) btree_ops \<Rightarrow> order_op \<Rightarrow> 't piece_order \<Rightarrow> 't piece_order option" where
  "order_exec B (OAdd k s) pro = order_Add B k s pro"
| "order_exec B (OUpdate k s) pro = order_Update B k s pro"
| "order_exec B (ODelete k) pro = order_Delete B k pro"

text \<open>What the operations mean, and when they are allowed.\<close>

fun order_spec :: "order_op \<Rightarrow> (order_key \<rightharpoonup> order_state) \<Rightarrow> (order_key \<rightharpoonup> order_state) option" where
  "order_spec (OAdd k s) m = (if m k = None then Some (m(k \<mapsto> s)) else None)"
| "order_spec (OUpdate k s) m = (if m k \<noteq> None then Some (m(k \<mapsto> s)) else None)"
| "order_spec (ODelete k) m = (if m k \<noteq> None then Some (m(k := None)) else None)"

lemma order_Add_ok:
  assumes "btree_law pieceOrderLess ok B" "order_inv ok B pro" "orderKeys pro k = None"
  shows "\<exists>pro'. order_Add B k s pro = Some pro' \<and> order_inv ok B pro' \<and> orderKeys pro' = (orderKeys pro)(k \<mapsto> s)"
proof -
  have "\<lparr>oiKey = k, oiState = s\<rparr> \<notin> set (Ascend B (orderTree pro))" using assms(2,3) by (simp add: order_inv_def)
  from btree_Add_ok [OF assms(1) _ this] obtain t' where t': "btree_Add B \<lparr>oiKey = k, oiState = s\<rparr> (orderTree pro) = Some t'" "ok t'"
    "set (Ascend B t') = insert \<lparr>oiKey = k, oiState = s\<rparr> (order_graph (orderKeys pro))"
    using assms(2) by (auto simp: order_inv_def)
  have "insert \<lparr>oiKey = k, oiState = s\<rparr> (order_graph (orderKeys pro)) = order_graph ((orderKeys pro)(k \<mapsto> s))"
    using assms(3) by (intro set_eqI) (auto simp: item_eq)
  then show ?thesis using t' assms(3) by (simp add: order_Add_def order_inv_def)
qed

lemma order_Delete_ok:
  assumes "btree_law pieceOrderLess ok B" "order_inv ok B pro" "orderKeys pro k = Some s"
  shows "\<exists>t'. btree_Delete B \<lparr>oiKey = k, oiState = s\<rparr> (orderTree pro) = Some t' \<and>
    order_inv ok B (pro\<lparr>orderTree := t', orderKeys := (orderKeys pro)(k := None)\<rparr>)"
proof -
  have "\<lparr>oiKey = k, oiState = s\<rparr> \<in> set (Ascend B (orderTree pro))" using assms(2,3) by (simp add: order_inv_def)
  from btree_Delete_ok [OF assms(1) _ this] obtain t' where t': "btree_Delete B \<lparr>oiKey = k, oiState = s\<rparr> (orderTree pro) = Some t'" "ok t'"
    "set (Ascend B t') = order_graph (orderKeys pro) - {\<lparr>oiKey = k, oiState = s\<rparr>}"
    using assms(2) by (auto simp: order_inv_def)
  have "order_graph (orderKeys pro) - {\<lparr>oiKey = k, oiState = s\<rparr>} = order_graph ((orderKeys pro)(k := None))"
    using assms(3) by (intro set_eqI) (auto simp: item_eq)
  then show ?thesis using t' by (simp add: order_inv_def)
qed

lemma order_exec_refines:
  assumes "btree_law pieceOrderLess ok B" "order_inv ok B pro" "order_spec oper (orderKeys pro) = Some m"
  shows "\<exists>pro'. order_exec B oper pro = Some pro' \<and> order_inv ok B pro' \<and> orderKeys pro' = m"
proof (cases oper)
  case (OAdd k s)
  then show ?thesis using order_Add_ok [OF assms(1,2)] assms(3) by (auto split: if_splits)
next
  case (ODelete k)
  then obtain s where s: "orderKeys pro k = Some s" using assms(3) by (auto split: if_splits)
  show ?thesis using order_Delete_ok [OF assms(1,2) s] assms(3) ODelete s by (auto simp: order_Delete_def)
next
  case (OUpdate k s')
  then obtain s where s: "orderKeys pro k = Some s" "m = (orderKeys pro)(k \<mapsto> s')" using assms(3) by (auto split: if_splits)
  show ?thesis
  proof (cases "s' = s")
    case True
    then show ?thesis using OUpdate s assms(2) by (auto simp: order_Update_def fun_upd_idem)
  next
    case False
    obtain t' where t': "btree_Delete B \<lparr>oiKey = k, oiState = s\<rparr> (orderTree pro) = Some t'"
      "order_inv ok B (pro\<lparr>orderTree := t', orderKeys := (orderKeys pro)(k := None)\<rparr>)"
      using order_Delete_ok [OF assms(1,2) s(1)] by blast
    from order_Add_ok [OF assms(1) t'(2), of k s'] obtain t'' where "btree_Add B \<lparr>oiKey = k, oiState = s'\<rparr> t' = Some t''"
      "order_inv ok B (pro\<lparr>orderTree := t'', orderKeys := (orderKeys pro)(k \<mapsto> s')\<rparr>)"
      by (auto simp: order_Add_def bind_eq_Some_conv)
    then show ?thesis using OUpdate s False t'(1) by (auto simp: order_Update_def)
  qed
qed

fun order_execs :: "(order_item, 't) btree_ops \<Rightarrow> order_op list \<Rightarrow> 't piece_order \<Rightarrow> 't piece_order option" where
  "order_execs B [] pro = Some pro"
| "order_execs B (oper # opers) pro = do { pro \<leftarrow> order_exec B oper pro; order_execs B opers pro }"

fun order_specs :: "order_op list \<Rightarrow> (order_key \<rightharpoonup> order_state) \<Rightarrow> (order_key \<rightharpoonup> order_state) option" where
  "order_specs [] m = Some m"
| "order_specs (oper # opers) m = do { m \<leftarrow> order_spec oper m; order_specs opers m }"

lemma order_execs_refines:
  assumes "btree_law pieceOrderLess ok B" "order_inv ok B pro" "order_specs opers (orderKeys pro) = Some m"
  shows "\<exists>pro'. order_execs B opers pro = Some pro' \<and> order_inv ok B pro' \<and> orderKeys pro' = m"
  using assms(2,3)
proof (induction opers arbitrary: pro)
  case (Cons oper opers)
  then obtain m1 where m1: "order_spec oper (orderKeys pro) = Some m1" "order_specs opers m1 = Some m" by (auto simp: bind_eq_Some_conv)
  obtain pro1 where "order_exec B oper pro = Some pro1" "order_inv ok B pro1" "orderKeys pro1 = m1"
    using order_exec_refines [OF assms(1) Cons.prems(1) m1(1)] by blast
  then show ?case using Cons.IH m1(2) by auto
qed simp


definition sample_order :: "order_item list piece_order" where
  "sample_order = \<lparr>orderTree = [], orderKeys = Map.empty\<rparr>"

lemma sample_order_inv: "order_inv (sorted_wrt pieceOrderLess) (list_btree pieceOrderLess) sample_order"
  by (simp add: order_inv_def sample_order_def order_graph_def list_btree_def)


section \<open>Desired requests can be made\<close>

lemma requestable_Cons:
  assumes "requestable input l left u (i # is) = Some ys"
  obtains (stop) "ys = []"
  | (skip) left' u' where "requestable input (Some i) left' u' is = Some ys"
  | (take) left' u' zs where "\<not> IgnorePiece input (okHash (oiKey i)) (okIndex (oiKey i))" "requestable input (Some i) left' u' is = Some zs" "ys = i # zs"
  using assms by (auto simp: bind_eq_Some_conv Let_def split: if_splits)

lemma requestable_sub:
  "requestable input l left u xs = Some ys \<Longrightarrow> set ys \<subseteq> set xs \<and> (\<forall>i \<in> set ys. \<not> IgnorePiece input (okHash (oiKey i)) (okIndex (oiKey i)))"
proof (induction xs arbitrary: l left u ys)
  case (Cons i "is")
  from Cons.prems show ?case
  proof (cases rule: requestable_Cons)
    case (skip left' u')
    then show ?thesis using Cons.IH [OF skip] by auto
  next
    case (take left' u' zs)
    then show ?thesis using Cons.IH [OF take(2)] by auto
  qed simp
qed simp

lemma requestable_total:
  "sorted_wrt pieceOrderLess xs \<Longrightarrow> \<forall>x \<in> set xs. input_PieceLength input (okHash (oiKey x)) \<noteq> None \<Longrightarrow>
   \<forall>x \<in> set xs. \<forall>y. l = Some y \<longrightarrow> pieceOrderLess y x \<Longrightarrow> requestable input l left u xs \<noteq> None"
proof (induction xs arbitrary: l left u)
  case (Cons x xs)
  have "\<not> pieceOrderLess x y" if "l = Some y" for y
    using Cons.prems(3) that key_orderD(1) [OF piece_order_order, of y] key_orderD(2) [OF piece_order_order, of y x y] by auto
  then have l: "\<not> (case l of None \<Rightarrow> False | Some y \<Rightarrow> pieceOrderLess x y)" by (cases l) simp_all
  have r: "\<exists>zs. requestable input (Some x) left' u' xs = Some zs" for left' u'
    using Cons.IH [of "Some x" left' u'] Cons.prems by auto
  obtain len where "input_PieceLength input (okHash (oiKey x)) = Some len" using Cons.prems(2) by auto
  then show ?case using l r by (simp add: Let_def)
qed simp

lemma undirtied_chunks:
  assumes "info t = Some g" "valid_geom g" "i < NumPieces g"
  shows "r \<in> set (undirtiedRequests t i) \<longleftrightarrow> r \<notin> dirtyChunks t \<and> (\<exists>k. is_chunk g (int i) k \<and> r = ri_of g (int i) k)"
proof -
  let ?C = "chunks_of g (PieceLength g)" and ?n = "chunks_of g (piece_len g (int i))"
  have C: "0 < ?C" using assms(2) by (intro chunks_of_pos) (auto dest: valid_geomD)
  have n: "?n \<le> ?C" by (intro chunks_of_mono piece_len_bounds assms)
  have "(int i + 1) * ?C \<le> int (NumPieces g) * ?C" using assms(3) C by (intro mult_right_mono) auto
  then have b: "int i * ?C + ?C < 2 ^ 32" using valid_geomD(5) [OF assms(2)] by (simp add: algebra_simps)
  have i: "uint (word_of_int (int i) :: u32) = int i"
    using mult_left_mono [of 1 ?C "int i"] C b by (intro uint_of_int32) linarith+
  let ?s = "pieceRequestIndexOffset g (int i)" and ?e = "pieceRequestIndexOffset g (int i) + pieceNumChunks g (int i)"
  have s: "uint ?s = int i * ?C"
    unfolding pieceRequestIndexOffset_def using b C i by (subst uint_mult32) (simp_all add: uint_chunksPerRegularPiece [OF assms(2)])
  have e: "uint ?e = int i * ?C + ?n"
    using s n b by (subst uint_add32) (simp_all add: uint_pieceNumChunks [OF assms(2)])
  have "(?s \<le> r \<and> r < ?e) \<longleftrightarrow> (\<exists>k. is_chunk g (int i) k \<and> r = ri_of g (int i) k)"
  proof
    assume "?s \<le> r \<and> r < ?e"
    then have "int i * ?C \<le> uint r" "uint r < int i * ?C + ?n" using s e by (simp_all add: word_le_def word_less_def)
    then have "is_chunk g (int i) (uint r - int i * ?C)" "r = ri_of g (int i) (uint r - int i * ?C)"
      using assms(3) by (simp_all add: is_chunk_def ri_of_def)
    then show "\<exists>k. is_chunk g (int i) k \<and> r = ri_of g (int i) k" by blast
  next
    assume "\<exists>k. is_chunk g (int i) k \<and> r = ri_of g (int i) k"
    then obtain k where k: "is_chunk g (int i) k" "r = ri_of g (int i) k" by blast
    then have "uint r = int i * ?C + k" "0 \<le> k" "k < ?n" using uint_ri_of [OF assms(2)] by (simp_all add: is_chunk_def)
    then show "?s \<le> r \<and> r < ?e" using s e by (simp add: word_le_def word_less_def)
  qed
  moreover have "r \<in> set (undirtiedRequests t i) \<longleftrightarrow> r \<notin> dirtyChunks t \<and> ?s \<le> r \<and> r < ?e"
    using assms(1) by (simp add: undirtiedRequests_def iterBitmapUnset_eq set_u32_range conj_commute)
  ultimately show ?thesis by metis
qed

text \<open>The item is one the loop looks at, and the chunk one it puts on the heap.\<close>

definition desired_by :: "bool \<Rightarrow> bytes \<Rightarrow> peer_id \<Rightarrow> torrent_state \<Rightarrow> order_item \<Rightarrow> u32 \<Rightarrow> bool" where
  "desired_by baseline ih p t i r \<longleftrightarrow> okHash (oiKey i) = ih \<and> peerHasPiece t p (okIndex (oiKey i)) \<and>
     r \<in> set (undirtiedRequests t (okIndex (oiKey i))) \<and> desires baseline p t i r"

lemma desired_loop_set:
  "desired_loop baseline ih p t is d = Some d' \<Longrightarrow> set (dRequests d') = set (dRequests d) \<union> {r. \<exists>i \<in> set is. desired_by baseline ih p t i r}"
proof (induction "is" arbitrary: d)
  case (Cons i "is")
  show ?case
  proof (cases "okHash (oiKey i) = ih \<and> peerHasPiece t p (okIndex (oiKey i))")
    case True
    then have "desired_loop baseline ih p t is
        \<lparr>dRequests = dRequests d @ filter (desires baseline p t i) (undirtiedRequests t (okIndex (oiKey i))),
         dInterested = (dInterested d \<or> okIndex (oiKey i) \<notin> peerAllowedFast (peers t p) \<and> undirtiedRequests t (okIndex (oiKey i)) \<noteq> [])\<rparr> = Some d'"
      using Cons.prems by (auto simp: Let_def split: if_splits)
    from Cons.IH [OF this] True show ?thesis by (auto simp: desired_by_def)
  next
    case False
    then have "desired_loop baseline ih p t is d = Some d'" using Cons.prems by (auto simp: Let_def split: if_splits)
    from Cons.IH [OF this] False show ?thesis by (auto simp: desired_by_def)
  qed
qed simp

lemma desired_loop_total:
  "\<forall>i \<in> set is. okHash (oiKey i) = ih \<longrightarrow> okIndex (oiKey i) < numPieces t \<Longrightarrow> \<exists>d'. desired_loop baseline ih p t is d = Some d'"
proof (induction "is" arbitrary: d)
  case (Cons i "is")
  then show ?case by (simp add: Let_def not_le [symmetric])
qed simp

definition order_for :: "(bytes \<Rightarrow> torrent_state) \<Rightarrow> (order_key \<rightharpoonup> order_state) \<Rightarrow> bool" where
  "order_for torrents m \<longleftrightarrow> (\<forall>k s. m k = Some s \<longrightarrow> haveInfo (torrents (okHash k)) \<and> okIndex k < numPieces (torrents (okHash k)))"

lemma piece_of_chunk:
  assumes "info t = Some g" "valid_geom g" "is_chunk g (int i) k"
  shows "pieceIndexOfRequestIndex g (ri_of g (int i) k) = int i" "chunksPerRegularPiece g \<noteq> 0" "piece_of_index t (ri_of g (int i) k) = Some i"
proof -
  show c: "chunksPerRegularPiece g \<noteq> 0"
    using uint_chunksPerRegularPiece [OF assms(2)] chunks_of_pos [OF assms(2) valid_geomD(1) [OF assms(2)]] by auto
  show pi: "pieceIndexOfRequestIndex g (ri_of g (int i) k) = int i" by (rule ri_of_parts(1) [OF assms(2,3)])
  then show "piece_of_index t (ri_of g (int i) k) = Some i"
    using c assms(1) by (simp add: piece_of_index_def chunksPerPiece_def pieceIndexOfRequestIndex_def unat_eq_nat_uint)
qed

lemma shouldRequest_wanted:
  assumes "pipe_inv m t" "info t = Some g" "valid_geom g" "i < NumPieces g" "wantPieceIndex t i" "peerHasPiece t p i"
    "p \<in> set (conns t)" "\<not> closed (peers t p)" "is_chunk g (int i) k" "r = ri_of g (int i) k"
    "i \<in> peerAllowedFast (peers t p) \<or> \<not> peerChoking (peers t p) \<or> Contains (Requests (peers t p)) r" "r \<notin> Cancelled (peers t p)"
  shows "shouldRequest t p r = Some None"
proof -
  note c = piece_of_chunk [OF assms(2,3,9), folded assms(10)]
  have "request_of_index t r = Some (requestIndexToRequest g r)" using assms(2,4) c by (simp add: request_of_index_def)
  moreover have "checkValidReceiveChunk (Some g) (requestIndexToRequest g r) = None"
    using request_index_valid [OF assms(3) ri_of_less [OF assms(3,9)]] assms(10) by (simp add: Let_def)
  moreover have "i \<notin> hashing t" "i \<notin> piecesQueuedForHash t"
    using assms(1,5) by (auto simp: pipe_but_def pending_but_def wantPieceIndex_def uncachedPriority_def split: if_splits)
  ultimately show ?thesis using c(3) assms(2,6-8,11,12) by (auto simp: shouldRequest_def Let_def peerIsActive_def)
qed

text \<open>A chunk the connection may be asked for, and what the order said of its piece.\<close>

definition good_request :: "bool \<Rightarrow> bytes \<Rightarrow> (order_key \<rightharpoonup> order_state) \<Rightarrow> peer_id \<Rightarrow> torrent_state \<Rightarrow> u32 \<Rightarrow> bool" where
  "good_request baseline ih m p t r \<longleftrightarrow> (\<exists>i s. piece_of_index t r = Some i \<and> i < numPieces t \<and> wantPieceIndex t i \<and> peerHasPiece t p i \<and>
     r \<notin> dirtyChunks t \<and> m \<lparr>okHash = ih, okIndex = i\<rparr> = Some s \<and> (baseline \<longrightarrow> osAvailability s \<le> 1))"

lemma desired_by_ready:
  assumes "pipe_inv m t" "info t = Some g" "valid_geom g" "p \<in> set (conns t)" "\<not> closed (peers t p)"
    "desired_by baseline ih p t i r" "okIndex (oiKey i) < NumPieces g" "wantPieceIndex t (okIndex (oiKey i))" "keys (oiKey i) = Some (oiState i)"
  shows "shouldRequest t p r = Some None \<and> good_request baseline ih keys p t r"
proof -
  let ?i = "okIndex (oiKey i)"
  obtain k where k: "r \<notin> dirtyChunks t" "is_chunk g (int ?i) k" "r = ri_of g (int ?i) k"
    using undirtied_chunks [OF assms(2,3,7)] assms(6) by (auto simp: desired_by_def)
  have ok: "?i \<in> peerAllowedFast (peers t p) \<or> \<not> peerChoking (peers t p) \<or> Contains (Requests (peers t p)) r" "r \<notin> Cancelled (peers t p)"
    "baseline \<longrightarrow> osAvailability (oiState i) \<le> 1" "peerHasPiece t p ?i" "okHash (oiKey i) = ih"
    using assms(6) by (auto simp: desired_by_def desires_def Let_def split: if_splits)
  have "oiKey i = \<lparr>okHash = ih, okIndex = ?i\<rparr>" using ok(5) by (cases "oiKey i") simp
  then have "keys \<lparr>okHash = ih, okIndex = ?i\<rparr> = Some (oiState i)" using assms(9) by simp
  moreover have "piece_of_index t r = Some ?i" using piece_of_chunk(3) [OF assms(2,3) k(2)] k(3) by simp
  moreover have "?i < numPieces t" using assms(2,7) by (simp add: numPieces_def)
  ultimately have "good_request baseline ih keys p t r"
    unfolding good_request_def using assms(8) ok k(1) by (intro exI [of _ ?i] exI [of _ "oiState i"]) simp
  then show ?thesis using shouldRequest_wanted [OF assms(1-3,7,8) ok(4) assms(4,5) k(2,3) ok(1,2)] by simp
qed

lemma desired_ready:
  assumes "btree_law pieceOrderLess ok B" "order_inv ok B pro" "order_for torrents (orderKeys pro)" "torrents ih = t"
    "pipe_inv m t" "info t = Some g" "valid_geom g" "p \<in> set (conns t)" "\<not> closed (peers t p)"
  shows "\<exists>d. getDesiredRequestState B (requestStrategyInput torrents cap maxU) pro baseline ih p t = Some d \<and>
    (\<forall>r \<in> set (dRequests d). shouldRequest t p r = Some None \<and> good_request baseline ih (orderKeys pro) p t r)"
proof (cases "tclosed t")
  case True
  then show ?thesis using assms(6) by (simp add: getDesiredRequestState_def haveInfo_def Let_def)
next
  case False
  let ?xs = "Ascend B (orderTree pro)" and ?input = "requestStrategyInput torrents cap maxU"
  have xs: "set ?xs = order_graph (orderKeys pro)" "sorted_wrt pieceOrderLess ?xs"
    using assms(2) btree_lawD(1) [OF assms(1)] by (auto simp: order_inv_def)
  have "\<forall>x \<in> set ?xs. input_PieceLength ?input (okHash (oiKey x)) \<noteq> None"
    using xs(1) assms(3) by (auto simp: requestStrategyInput_def order_for_def haveInfo_def)
  then obtain ys where ys: "GetRequestablePieces B ?input pro = Some ys"
    using requestable_total [OF xs(2), of ?input None "Capacity ?input" 0] by (auto simp: GetRequestablePieces_def)
  then have sub: "set ys \<subseteq> set ?xs" "\<And>i. i \<in> set ys \<Longrightarrow> \<not> IgnorePiece ?input (okHash (oiKey i)) (okIndex (oiKey i))"
    using requestable_sub by (auto simp: GetRequestablePieces_def)
  have idx: "okIndex (oiKey i) < numPieces t" if "i \<in> set ys" "okHash (oiKey i) = ih" for i
    using that sub(1) xs(1) assms(3,4) by (auto simp: order_for_def)
  obtain d where d: "desired_loop baseline ih p t ys \<lparr>dRequests = [], dInterested = False\<rparr> = Some d"
    using desired_loop_total idx by blast
  have "shouldRequest t p r = Some None \<and> good_request baseline ih (orderKeys pro) p t r" if r: "r \<in> set (dRequests d)" for r
  proof -
    obtain i where i: "i \<in> set ys" "desired_by baseline ih p t i r" using desired_loop_set [OF d] r by auto
    have ih: "okHash (oiKey i) = ih" using i(2) by (simp add: desired_by_def)
    have "okIndex (oiKey i) < NumPieces g" using idx [OF i(1) ih] assms(6) by (simp add: numPieces_def)
    moreover have "wantPieceIndex t (okIndex (oiKey i))"
      using sub(2) [OF i(1)] ih assms(4) by (auto simp: requestStrategyInput_def torrent_IgnorePiece_def ignorePieceForRequests_def split: if_splits)
    moreover have "orderKeys pro (oiKey i) = Some (oiState i)" using i(1) sub(1) xs(1) by auto
    ultimately show ?thesis by (rule desired_by_ready [OF assms(5-9) i(2)])
  qed
  then show ?thesis using False ys d assms(6) by (simp add: getDesiredRequestState_def haveInfo_def Let_def)
qed

lemma updating_requests:
  assumes "heap_law pop" "btree_law pieceOrderLess ok B" "order_inv ok B pro" "order_for torrents (orderKeys pro)" "torrents ih = t"
    "pipe_inv m t" "info t = Some g" "valid_geom g" "p \<in> set (conns t)" "\<not> closed (peers t p)"
    "length (writeBuffer (peers t p)) \<le> writeBufferLowWaterLen"
    "IsEmpty (Requests (peers t p)) \<or> needRequestUpdate (peers t p) = peerUpdateRequestsTimerReason"
    "needRequestUpdate (peers t p) = peerUpdateRequestsTimerReason \<longrightarrow>
      (\<forall>l. lastRequestUpdate (peers t p) = Some l \<longrightarrow> now t - l \<ge> updateRequestsTimerDuration)"
  shows "\<exists>t'. maybeUpdateActualRequestState pop B (requestStrategyInput torrents cap maxU) pro baseline ih p t = Some t' \<and> req_inv t' \<and>
    set (Iterate (Requests (peers t' p))) \<subseteq>
      set (Iterate (Requests (peers t p))) \<union> {r. good_request baseline ih (orderKeys pro) p t r}"
proof -
  have inv: "req_inv t" using assms(6) by (simp add: pipe_but_def swarm_inv_def)
  show ?thesis
  proof (cases "needRequestUpdate (peers t p) = []")
    case True
    then show ?thesis using inv assms(10) by (simp add: maybeUpdateActualRequestState_def)
  next
    case False
    obtain d where d: "getDesiredRequestState B (requestStrategyInput torrents cap maxU) pro baseline ih p t = Some d"
      "\<forall>r \<in> set (dRequests d). shouldRequest t p r = Some None \<and> good_request baseline ih (orderKeys pro) p t r"
      using desired_ready [OF assms(2-10)] by blast
    obtain t' where t': "applyRequestState pop p d t = Some t'" "req_inv t'"
      "set (Iterate (Requests (peers t' p))) \<subseteq> set (Iterate (Requests (peers t p))) \<union> set (dRequests d)"
      using applyRequestState_ready [OF assms(1) inv assms(11,12), of d] d(2) by blast
    have "\<not> (case lastRequestUpdate (peers t p) of None \<Rightarrow> False | Some l \<Rightarrow> now t - l < updateRequestsTimerDuration)"
      if "needRequestUpdate (peers t p) = peerUpdateRequestsTimerReason"
      using that assms(13) by (auto split: option.splits)
    then have "maybeUpdateActualRequestState pop B (requestStrategyInput torrents cap maxU) pro baseline ih p t = Some t'"
      using False assms(10) d(1) t'(1) by (simp add: maybeUpdateActualRequestState_def)
    then show ?thesis using t'(2,3) d(2) by blast
  qed
qed


lemma pipe_updateRequests: "pipe_inv m t \<Longrightarrow> pipe_inv m (updateRequests p reason t)"
  using pipe_but_same [of "{}" m t "updateRequests p reason t" "{}"] same_swarm_inv [OF same_swarm_updateRequests]
    same_stage_frame [OF peer_frame_updateRequests] pending_but_frame [OF peer_frame_updateRequests]
  by (auto simp: pipe_but_def)

abbreviation (input) sample_waking :: torrent_state where
  "sample_waking \<equiv> updateRequests 0 ''have'' sample_wanted"

lemma sample_waking_fields:
  "info sample_waking = Some sample_geom" "conns sample_waking = [0, 1]" "peers sample_waking 0 = sample_peer\<lparr>needRequestUpdate := ''have''\<rparr>"
  using peer_frame_fields(1) [OF peer_frame_updateRequests, of 0 "''have''" sample_wanted]
  by (simp_all add: updateRequests_def upd_peer_def sample_wanted_def isLowOnRequests_def)
     (simp_all add: sample_peer_def ob.isEmpty_iff [OF ob.inv_empty] ob.iterate_empty)

lemma sample_waking_empty: "IsEmpty (Requests (peers sample_waking 0))"
  by (simp add: sample_waking_fields(3) ob.isEmpty_iff ob.inv_empty ob.iterate_empty)

text \<open>An order that knows the first piece of the sample torrent.\<close>

lemma sample_pieces:
  obtains pro where "order_inv (sorted_wrt pieceOrderLess) (list_btree pieceOrderLess) pro"
    "orderKeys pro = [\<lparr>okHash = [], okIndex = 0\<rparr> \<mapsto> s]"
  using order_execs_refines [OF list_btree_law [OF piece_order_order] sample_order_inv, of "[OAdd \<lparr>okHash = [], okIndex = 0\<rparr> s]"]
  by (auto simp: sample_order_def)


section \<open>The baseline provider is spared\<close>

text \<open>
  C6. A baseline provider is only asked for pieces nobody else has.  Let the connection be the baseline provider, and let the order have the current
  availability of the torrent's pieces.  Then, under the conditions of a safe update, every new request is for a
  piece that no other open connection has.
\<close>

theorem baseline_provider_alone:
  assumes "heap_law pop" "btree_law pieceOrderLess ok B" "order_inv ok B pro" "order_for torrents (orderKeys pro)" "torrents ih = t"
    "pipe_inv m t" "info t = Some g" "valid_geom g" "p \<in> set (conns t)" "\<not> closed (peers t p)"
    "length (writeBuffer (peers t p)) \<le> writeBufferLowWaterLen"
    "IsEmpty (Requests (peers t p)) \<or> needRequestUpdate (peers t p) = peerUpdateRequestsTimerReason"
    "needRequestUpdate (peers t p) = peerUpdateRequestsTimerReason \<longrightarrow>
      (\<forall>l. lastRequestUpdate (peers t p) = Some l \<longrightarrow> now t - l \<ge> updateRequestsTimerDuration)"
    "isBaselineProvider bp remote"
    "\<forall>i s. orderKeys pro \<lparr>okHash = ih, okIndex = i\<rparr> = Some s \<longrightarrow> osAvailability s = availability t i"
  shows "\<exists>t'. maybeUpdateActualRequestState pop B (requestStrategyInput torrents cap maxU) pro (isBaselineProvider bp remote) ih p t = Some t' \<and>
    (\<forall>r \<in> set (Iterate (Requests (peers t' p))) - set (Iterate (Requests (peers t p))).
       \<exists>i. piece_of_index t r = Some i \<and> {q \<in> set (conns t). \<not> closed (peers t q) \<and> peerHasPiece t q i} = {p})"
proof -
  have alone: "\<exists>i. piece_of_index t r = Some i \<and> {q \<in> set (conns t). \<not> closed (peers t q) \<and> peerHasPiece t q i} = {p}"
    if "good_request True ih (orderKeys pro) p t r" for r
  proof -
    obtain i s where i: "piece_of_index t r = Some i" "i < numPieces t" "peerHasPiece t p i"
      "orderKeys pro \<lparr>okHash = ih, okIndex = i\<rparr> = Some s" "osAvailability s \<le> 1" using \<open>good_request True _ _ _ _ _\<close> by (auto simp: good_request_def)
    let ?Q = "{q \<in> set (conns t). \<not> closed (peers t q) \<and> peerHasPiece t q i}"
    have "avail_inv t" "haveInfo t" using assms(6) by (simp_all add: pipe_but_def swarm_inv_def)
    from availability_count [OF this i(2)] have "int (card ?Q) \<le> 1" using assms(15) i(4,5) by auto
    moreover have "p \<in> ?Q" using assms(9,10) i(3) by simp
    ultimately have "?Q = {p}" using card_le_Suc0_iff_eq [of ?Q] by auto
    then show ?thesis using i(1) by blast
  qed
  show ?thesis using updating_requests [OF assms(1-13), of cap maxU True] assms(14) alone by (simp only:) blast
qed

text \<open>One connection, which has every piece.\<close>

definition sample_lone :: torrent_state where
  "sample_lone = updateRequests 0 ''have'' (sample_wanted\<lparr>conns := [0], connsWithAllPieces := {0}\<rparr>)"

lemma sample_lone_pipe: "pipe_inv 0 sample_lone"
proof -
  let ?t = "sample_wanted\<lparr>conns := [0], connsWithAllPieces := {0}\<rparr>"
  have "holders ?t i = 0" for i by (simp add: holders_def sample_wanted_def sample_peer_def)
  then have "count_inv ?t"
    by (simp add: count_inv_def in_range_def sample_wanted_def numPieces_def haveInfo_def sample_peer_def)
       (auto simp: sample_torrent_def sample_geom_def less_Suc_eq numeral_3_eq_3)
  moreover have "all_inv ?t" by (simp add: all_inv_def sample_peer_def sample_wanted_def)
  moreover have "req_inv ?t" using sample_req_inv same_reqs_inv [of sample_torrent ?t] by (simp add: same_reqs_def sample_wanted_def)
  ultimately have "swarm_inv ?t" by (simp add: swarm_inv_def avail_inv_def)
  moreover have "same_stage sample_wanted ?t" by (simp add: same_stage_def)
  moreover have "pending_but {} ?t" using sample_wanted_pipe by (simp add: pipe_but_def pending_but_def priority_simps numPieces_def)
  ultimately have "pipe_inv 0 ?t" by (rule pipe_but_same [OF sample_wanted_pipe])
  then show ?thesis unfolding sample_lone_def by (rule pipe_updateRequests)
qed

lemma sample_lone_fields:
  "info sample_lone = Some sample_geom" "conns sample_lone = [0]" "peers sample_lone 0 = sample_peer\<lparr>needRequestUpdate := ''have''\<rparr>"
  "connsWithAllPieces sample_lone = {0}" "relativeAvailability sample_lone = [0, 0, 0]"
  by (simp_all add: sample_lone_def updateRequests_def upd_peer_def sample_wanted_def isLowOnRequests_def ob.isEmpty_iff ob.inv_empty ob.iterate_empty)
     (simp_all add: sample_peer_def sample_torrent_def)

theorem baseline_provider_alone_witness:
  "\<exists>pro t'. orderKeys pro = [\<lparr>okHash = [], okIndex = 0\<rparr> \<mapsto> requestStrategyPieceOrderState sample_lone 0] \<and>
     maybeUpdateActualRequestState (\<lambda>_ h. (hd h, tl h)) (list_btree pieceOrderLess) (requestStrategyInput (\<lambda>_. sample_lone) None 0)
       pro (isBaselineProvider (Some \<lparr>IP = [10, 0, 0, 1], Port = 6881\<rparr>) \<lparr>IP = [10, 0, 0, 1], Port = 6881\<rparr>) [] 0 sample_lone = Some t' \<and>
     (\<forall>r \<in> set (Iterate (Requests (peers t' 0))). \<exists>i. piece_of_index sample_lone r = Some i)"
proof -
  obtain pro where pro: "order_inv (sorted_wrt pieceOrderLess) (list_btree pieceOrderLess) pro"
    "orderKeys pro = [\<lparr>okHash = [], okIndex = 0\<rparr> \<mapsto> requestStrategyPieceOrderState sample_lone 0]" by (rule sample_pieces)
  let ?bp = "\<lparr>IP = [10, 0, 0, 1], Port = 6881\<rparr>"
  have "order_for (\<lambda>_. sample_lone) (orderKeys pro)"
    using pro(2) sample_lone_fields(1) by (auto simp: order_for_def haveInfo_def numPieces_def sample_geom_def split: if_splits)
  moreover have "heap_law (\<lambda>_ h. (hd h, tl h))" by (force simp: heap_law_def dest: list.set_sel(2))
  moreover have "isBaselineProvider (Some ?bp) ?bp" by (simp add: isBaselineProvider_def IP_Equal_def)
  moreover have "\<forall>i s. orderKeys pro \<lparr>okHash = [], okIndex = i\<rparr> = Some s \<longrightarrow> osAvailability s = availability sample_lone i"
    using pro(2) by (auto simp: requestStrategyPieceOrderState_def split: if_splits)
  moreover have "Requests (peers sample_lone 0) = ob_empty" "IsEmpty (Requests (peers sample_lone 0))" "Iterate (Requests (peers sample_lone 0)) = []"
    by (simp_all add: sample_lone_fields(3) ob.isEmpty_iff ob.inv_empty ob.iterate_empty)
  ultimately obtain t' where "maybeUpdateActualRequestState (\<lambda>_ h. (hd h, tl h)) (list_btree pieceOrderLess) (requestStrategyInput (\<lambda>_. sample_lone) None 0)
       pro (isBaselineProvider (Some ?bp) ?bp) [] 0 sample_lone = Some t'"
    "\<forall>r \<in> set (Iterate (Requests (peers t' 0))). \<exists>i. piece_of_index sample_lone r = Some i \<and>
       {q \<in> set (conns sample_lone). \<not> closed (peers sample_lone q) \<and> peerHasPiece sample_lone q i} = {0}"
    using baseline_provider_alone [OF _ list_btree_law [OF piece_order_order] pro(1) _ _ sample_lone_pipe _ sample_geom_valid, of "\<lambda>_ h. (hd h, tl h)" "\<lambda>_. sample_lone"
        "[]" 0 "Some ?bp" ?bp None 0] sample_lone_fields
    by (auto simp: sample_peer_def)
  then show ?thesis using pro(2) by meson
qed

section \<open>An order that is out of date\<close>

lemma requestable_unlimited:
  assumes "MaxUnverifiedBytes input = 0" "\<forall>x \<in> set xs. input_PieceLength input (okHash (oiKey x)) \<noteq> None"
  shows "requestable input l None u xs = Some ys \<Longrightarrow> ys = filter (\<lambda>i. \<not> IgnorePiece input (okHash (oiKey i)) (okIndex (oiKey i))) xs"
  using assms(2)
proof (induction xs arbitrary: l u ys)
  case (Cons x xs)
  then show ?case using assms(1) by (auto simp: bind_eq_Some_conv Let_def split: if_splits)
qed simp

lemma have_all_noted:
  assumes "onPeerHasAllPieces q t0 = Some t" "\<not> haveAllPieces t"
  shows "peerSentHaveAll (peers t q)"
proof -
  obtain t1 t2 where t2: "t2 = upd_peer q (\<lambda>cn. cn\<lparr>peerSentHaveAll := True, peerPieces := {}\<rparr>) t1"
    "maybeDropMutuallyCompletePeer q (if pendingPieces t2 \<noteq> {} then updateRequests q ''Peer.onPeerHasAllPieces'' t2 else t2) = Some t"
    using assms(1) by (auto simp: onPeerHasAllPieces_def bind_eq_Some_conv Let_def peerPiecesChanged_def)
  define t3 where "t3 = (if pendingPieces t2 \<noteq> {} then updateRequests q ''Peer.onPeerHasAllPieces'' t2 else t2)"
  have drop: "maybeDropMutuallyCompletePeer q t3 = Some t" using t2(2) by (simp only: t3_def)
  have "\<not> haveAllPieces t3"
    using assms(2) peer_frame_fields(1,6) [OF peer_frame_maybeDrop [OF drop]] by (simp add: haveAllPieces_def haveInfo_def numPieces_def)
  then have "t = t3" using drop by (simp add: maybeDropMutuallyCompletePeer_def split: if_splits)
  then show ?thesis using t2(1) by (auto simp: t3_def updateRequests_def upd_peer_def)
qed


text \<open>Two connections, the second of which says only now that it has every piece.\<close>

definition sample_joining :: torrent_state where
  "sample_joining = sample_wanted\<lparr>connsWithAllPieces := {0}, peers := (\<lambda>_. sample_peer)(1 := sample_peer\<lparr>peerSentHaveAll := False\<rparr>)\<rparr>"

definition sample_joined :: torrent_state where
  "sample_joined = updateRequests 1 ''Peer.onPeerHasAllPieces'' sample_wanted"

lemma sample_joined_eq: "onPeerHasAllPieces 1 sample_joining = Some sample_joined"
proof -
  have "upd_peer 1 (\<lambda>cn. cn\<lparr>peerSentHaveAll := True, peerPieces := {}\<rparr>) (addConnWithAllPieces 1 sample_joining) = sample_wanted"
    by (simp add: sample_joining_def addConnWithAllPieces_def upd_peer_def sample_wanted_def sample_peer_def sample_torrent_def fun_eq_iff insert_commute)
  moreover have "peerPieces (peers sample_joining 1) = {}" by (simp add: sample_joining_def) (simp add: sample_peer_def)
  moreover have "pendingPieces sample_wanted \<noteq> {}" by (simp add: sample_wanted_def)
  moreover have "\<not> DropMutuallyCompletePeers (config sample_joined)"
    by (simp add: sample_joined_def updateRequests_def upd_peer_def sample_wanted_def) (simp add: sample_torrent_def)
  ultimately show ?thesis
    by (simp only: onPeerHasAllPieces_def bitmap_iter_def Let_def peerPiecesChanged_def maybeDropMutuallyCompletePeer_def)
      (simp add: sample_joined_def)
qed


end
