(* ===== verification/Mse.thy ===== *)
theory Mse
  imports Sha1 "HOL-Library.Monad_Syntax"
begin

text \<open>
  Package \<^verbatim>\<open>mse\<close> (\<^verbatim>\<open>mse/mse.go\<close>), message stream encryption: two peers agree on a secret by a Diffie-Hellman exchange, find the
  start of each other's messages behind random padding, and go on in plain text or with RC4.  What a side reads
  is the list of bytes the other side writes; writing succeeds.  The random numbers are arguments, and so is the list of
  secret keys that a receiver accepts.  \<open>None\<close> is a panic.
\<close>

unbundle bit_operations_syntax

section \<open>Finding a mark in a stream\<close>

fun suffixMatch_from :: "bytes \<Rightarrow> bytes \<Rightarrow> nat \<Rightarrow> nat" where
  "suffixMatch_from a b 0 = 0"
| "suffixMatch_from a b (Suc i) =
     (if list_all (\<lambda>j. b ! (Suc i - 1 - j) = a ! (length a - 1 - j)) [0..<Suc i] then Suc i else suffixMatch_from a b i)"

definition suffixMatchLen :: "bytes \<Rightarrow> bytes \<Rightarrow> nat" where
  "suffixMatchLen a b =
     (let b = (if length b > length a then take (length a) b else b) in suffixMatch_from a b (length b))"

lemma suffixMatch_from_le: "suffixMatch_from a b n \<le> n"
  by (induction n) auto

lemma suffixMatchLen_le: "suffixMatchLen a b \<le> length b" "suffixMatchLen a b \<le> length a"
  using suffixMatch_from_le [of a "take (length a) b" "length a"] suffixMatch_from_le [of a b "length b"]
  by (auto simp: suffixMatchLen_def Let_def)

text \<open>
  The loop of \<^verbatim>\<open>readUntil\<close>: the buffer \<open>b1\<close> is as long as \<open>b\<close>, and its first \<open>i\<close> bytes are kept from the round before.
  The result is what is left to read.
\<close>

function readUntil_loop :: "bytes \<Rightarrow> bytes \<Rightarrow> nat \<Rightarrow> bytes \<Rightarrow> io_error + bytes" where
  "readUntil_loop b b1 i r =
     (case read_full (length b - i) r of
        Inl e \<Rightarrow> Inl e
      | Inr (x, r) \<Rightarrow>
          let b1 = take i b1 @ x; i = suffixMatchLen b1 b in
          if i = length b then Inr r
          else readUntil_loop b (drop (length b1 - i) b1 @ drop i b1) i r)"
  by pat_completeness auto
termination
proof (relation "measures [\<lambda>(b, b1, i, r). length r, \<lambda>(b, b1, i, r). if i < length b then 0 else 1]", goal_cases)
  case (2 b b1 i r p x r' b1' i')
  have "i' < length b" using suffixMatchLen_le(1) [of b1' b] 2(3-) by simp
  then show ?case using 2(1,2) by (auto simp: read_full_def split: if_splits)
qed simp

declare readUntil_loop.simps [simp del]

definition readUntil :: "bytes \<Rightarrow> bytes \<Rightarrow> io_error + bytes" where
  "readUntil r b = readUntil_loop b (replicate (length b) 0) 0 r"

text \<open>How long the longest beginning of \<open>b\<close> is at the end of \<open>a\<close>.\<close>

definition ends_with :: "bytes \<Rightarrow> bytes \<Rightarrow> bool" where
  "ends_with a b \<longleftrightarrow> (\<exists>c. a = c @ b)"

lemma ends_with_drop: "length b \<le> length a \<Longrightarrow> ends_with a b \<longleftrightarrow> drop (length a - length b) a = b"
  by (auto simp: ends_with_def) (metis append_take_drop_id)

lemma ends_with_length: "ends_with a b \<Longrightarrow> length b \<le> length a"
  by (auto simp: ends_with_def)

lemma all_less_rev: "(\<forall>k < i. P k) \<longleftrightarrow> (\<forall>j < i. P (i - 1 - j))" for i :: nat
proof (intro iffI allI impI)
  fix k assume "\<forall>j < i. P (i - 1 - j)" "k < i"
  moreover from \<open>k < i\<close> have "i - 1 - k < i" "i - 1 - (i - 1 - k) = k" by auto
  ultimately show "P k" by metis
qed auto

lemma match_ends_with:
  assumes "i \<le> length a" "i \<le> length b"
  shows "list_all (\<lambda>j. b ! (i - 1 - j) = a ! (length a - 1 - j)) [0..<i] \<longleftrightarrow> ends_with a (take i b)"
proof -
  have "ends_with a (take i b) \<longleftrightarrow> drop (length a - i) a = take i b" using assms ends_with_drop [of "take i b" a] by simp
  also have "\<dots> \<longleftrightarrow> (\<forall>k < i. a ! (length a - i + k) = b ! k)" using assms by (auto simp: list_eq_iff_nth_eq)
  also have "\<dots> \<longleftrightarrow> (\<forall>j < i. a ! (length a - i + (i - 1 - j)) = b ! (i - 1 - j))" by (rule all_less_rev)
  also have "\<dots> \<longleftrightarrow> (\<forall>j < i. b ! (i - 1 - j) = a ! (length a - 1 - j))"
    using assms(1) by (auto simp: algebra_simps)
  finally show ?thesis by (simp add: list_all_iff Ball_def)
qed

lemma suffixMatch_from_longest:
  assumes "n \<le> length a" "n \<le> length b"
  shows "ends_with a (take (suffixMatch_from a b n) b) \<and> (\<forall>j \<le> n. ends_with a (take j b) \<longrightarrow> j \<le> suffixMatch_from a b n)"
  using assms
proof (induction n)
  case (Suc n)
  have "list_all (\<lambda>j. b ! (Suc n - 1 - j) = a ! (length a - 1 - j)) [0..<Suc n] \<longleftrightarrow> ends_with a (take (Suc n) b)"
    by (rule match_ends_with) (use Suc.prems in auto)
  then show ?case using Suc by (auto simp: le_Suc_eq simp del: upt_Suc)
qed (simp add: ends_with_def)

lemma suffixMatchLen_longest:
  "ends_with a (take (suffixMatchLen a b) b)"
  "j \<le> length b \<Longrightarrow> ends_with a (take j b) \<Longrightarrow> j \<le> suffixMatchLen a b"
proof -
  let ?b = "if length b > length a then take (length a) b else b"
  have "ends_with a (take (suffixMatch_from a ?b (length ?b)) ?b) \<and>
      (\<forall>j \<le> length ?b. ends_with a (take j ?b) \<longrightarrow> j \<le> suffixMatch_from a ?b (length ?b))"
    by (rule suffixMatch_from_longest) auto
  moreover have "take (suffixMatch_from a ?b (length ?b)) ?b = take (suffixMatch_from a ?b (length ?b)) b"
    using suffixMatch_from_le [of a ?b "length ?b"] by (auto simp: min_def)
  ultimately show "ends_with a (take (suffixMatchLen a b) b)"
    "j \<le> length b \<Longrightarrow> ends_with a (take j b) \<Longrightarrow> j \<le> suffixMatchLen a b"
    using ends_with_length [of a "take j b"] by (auto simp: suffixMatchLen_def Let_def min_def split: if_splits)
qed

text \<open>Where \<open>b\<close> ends in the stream for the first time.\<close>

definition first_end :: "bytes \<Rightarrow> bytes \<Rightarrow> nat option" where
  "first_end b r = find (\<lambda>k. k \<ge> length b \<and> take (length b) (drop (k - length b) r) = b) [0..<Suc (length r)]"

lemma ends_with_take:
  "k \<le> length r \<Longrightarrow> ends_with (take k r) b \<longleftrightarrow> k \<ge> length b \<and> take (length b) (drop (k - length b) r) = b"
  using ends_with_drop [of b "take k r"] ends_with_length [of "take k r" b]
  by (auto simp: drop_take min_def split: if_splits)

lemma first_end_Some:
  "first_end b r = Some k \<longleftrightarrow> k \<le> length r \<and> ends_with (take k r) b \<and> (\<forall>j < k. \<not> ends_with (take j r) b)"
  by (auto simp: first_end_def find_Some_iff ends_with_take less_Suc_eq_le nth_append intro: exI [of _ k] simp del: upt_Suc)

lemma first_end_None: "first_end b r = None \<longleftrightarrow> (\<forall>k \<le> length r. \<not> ends_with (take k r) b)"
  by (auto simp: first_end_def find_None_iff ends_with_take less_Suc_eq_le simp del: upt_Suc)

lemma ends_with_cut: "ends_with (c @ x) b \<Longrightarrow> length x \<le> length b \<Longrightarrow> ends_with c (take (length b - length x) b)"
  unfolding ends_with_def by (auto simp: append_eq_append_conv2)

lemma ends_with_window:
  assumes "ends_with c w" "length x \<le> length w"
  shows "ends_with c x \<longleftrightarrow> ends_with w x"
proof
  show "ends_with w x" if "ends_with c x" using that assms unfolding ends_with_def by (auto simp: append_eq_append_conv2)
  show "ends_with c x" if "ends_with w x" using that assms(1) unfolding ends_with_def by (metis append_assoc)
qed

text \<open>The bytes kept are as much of \<open>b\<close> as there can be, so \<open>b\<close> cannot end before they are filled up.\<close>

lemma no_end_before:
  assumes "\<forall>j \<le> length b. ends_with c (take j b) \<longrightarrow> j \<le> i" "length c \<le> k" "k < length c + (length b - i)" "k \<le> length (c @ r)"
  shows "\<not> ends_with (take k (c @ r)) b"
proof
  assume "ends_with (take k (c @ r)) b"
  then have "ends_with c (take (length b - (k - length c)) b)" using assms(2-4) ends_with_cut [of c "take (k - length c) r" b] by auto
  moreover have "length b - (k - length c) \<le> length b" "\<not> length b - (k - length c) \<le> i" using assms(2,3) by auto
  ultimately show False using assms(1) by blast
qed

definition ends_from :: "bytes \<Rightarrow> bytes \<Rightarrow> nat \<Rightarrow> io_error + bytes \<Rightarrow> bool" where
  "ends_from b t m res =
     (case res of
        Inr rest \<Rightarrow> \<exists>k. m \<le> k \<and> k \<le> length t \<and> ends_with (take k t) b \<and> (\<forall>j. m \<le> j \<and> j < k \<longrightarrow> \<not> ends_with (take j t) b) \<and> rest = drop k t
      | Inl _ \<Rightarrow> \<forall>k. m \<le> k \<and> k \<le> length t \<longrightarrow> \<not> ends_with (take k t) b)"

lemma ends_from_skip:
  assumes "ends_from b t n res" "\<forall>k. m \<le> k \<and> k < n \<and> k \<le> length t \<longrightarrow> \<not> ends_with (take k t) b" "m \<le> n"
  shows "ends_from b t m res"
proof (cases res)
  case (Inl e)
  have "\<not> ends_with (take k t) b" if "m \<le> k" "k \<le> length t" for k
    using assms that Inl by (cases "k < n") (simp_all add: ends_from_def)
  then show ?thesis using Inl by (simp add: ends_from_def)
next
  case (Inr rest)
  then obtain k where k: "n \<le> k" "k \<le> length t" "ends_with (take k t) b" "\<forall>j. n \<le> j \<and> j < k \<longrightarrow> \<not> ends_with (take j t) b" "rest = drop k t"
    using assms(1) by (auto simp: ends_from_def)
  then have "\<forall>j. m \<le> j \<and> j < k \<longrightarrow> \<not> ends_with (take j t) b" using assms(2) by (meson le_trans less_imp_le not_le)
  moreover have "m \<le> k" using k(1) assms(3) by simp
  ultimately show ?thesis using k(2,3,5) Inr unfolding ends_from_def by auto
qed

lemma readUntil_loop_exact:
  assumes "take i b1 = take i b" "length b1 = length b" "i < length b" "ends_with c (take i b)"
    "\<forall>j \<le> length b. ends_with c (take j b) \<longrightarrow> j \<le> i"
  shows "ends_from b (c @ r) (length c) (readUntil_loop b b1 i r)"
  using assms
proof (induction "length r" arbitrary: b1 i c r rule: less_induct)
  case less
  let ?n = "length b - i"
  note before = no_end_before [OF less.prems(5)]
  show ?case
  proof (cases "?n \<le> length r")
    case False
    then have "\<forall>k. length c \<le> k \<and> k \<le> length (c @ r) \<longrightarrow> \<not> ends_with (take k (c @ r)) b" using before by auto
    moreover have "read_full ?n r = Inl (if r = [] then EOF else ErrUnexpectedEOF)" using False by (simp add: read_full_def)
    then obtain e where "readUntil_loop b b1 i r = Inl e" by (simp add: readUntil_loop.simps [of b b1 i r])
    ultimately show ?thesis by (simp add: ends_from_def)
  next
    case True
    define x r' w where "x = take ?n r" and "r' = drop ?n r" and "w = take i b @ x"
    define i' where "i' = suffixMatchLen w b"
    have w: "length w = length b" "ends_with (c @ x) w" "c @ r = (c @ x) @ r'" "length (c @ x) = length c + ?n"
      using True less.prems(3,4) by (auto simp: w_def x_def r'_def ends_with_def)
    have step: "readUntil_loop b b1 i r = (if i' = length b then Inr r' else readUntil_loop b (drop (length w - i') w @ drop i' w) i' r')"
      using True less.prems(1) by (simp add: readUntil_loop.simps [of b b1 i r] read_full_def Let_def x_def r'_def w_def i'_def)
    have "ends_from b ((c @ x) @ r') (length (c @ x)) (readUntil_loop b b1 i r)"
    proof (cases "i' = length b")
      case True
      then have "ends_with (c @ x) b" using suffixMatchLen_longest(1) [of w b] ends_with_window [OF w(2), of b] w(1) by (simp add: i'_def)
      then show ?thesis using step True by (auto simp: ends_from_def intro!: exI [of _ "length (c @ x)"])
    next
      case False
      have "i' < length b" using suffixMatchLen_le(1) [of w b] False by (simp add: i'_def)
      moreover have "ends_with w (take i' b)" using suffixMatchLen_longest(1) by (simp add: i'_def)
      moreover have "drop (length w - i') w = take i' b"
        using ends_with_drop [of "take i' b" w] calculation w(1) by simp
      moreover have "\<forall>j \<le> length b. ends_with (c @ x) (take j b) \<longrightarrow> j \<le> i'"
        using ends_with_window [OF w(2)] suffixMatchLen_longest(2) [of _ b w] w(1) by (auto simp: i'_def)
      moreover have "length r' < length r" using True less.prems(3) by (auto simp: r'_def)
      moreover have "ends_with (c @ x) (take i' b)" using ends_with_window [OF w(2), of "take i' b"] calculation(2) w(1) by simp
      ultimately have "ends_from b ((c @ x) @ r') (length (c @ x)) (readUntil_loop b (drop (length w - i') w @ drop i' w) i' r')"
        using w(1) by (intro less.hyps) simp_all
      then show ?thesis using step False by simp
    qed
    then show ?thesis using ends_from_skip before w(3,4) by (metis le_add1)
  qed
qed

lemma readUntil_first_end:
  "readUntil r b = (case first_end b r of Some k \<Rightarrow> Inr (drop k r) | None \<Rightarrow> Inl (case readUntil r b of Inl e \<Rightarrow> e | Inr _ \<Rightarrow> EOF))"
proof (cases "b = []")
  case True
  then have "first_end b r = Some 0" by (simp add: first_end_Some ends_with_def)
  moreover have "readUntil r b = Inr r"
    using True by (simp add: readUntil_def readUntil_loop.simps [of "[]"] read_full_def suffixMatchLen_def)
  ultimately show ?thesis by simp
next
  case False
  have "ends_from b ([] @ r) (length ([] :: bytes)) (readUntil_loop b (replicate (length b) 0) 0 r)"
    by (rule readUntil_loop_exact) (use False in \<open>auto simp: ends_with_def\<close>)
  then have *: "ends_from b r 0 (readUntil r b)" by (simp add: readUntil_def)
  then show ?thesis
  proof (cases "readUntil r b")
    case (Inl e)
    then have "first_end b r = None" using * by (simp add: ends_from_def first_end_None)
    then show ?thesis using Inl by simp
  next
    case (Inr rest)
    then obtain k where "first_end b r = Some k" "rest = drop k r" using * by (auto simp: ends_from_def first_end_Some)
    then show ?thesis using Inr by simp
  qed
qed

section \<open>RC4\<close>

text \<open>\<^verbatim>\<open>crypto/rc4\<close> of the Go library.\<close>

record rc4 =
  rcS :: bytes
  rcI :: byte
  rcJ :: byte

definition list_swap :: "bytes \<Rightarrow> nat \<Rightarrow> nat \<Rightarrow> bytes" where
  "list_swap s i j = s[i := s ! j, j := s ! i]"

definition rc4_NewCipher :: "bytes \<Rightarrow> rc4" where
  "rc4_NewCipher key =
     \<lparr>rcS = fst (foldl (\<lambda>(s, j) i.
        let j = j + s ! i + key ! (i mod length key) in (list_swap s i (unat j), j))
        (map word_of_nat [0..<256], 0 :: byte) [0..<256]),
      rcI = 0, rcJ = 0\<rparr>"

definition rc4_step :: "rc4 \<Rightarrow> rc4 \<times> byte" where
  "rc4_step c =
     (let i = rcI c + 1; x = rcS c ! unat i; j = rcJ c + x; y = rcS c ! unat j;
          s = list_swap (rcS c) (unat i) (unat j)
      in (\<lparr>rcS = s, rcI = i, rcJ = j\<rparr>, s ! unat (x + y)))"

fun XORKeyStream :: "rc4 \<Rightarrow> bytes \<Rightarrow> rc4 \<times> bytes" where
  "XORKeyStream c [] = (c, [])"
| "XORKeyStream c (v # src) =
     (let (c, k) = rc4_step c; (c, dst) = XORKeyStream c src in (c, (v XOR k) # dst))"

abbreviation cipher_after :: "rc4 \<Rightarrow> bytes \<Rightarrow> rc4" where "cipher_after c a \<equiv> fst (XORKeyStream c a)"
abbreviation ciphered :: "rc4 \<Rightarrow> bytes \<Rightarrow> bytes" where "ciphered c a \<equiv> snd (XORKeyStream c a)"

lemma ciphered_append [simp]:
  "ciphered c (a @ b) = ciphered c a @ ciphered (cipher_after c a) b"
  "cipher_after c (a @ b) = cipher_after (cipher_after c a) b"
  by (induction a arbitrary: c) (simp_all add: split_beta)

lemma length_ciphered [simp]: "length (ciphered c a) = length a"
  by (induction a arbitrary: c) (simp_all add: split_beta)

text \<open>The cipher undoes itself, and both sides end in the same state.\<close>

lemma ciphered_twice [simp]: "ciphered c (ciphered c a) = a"
  by (induction a arbitrary: c) (simp_all add: split_beta xor.assoc)

lemma cipher_after_length: "length a = length b \<Longrightarrow> cipher_after c a = cipher_after c b"
  by (induction a b arbitrary: c rule: list_induct2) (simp_all add: split_beta)

lemma cipher_after_ciphered [simp]: "cipher_after c (ciphered c a) = cipher_after c a"
  by (rule cipher_after_length) simp

section \<open>The shared secret\<close>

definition mse_p :: nat where
  "mse_p = 0xFFFFFFFFFFFFFFFFC90FDAA22168C234C4C6628B80DC1CD129024E088A67CC74020BBEA63B139B22514A08798E3404DDEF9519B3CD3A431B302B0A6DF25F14374FE1356D6D51C245E485B576625E7EC6F44C42E9A63A36210000000000090563"

definition mse_g :: nat where
  "mse_g = 2"

text \<open>\<^verbatim>\<open>big.Int.Bytes\<close>: the shortest big-endian form.\<close>

fun big_Bytes :: "nat \<Rightarrow> bytes" where
  "big_Bytes n = (if n = 0 then [] else big_Bytes (n div 256) @ [word_of_nat (n mod 256)])"

declare big_Bytes.simps [simp del]

definition paddedLeft :: "bytes \<Rightarrow> nat \<Rightarrow> bytes option" where
  "paddedLeft b len =
     (if length b = len then Some b
      else if length b > len then None
      else Some (replicate (len - length b) 0 @ b))"

lemma be_nat_big_Bytes: "be_nat (big_Bytes n) = n"
proof (induction n rule: big_Bytes.induct)
  case (1 n)
  then show ?case by (cases "n = 0") (simp_all add: big_Bytes.simps [of n] big_Bytes.simps [of 0])
qed

lemma length_big_Bytes: "n < 256 ^ k \<Longrightarrow> length (big_Bytes n) \<le> k"
proof (induction k arbitrary: n)
  case (Suc k)
  have "n div 256 < 256 ^ k" using Suc.prems by (simp add: less_mult_imp_div_less mult.commute)
  then show ?case using Suc.IH by (cases "n = 0") (simp_all add: big_Bytes.simps [of n] big_Bytes.simps [of 0])
qed (simp add: big_Bytes.simps)

lemma be_nat_zeros: "be_nat (replicate k 0 @ b) = be_nat b"
  by (induction k) (simp_all add: be_nat_def)

lemma paddedLeft_big:
  assumes "n < 256 ^ k"
  obtains b where "paddedLeft (big_Bytes n) k = Some b" "length b = k" "be_nat b = n"
proof -
  have "length (big_Bytes n) \<le> k" using assms by (rule length_big_Bytes)
  then show ?thesis using that be_nat_zeros [of "k - length (big_Bytes n)" "big_Bytes n"] be_nat_big_Bytes [of n]
    by (cases "length (big_Bytes n) = k") (simp_all add: paddedLeft_def)
qed

text \<open>What the other side has to know: the public key, and the secret from its public key.\<close>

definition public_key :: "nat \<Rightarrow> bytes option" where
  "public_key x = paddedLeft (big_Bytes (mse_g ^ x mod mse_p)) 96"

definition shared_secret :: "nat \<Rightarrow> bytes \<Rightarrow> bytes option" where
  "shared_secret x Y = paddedLeft (big_Bytes (be_nat Y ^ x mod mse_p)) 96"

lemma mse_p_size: "0 < mse_p" "mse_p < 256 ^ 96"
  by (simp_all add: mse_p_def)

lemma public_key_Some:
  obtains b where "public_key x = Some b" "length b = 96" "be_nat b = mse_g ^ x mod mse_p"
proof -
  have "mse_g ^ x mod mse_p < 256 ^ 96" using mse_p_size mod_less_divisor [of mse_p] by (meson less_trans)
  then show ?thesis using that unfolding public_key_def by (rule paddedLeft_big)
qed

lemma shared_secret_Some:
  obtains s where "shared_secret x Y = Some s" "length s = 96"
proof -
  have "be_nat Y ^ x mod mse_p < 256 ^ 96" using mse_p_size mod_less_divisor [of mse_p] by (meson less_trans)
  then show ?thesis using that unfolding shared_secret_def by (rule paddedLeft_big)
qed

text \<open>Both sides come to the same secret.\<close>

lemma shared_secret_agrees:
  assumes "public_key xa = Some Ya" "public_key xb = Some Yb"
  shows "shared_secret xa Yb = shared_secret xb Ya"
proof -
  have "be_nat Ya = mse_g ^ xa mod mse_p" "be_nat Yb = mse_g ^ xb mod mse_p"
    using assms public_key_Some by (metis option.inject)+
  moreover have "(mse_g ^ xb mod mse_p) ^ xa mod mse_p = (mse_g ^ xa mod mse_p) ^ xb mod mse_p"
    by (simp add: power_mod mult.commute flip: power_mult)
  ultimately show ?thesis by (simp add: shared_secret_def)
qed

section \<open>The handshake\<close>

type_synonym crypto_method = u32

abbreviation (input) CryptoMethodPlaintext :: crypto_method where "CryptoMethodPlaintext \<equiv> 1"
abbreviation (input) CryptoMethodRC4 :: crypto_method where "CryptoMethodRC4 \<equiv> 2"

definition mse_hash :: "bytes list \<Rightarrow> bytes" where
  "mse_hash parts = sha1 (concat parts)"

abbreviation (input) req1 :: bytes where "req1 \<equiv> str_bytes ''req1''"
abbreviation (input) req2 :: bytes where "req2 \<equiv> str_bytes ''req2''"
abbreviation (input) req3 :: bytes where "req3 \<equiv> str_bytes ''req3''"
abbreviation (input) vc :: bytes where "vc \<equiv> replicate 8 0"

definition newEncrypt :: "bool \<Rightarrow> bytes \<Rightarrow> bytes \<Rightarrow> rc4" where
  "newEncrypt init s sk =
     cipher_after (rc4_NewCipher (mse_hash [str_bytes (if init then ''keyA'' else ''keyB''), s, sk])) (replicate 1024 0)"

definition mse_xor :: "bytes \<Rightarrow> bytes \<Rightarrow> bytes" where
  "mse_xor a b = map2 (XOR) a b"

text \<open>
  Reading from a \<^verbatim>\<open>cipherReader\<close> is reading from the connection and deciphering; the new state of the cipher is part of the result.
  \<open>cipher_discard\<close> is \<^verbatim>\<open>io.CopyN\<close> to \<^verbatim>\<open>ioutil.Discard\<close>.
\<close>

definition cipher_read :: "nat \<Rightarrow> rc4 \<Rightarrow> bytes \<Rightarrow> io_error + (rc4 \<times> bytes \<times> bytes)" where
  "cipher_read n c inp =
     (case read_full n inp of
        Inl e \<Rightarrow> Inl e
      | Inr (x, r) \<Rightarrow> Inr (cipher_after c x, ciphered c x, r))"

definition cipher_discard :: "nat \<Rightarrow> rc4 \<Rightarrow> bytes \<Rightarrow> io_error + (rc4 \<times> bytes)" where
  "cipher_discard n c inp =
     (if n \<le> length inp then Inr (cipher_after c (take n inp), drop n inp) else Inl EOF)"

datatype mse_error =
    ReadingY io_error
  | PayloadTooLarge
  | NoSyncVC
  | ReadingVC io_error
  | ReadFailed io_error
  | ReceiverChose crypto_method
  | NoSyncS
  | ErrNoSecretKeyMatch
  | MethodNotSupported

text \<open>
  The struct \<^verbatim>\<open>handshake\<close>.  \<open>hConn\<close> is what the connection still has to be read, \<open>hWrites\<close> what was written to it.
\<close>

record handshake =
  hConn :: bytes
  hS :: bytes
  hIniter :: bool
  hSkeys :: "bytes list"
  hSkey :: bytes
  hIa :: bytes
  hChoose :: "crypto_method \<Rightarrow> crypto_method"
  hProvides :: crypto_method
  hWrites :: bytes

text \<open>
  The stream a handshake leaves: what a reader gets before anything from the connection, and the ciphers
  for both directions, \<open>None\<close> for plain text.
\<close>

record mse_stream =
  msPayload :: bytes
  msReader :: "rc4 option"
  msWriter :: "rc4 option"

definition postWrite :: "bytes \<Rightarrow> handshake \<Rightarrow> handshake" where
  "postWrite b h = h\<lparr>hWrites := hWrites h @ b\<rparr>"

definition establishS :: "nat \<Rightarrow> handshake \<Rightarrow> (handshake \<times> io_error option) option" where
  "establishS x h = do {
     y \<leftarrow> public_key x;
     let h = postWrite y h;
     (case read_full 96 (hConn h) of
        Inl e \<Rightarrow> Some (h, Some e)
      | Inr (Y, r) \<Rightarrow> do { s \<leftarrow> shared_secret x Y; Some (h\<lparr>hS := s, hConn := r\<rparr>, None) })
   }"

text \<open>What the initiator reads up to the end of the receiver's padding: the method, and the cipher to read on with.\<close>

definition initer_answer :: "rc4 \<Rightarrow> bytes \<Rightarrow> mse_error + (rc4 \<times> crypto_method \<times> bytes)" where
  "initer_answer bC inp =
     (let eVC = ciphered bC vc; bC = cipher_after bC vc in
      case readUntil (take 520 inp) eVC of
        Inl e \<Rightarrow> Inl (if e = EOF then NoSyncVC else ReadingVC e)
      | Inr r \<Rightarrow>
          (case cipher_read 4 bC (r @ drop 520 inp) of
             Inl e \<Rightarrow> Inl (ReadFailed e)
           | Inr (bC, m, r) \<Rightarrow>
               (case cipher_read 2 bC r of
                  Inl e \<Rightarrow> Inl (ReadFailed e)
                | Inr (bC, n, r) \<Rightarrow>
                    (case cipher_discard (unat (u16_of n)) bC r of
                       Inl e \<Rightarrow> Inl (ReadFailed e)
                     | Inr (bC, r) \<Rightarrow> Inr (bC, u32_of m, r)))))"

definition initerSteps :: "nat \<Rightarrow> handshake \<Rightarrow> handshake \<times> (mse_error + mse_stream \<times> crypto_method)" where
  "initerSteps padLen h =
     (let h = postWrite (mse_hash [req1, hS h]) h;
          h = postWrite (mse_xor (mse_hash [req2, hSkey h]) (mse_hash [req3, hS h])) h in
      if length (hIa h) > 65535 then (h, Inl PayloadTooLarge)
      else
        let buf = vc @ be32 (hProvides h) @ be16 (word_of_nat padLen) @ replicate padLen 0 @ be16 (word_of_nat (length (hIa h))) @ hIa h;
            e = newEncrypt True (hS h) (hSkey h);
            h = postWrite (ciphered e buf) h;
            e = cipher_after e buf in
        case initer_answer (newEncrypt False (hS h) (hSkey h)) (hConn h) of
          Inl err \<Rightarrow> (h, Inl err)
        | Inr (r, m, inp) \<Rightarrow>
            let selected = m AND hProvides h in
            (h\<lparr>hConn := inp\<rparr>,
             if selected = CryptoMethodRC4 then Inr (\<lparr>msPayload = [], msReader = Some r, msWriter = Some e\<rparr>, selected)
             else if selected = CryptoMethodPlaintext then Inr (\<lparr>msPayload = [], msReader = None, msWriter = None\<rparr>, selected)
             else Inl (ReceiverChose m)))"

text \<open>
  The initial payload: its length and its bytes.  The errors of both reads are ignored, so that a stream that ends
  early gives no payload, or one of zeros.
\<close>

definition receiver_payload :: "rc4 \<Rightarrow> bytes \<Rightarrow> rc4 \<times> bytes \<times> bytes" where
  "receiver_payload r inp =
     (case cipher_read 2 r inp of
        Inl _ \<Rightarrow> (cipher_after r inp, [], [])
      | Inr (r, n, inp) \<Rightarrow>
          let lenIA = unat (u16_of n) in
          if lenIA = 0 then (r, [], inp)
          else
            (case cipher_read lenIA r inp of
               Inl _ \<Rightarrow> (cipher_after r inp, replicate lenIA 0, [])
             | Inr (r, ia, inp) \<Rightarrow> (r, ia, inp)))"

text \<open>The receiver looks for the secret key, then reads up to the end of the initiator's padding.\<close>

definition receiver_key :: "bytes \<Rightarrow> bytes list \<Rightarrow> bytes \<Rightarrow> mse_error + (bytes \<times> bytes)" where
  "receiver_key s keys inp =
     (case readUntil (take 532 inp) (mse_hash [req1, s]) of
        Inl e \<Rightarrow> Inl (if e = EOF then NoSyncS else ReadFailed e)
      | Inr r \<Rightarrow>
          (case read_full 20 (r @ drop 532 inp) of
             Inl e \<Rightarrow> Inl (ReadFailed e)
           | Inr (b, inp) \<Rightarrow>
               (case find (\<lambda>k. mse_xor (mse_hash [req2, k]) (mse_hash [req3, s]) = b) keys of
                  None \<Rightarrow> Inl ErrNoSecretKeyMatch
                | Some key \<Rightarrow> Inr (key, inp))))"

definition receiver_provides :: "rc4 \<Rightarrow> bytes \<Rightarrow> mse_error + (bytes \<times> crypto_method \<times> rc4 \<times> bytes)" where
  "receiver_provides r inp =
     (case cipher_read 8 r inp of
        Inl e \<Rightarrow> Inl (ReadFailed e)
      | Inr (r, v, inp) \<Rightarrow>
          (case cipher_read 4 r inp of
             Inl e \<Rightarrow> Inl (ReadFailed e)
           | Inr (r, provides, inp) \<Rightarrow>
               (case cipher_read 2 r inp of
                  Inl e \<Rightarrow> Inl (ReadFailed e)
                | Inr (r, n, inp) \<Rightarrow>
                    (case cipher_discard (unat (u16_of n)) r inp of
                       Inl e \<Rightarrow> Inl (ReadFailed e)
                     | Inr (r, inp) \<Rightarrow> Inr (v, u32_of provides, r, inp)))))"

definition receiverSteps :: "nat \<Rightarrow> handshake \<Rightarrow> handshake \<times> (mse_error + mse_stream \<times> crypto_method)" where
  "receiverSteps padLen h =
     (case receiver_key (hS h) (hSkeys h) (hConn h) of
        Inl e \<Rightarrow> (h, Inl e)
      | Inr (key, inp) \<Rightarrow>
          let h = h\<lparr>hSkey := key, hConn := inp\<rparr> in
          (case receiver_provides (newEncrypt True (hS h) (hSkey h)) (hConn h) of
             Inl e \<Rightarrow> (h, Inl e)
           | Inr (v, provides, r, inp) \<Rightarrow>
               let chosen = hChoose h provides;
                   (r, ia, inp) = receiver_payload r inp;
                   h = h\<lparr>hIa := ia, hConn := inp\<rparr>;
                   buf = v @ be32 chosen @ be16 (word_of_nat padLen) @ replicate padLen 0;
                   w = newEncrypt False (hS h) (hSkey h);
                   h = postWrite (ciphered w buf) h in
               (h, if chosen = CryptoMethodRC4 then Inr (\<lparr>msPayload = ia, msReader = Some r, msWriter = Some (cipher_after w buf)\<rparr>, chosen)
                   else if chosen = CryptoMethodPlaintext then Inr (\<lparr>msPayload = ia, msReader = None, msWriter = None\<rparr>, chosen)
                   else Inl MethodNotSupported)))"

definition mse_Do :: "nat \<Rightarrow> bytes \<Rightarrow> nat \<Rightarrow> handshake \<Rightarrow> (handshake \<times> (mse_error + mse_stream \<times> crypto_method)) option" where
  "mse_Do x pad padLen h = do {
     (h, err) \<leftarrow> establishS x h;
     (case err of
        Some e \<Rightarrow> Some (h, Inl (ReadingY e))
      | None \<Rightarrow>
          let h = postWrite pad h in
          Some (if hIniter h then initerSteps padLen h else receiverSteps padLen h))
   }"

definition InitiateHandshake ::
  "nat \<Rightarrow> bytes \<Rightarrow> nat \<Rightarrow> bytes \<Rightarrow> bytes \<Rightarrow> bytes \<Rightarrow> crypto_method \<Rightarrow> (handshake \<times> (mse_error + mse_stream \<times> crypto_method)) option" where
  "InitiateHandshake x pad padLen rw skey initialPayload cryptoProvides =
     mse_Do x pad padLen \<lparr>hConn = rw, hS = replicate 96 0, hIniter = True, hSkeys = [], hSkey = skey, hIa = initialPayload,
       hChoose = (\<lambda>_. 0), hProvides = cryptoProvides, hWrites = []\<rparr>"

definition ReceiveHandshakeEx ::
  "nat \<Rightarrow> bytes \<Rightarrow> nat \<Rightarrow> bytes \<Rightarrow> bytes list \<Rightarrow> (crypto_method \<Rightarrow> crypto_method) \<Rightarrow> (handshake \<times> (mse_error + mse_stream \<times> crypto_method)) option" where
  "ReceiveHandshakeEx x pad padLen rw skeys selectCrypto =
     mse_Do x pad padLen \<lparr>hConn = rw, hS = replicate 96 0, hIniter = False, hSkeys = skeys, hSkey = [], hIa = [],
       hChoose = selectCrypto, hProvides = 0, hWrites = []\<rparr>"

definition DefaultCryptoSelector :: "crypto_method \<Rightarrow> crypto_method" where
  "DefaultCryptoSelector provided =
     (if provided AND CryptoMethodPlaintext \<noteq> 0 then CryptoMethodPlaintext else CryptoMethodRC4)"

text \<open>What the streams left by a handshake do with all the bytes of the connection.\<close>

definition stream_read :: "mse_stream \<Rightarrow> bytes \<Rightarrow> bytes" where
  "stream_read st inp = msPayload st @ (case msReader st of None \<Rightarrow> inp | Some c \<Rightarrow> ciphered c inp)"

definition stream_write :: "mse_stream \<Rightarrow> bytes \<Rightarrow> bytes" where
  "stream_write st b = (case msWriter st of None \<Rightarrow> b | Some c \<Rightarrow> ciphered c b)"

section \<open>Both sides agree\<close>

lemma first_end_append: "first_end b x = Some k \<Longrightarrow> first_end b (x @ y) = Some k"
  by (auto simp: first_end_Some)

lemma read_past_mark:
  assumes "first_end b (pad @ b) = Some (length (pad @ b))" "length (pad @ b) \<le> n"
  shows "readUntil (take n (pad @ b @ rest)) b = Inr (take (n - length (pad @ b)) rest)"
    "take (n - length (pad @ b)) rest @ drop n (pad @ b @ rest) = rest"
proof -
  have t: "take n (pad @ b @ rest) = (pad @ b) @ take (n - length (pad @ b)) rest" using assms(2) by simp
  show "readUntil (take n (pad @ b @ rest)) b = Inr (take (n - length (pad @ b)) rest)"
    unfolding t by (subst readUntil_first_end, subst first_end_append [OF assms(1)]) simp
  show "take (n - length (pad @ b)) rest @ drop n (pad @ b @ rest) = rest" using assms(2) by simp
qed

lemma cipher_read_ciphered:
  "length x = n \<Longrightarrow> cipher_read n c (ciphered c x @ rest) = Inr (cipher_after c x, x, rest)"
  by (simp add: cipher_read_def)

lemma cipher_discard_ciphered:
  "length x = n \<Longrightarrow> cipher_discard n c (ciphered c x @ rest) = Inr (cipher_after c x, rest)"
  by (simp add: cipher_discard_def)

lemma unat_u16_small: "n \<le> 65535 \<Longrightarrow> unat (word_of_nat n :: u16) = n"
  by (simp add: unat_of_nat)

definition initer_message :: "crypto_method \<Rightarrow> nat \<Rightarrow> bytes \<Rightarrow> bytes" where
  "initer_message provides padLen ia =
     vc @ be32 provides @ be16 (word_of_nat padLen) @ replicate padLen 0 @ be16 (word_of_nat (length ia)) @ ia"

definition receiver_message :: "crypto_method \<Rightarrow> nat \<Rightarrow> bytes" where
  "receiver_message chosen padLen = vc @ be32 chosen @ be16 (word_of_nat padLen) @ replicate padLen 0"

text \<open>The receiver reads an initiator's message whole.\<close>

lemma receiver_provides_message:
  assumes "n \<le> 512"
  shows "receiver_provides r (ciphered r (vc @ be32 provides @ be16 (word_of_nat n) @ replicate n 0 @ x) @ rest) =
    (let r' = cipher_after r (vc @ be32 provides @ be16 (word_of_nat n) @ replicate n 0) in Inr (vc, provides, r', ciphered r' x @ rest))"
  using assms unat_u16_small [of n] by (simp add: receiver_provides_def cipher_read_ciphered cipher_discard_ciphered Let_def)

lemma receiver_payload_message:
  assumes "length ia \<le> 65535"
  shows "receiver_payload r (ciphered r (be16 (word_of_nat (length ia)) @ ia) @ rest) =
    (cipher_after r (be16 (word_of_nat (length ia)) @ ia), ia, rest)"
  using assms unat_u16_small [of "length ia"] by (simp add: receiver_payload_def cipher_read_ciphered Let_def)

lemma mse_xor_cancel: "length a = length c \<Longrightarrow> length b = length c \<Longrightarrow> mse_xor a c = mse_xor b c \<Longrightarrow> a = b"
proof (induction a b arbitrary: c rule: list_induct2')
  case (4 x xs y ys)
  then obtain z zs where c: "c = z # zs" by (cases c) auto
  have "x XOR z = y XOR z" using 4(4) c by (simp add: mse_xor_def)
  then have "(x XOR z) XOR z = (y XOR z) XOR z" by (simp only:)
  then show ?case using 4 c by (simp add: mse_xor_def xor.assoc)
qed auto

lemma length_mse_hash [simp]: "length (mse_hash parts) = 20"
  by (simp add: mse_hash_def)

lemma receiver_key_message:
  assumes "first_end (mse_hash [req1, s]) (pad @ mse_hash [req1, s]) = Some (length pad + 20)" "length pad \<le> 512"
    "key \<in> set keys" "\<forall>k \<in> set keys. mse_hash [req2, k] = mse_hash [req2, key] \<longrightarrow> k = key"
  shows "receiver_key s keys (pad @ mse_hash [req1, s] @ mse_xor (mse_hash [req2, key]) (mse_hash [req3, s]) @ rest) = Inr (key, rest)"
proof -
  let ?b = "mse_xor (mse_hash [req2, key]) (mse_hash [req3, s])"
  have "find (\<lambda>k. mse_xor (mse_hash [req2, k]) (mse_hash [req3, s]) = ?b) keys = Some key"
  proof -
    obtain k where k: "find (\<lambda>k. mse_xor (mse_hash [req2, k]) (mse_hash [req3, s]) = ?b) keys = Some k"
      using assms(3) by (cases "find (\<lambda>k. mse_xor (mse_hash [req2, k]) (mse_hash [req3, s]) = ?b) keys") (auto simp: find_None_iff)
    then have "k \<in> set keys" "mse_xor (mse_hash [req2, k]) (mse_hash [req3, s]) = ?b" by (auto simp: find_Some_iff)
    then have "k = key" using assms(4) mse_xor_cancel [of "mse_hash [req2, k]" "mse_hash [req3, s]" "mse_hash [req2, key]"] by simp
    then show ?thesis using k by simp
  qed
  moreover have "length ?b = 20" by (simp add: mse_xor_def)
  ultimately show ?thesis
    using read_past_mark [of "mse_hash [req1, s]" pad 532 "?b @ rest"] assms(1,2) by (simp add: receiver_key_def)
qed

lemma initer_answer_message:
  assumes "first_end (ciphered bC vc) (pad @ ciphered bC vc) = Some (length pad + 8)" "length pad \<le> 512" "n \<le> 512"
  shows "initer_answer bC (pad @ ciphered bC (receiver_message chosen n) @ rest) =
    Inr (cipher_after bC (receiver_message chosen n), chosen, rest)"
  using read_past_mark [of "ciphered bC vc" pad 520 "ciphered (cipher_after bC vc) (be32 chosen @ be16 (word_of_nat n) @ replicate n 0) @ rest"]
    assms unat_u16_small [of n]
  by (simp add: initer_answer_def receiver_message_def cipher_read_ciphered cipher_discard_ciphered Let_def)

definition agreed_stream :: "bytes \<Rightarrow> crypto_method \<Rightarrow> rc4 \<Rightarrow> rc4 \<Rightarrow> mse_stream" where
  "agreed_stream payload m r w =
     (if m = CryptoMethodRC4 then \<lparr>msPayload = payload, msReader = Some r, msWriter = Some w\<rparr>
      else \<lparr>msPayload = payload, msReader = None, msWriter = None\<rparr>)"

lemma receiverSteps_message:
  fixes h defines "s \<equiv> hS h"
  assumes "hConn h = pad @ mse_hash [req1, s] @ mse_xor (mse_hash [req2, key]) (mse_hash [req3, s]) @
      ciphered (newEncrypt True s key) (initer_message provides n ia) @ rest"
    "first_end (mse_hash [req1, s]) (pad @ mse_hash [req1, s]) = Some (length pad + 20)" "length pad \<le> 512" "n \<le> 512" "length ia \<le> 65535"
    "key \<in> set (hSkeys h)" "\<forall>k \<in> set (hSkeys h). mse_hash [req2, k] = mse_hash [req2, key] \<longrightarrow> k = key"
    "hChoose h provides \<in> {CryptoMethodPlaintext, CryptoMethodRC4}"
  shows "receiverSteps m h =
    (h\<lparr>hSkey := key, hIa := ia, hConn := rest, hWrites := hWrites h @ ciphered (newEncrypt False s key) (receiver_message (hChoose h provides) m)\<rparr>,
     Inr (agreed_stream ia (hChoose h provides) (cipher_after (newEncrypt True s key) (initer_message provides n ia))
       (cipher_after (newEncrypt False s key) (receiver_message (hChoose h provides) m)), hChoose h provides))"
proof -
  let ?x = "be16 (word_of_nat (length ia)) @ ia" and ?r = "newEncrypt True s key"
  let ?v = "vc @ be32 provides @ be16 (word_of_nat n) @ replicate n 0"
  have m: "initer_message provides n ia = ?v @ ?x" by (simp add: initer_message_def)
  have "receiver_key s (hSkeys h) (hConn h) = Inr (key, ciphered ?r (?v @ ?x) @ rest)"
    unfolding assms(2) m by (rule receiver_key_message) (use assms in auto)
  moreover have "receiver_provides ?r (ciphered ?r (?v @ ?x) @ rest) = Inr (vc, provides, cipher_after ?r ?v, ciphered (cipher_after ?r ?v) ?x @ rest)"
    using receiver_provides_message [OF assms(5), of ?r provides ?x rest] by (simp add: Let_def)
  moreover have "receiver_payload (cipher_after ?r ?v) (ciphered (cipher_after ?r ?v) ?x @ rest) = (cipher_after ?r (?v @ ?x), ia, rest)"
    using receiver_payload_message [OF assms(6), of "cipher_after ?r ?v" rest] by simp
  ultimately show ?thesis
    using assms(9) unfolding receiverSteps_def m receiver_message_def agreed_stream_def postWrite_def s_def by (auto simp: Let_def)
qed

lemma initerSteps_message:
  fixes h defines "s \<equiv> hS h" and "key \<equiv> hSkey h"
  defines "bC \<equiv> newEncrypt False s key" and "e \<equiv> newEncrypt True s key"
  assumes "hConn h = pad @ ciphered bC (receiver_message chosen n) @ rest"
    "first_end (ciphered bC vc) (pad @ ciphered bC vc) = Some (length pad + 8)" "length pad \<le> 512" "n \<le> 512" "length (hIa h) \<le> 65535"
    "chosen \<in> {CryptoMethodPlaintext, CryptoMethodRC4}" "chosen AND hProvides h = chosen"
  shows "initerSteps m h =
    (h\<lparr>hConn := rest, hWrites := hWrites h @ mse_hash [req1, s] @ mse_xor (mse_hash [req2, key]) (mse_hash [req3, s]) @
         ciphered e (initer_message (hProvides h) m (hIa h))\<rparr>,
     Inr (agreed_stream [] chosen (cipher_after bC (receiver_message chosen n)) (cipher_after e (initer_message (hProvides h) m (hIa h))), chosen))"
proof -
  have "initer_answer bC (hConn h) = Inr (cipher_after bC (receiver_message chosen n), chosen, rest)"
    unfolding assms(5) by (rule initer_answer_message) (use assms in auto)
  then show ?thesis
    using assms(9-11) unfolding initerSteps_def initer_message_def [symmetric] agreed_stream_def postWrite_def bC_def e_def s_def key_def
    by (auto simp: Let_def initer_message_def)
qed

lemma mse_Do_secret:
  assumes "public_key x = Some y" "hConn h = Y @ inp" "length Y = 96" "shared_secret x Y = Some s"
  shows "mse_Do x pad padLen h =
    (let h = h\<lparr>hS := s, hConn := inp, hWrites := hWrites h @ y @ pad\<rparr> in Some (if hIniter h then initerSteps padLen h else receiverSteps padLen h))"
  using assms by (simp add: mse_Do_def establishS_def postWrite_def Let_def)

lemma agreed_streams:
  assumes "m \<in> {CryptoMethodPlaintext, CryptoMethodRC4}"
  shows "stream_read (agreed_stream p m r w) (stream_write (agreed_stream q m w' r) d) = p @ d"
  using assms by (auto simp: stream_read_def stream_write_def agreed_stream_def)

text \<open>
  C8. An encrypted handshake succeeds on both sides.  Let each side read what the other writes, followed by anything.  Suppose the receiver
  knows the initiator's key and no other with the same hash, neither side's random padding has the mark the other
  looks for, lengths are in their bounds, and the receiver selects a method that the initiator provides.  Then both
  sides end with that method and have read exactly the other's handshake, the receiver has the key, and from there
  on what one side writes the other reads, after the initial payload.
\<close>

theorem handshake_succeeds:
  assumes "public_key xb = Some Yb" "shared_secret xa Yb = Some s"
    "length padA \<le> 512" "length padB \<le> 512" "nA \<le> 512" "nB \<le> 512" "length payload \<le> 65535"
    "key \<in> set keys" "\<forall>k \<in> set keys. mse_hash [req2, k] = mse_hash [req2, key] \<longrightarrow> k = key"
    "first_end (mse_hash [req1, s]) (padA @ mse_hash [req1, s]) = Some (length padA + 20)"
    "first_end (ciphered (newEncrypt False s key) vc) (padB @ ciphered (newEncrypt False s key) vc) = Some (length padB + 8)"
    "select provides \<in> {CryptoMethodPlaintext, CryptoMethodRC4}" "select provides AND provides = select provides"
  shows "\<exists>hA hB sA sB.
    InitiateHandshake xa padA nA (hWrites hB @ dataB) key payload provides = Some (hA, Inr (sA, select provides)) \<and>
    ReceiveHandshakeEx xb padB nB (hWrites hA @ dataA) keys select = Some (hB, Inr (sB, select provides)) \<and>
    hConn hA = dataB \<and> hConn hB = dataA \<and> hSkey hB = key \<and>
    (\<forall>d. stream_read sB (stream_write sA d) = payload @ d) \<and> (\<forall>d. stream_read sA (stream_write sB d) = d)"
proof -
  let ?m = "select provides" and ?e = "newEncrypt True s key" and ?b = "newEncrypt False s key"
  obtain Ya where Ya: "public_key xa = Some Ya" "length Ya = 96" by (rule public_key_Some)
  have Yb: "length Yb = 96" using assms(1) public_key_Some [of xb] by (metis option.inject)
  have s: "shared_secret xb Ya = Some s" using shared_secret_agrees [OF Ya(1) assms(1)] assms(2) by simp
  let ?outB = "Yb @ padB @ ciphered ?b (receiver_message ?m nB)"
  let ?outA = "Ya @ padA @ mse_hash [req1, s] @ mse_xor (mse_hash [req2, key]) (mse_hash [req3, s]) @ ciphered ?e (initer_message provides nA payload)"
  let ?rB = "cipher_after ?b (receiver_message ?m nB)" and ?rA = "cipher_after ?e (initer_message provides nA payload)"
  obtain hA where hA: "InitiateHandshake xa padA nA (?outB @ dataB) key payload provides = Some (hA, Inr (agreed_stream [] ?m ?rB ?rA, ?m))"
    "hWrites hA = ?outA" "hConn hA = dataB"
  proof -
    let ?h = "\<lparr>hConn = ?outB @ dataB, hS = replicate 96 0, hIniter = True, hSkeys = [], hSkey = key, hIa = payload,
       hChoose = (\<lambda>_. 0), hProvides = provides, hWrites = []\<rparr>"
    let ?h' = "?h\<lparr>hWrites := hWrites ?h @ Ya @ padA, hS := s, hConn := padB @ ciphered ?b (receiver_message ?m nB) @ dataB\<rparr>"
    note mse_Do_secret [OF Ya(1) _ Yb assms(2), of ?h "padB @ ciphered ?b (receiver_message ?m nB) @ dataB" padA nA]
    moreover note initerSteps_message [of ?h' padB ?m nB dataB nA]
    ultimately show thesis using that assms(4,6,7,11-13) by (simp add: InitiateHandshake_def Let_def)
  qed
  moreover obtain hB where "ReceiveHandshakeEx xb padB nB (?outA @ dataA) keys select = Some (hB, Inr (agreed_stream payload ?m ?rA ?rB, ?m))"
    "hWrites hB = ?outB" "hConn hB = dataA" "hSkey hB = key"
  proof -
    let ?in = "padA @ mse_hash [req1, s] @ mse_xor (mse_hash [req2, key]) (mse_hash [req3, s]) @ ciphered ?e (initer_message provides nA payload) @ dataA"
    let ?h = "\<lparr>hConn = ?outA @ dataA, hS = replicate 96 0, hIniter = False, hSkeys = keys, hSkey = [], hIa = [],
       hChoose = select, hProvides = 0, hWrites = []\<rparr>"
    let ?h' = "?h\<lparr>hWrites := hWrites ?h @ Yb @ padB, hS := s, hConn := ?in\<rparr>"
    note mse_Do_secret [OF assms(1) _ Ya(2) s, of ?h ?in padB nB]
    moreover note receiverSteps_message [of ?h' padA key provides nA payload dataA nB]
    ultimately show thesis using that assms(3,5,7-10,12) by (simp add: ReceiveHandshakeEx_def Let_def)
  qed
  ultimately show ?thesis using agreed_streams [OF assms(12)] by (metis append_Nil)
qed

lemma first_end_self: "first_end b b = Some (length b)"
  by (auto simp: first_end_Some ends_with_def dest: arg_cong [where f = length])

theorem handshake_succeeds_witness:
  "\<exists>hA hB sA sB.
    InitiateHandshake 3 [] 0 (hWrites hB @ []) [1] [7, 8] 3 = Some (hA, Inr (sA, DefaultCryptoSelector 3)) \<and>
    ReceiveHandshakeEx 5 [] 2 (hWrites hA @ []) [[1]] DefaultCryptoSelector = Some (hB, Inr (sB, DefaultCryptoSelector 3)) \<and>
    hConn hA = [] \<and> hConn hB = [] \<and> hSkey hB = [1] \<and>
    (\<forall>d. stream_read sB (stream_write sA d) = [7, 8] @ d) \<and> (\<forall>d. stream_read sA (stream_write sB d) = d)"
proof -
  obtain Yb where Yb: "public_key 5 = Some Yb" by (rule public_key_Some)
  obtain s where s: "shared_secret 3 Yb = Some s" by (rule shared_secret_Some)
  show ?thesis
    by (rule handshake_succeeds [OF Yb s]) (simp_all add: first_end_self DefaultCryptoSelector_def)
qed

text \<open>
  C18. \<^verbatim>\<open>readUntil\<close> stops right after the first place where the mark is, although it keeps no more of the stream than the mark is
  long and never goes back; it fails if the mark is nowhere.
\<close>

theorem readUntil_exact:
  "case first_end b r of
     Some k \<Rightarrow> readUntil r b = Inr (drop k r)
   | None \<Rightarrow> isl (readUntil r b)"
  by (subst (1 2) readUntil_first_end) (simp split: option.split)

lemma receiver_payload_cut:
  assumes "length ia < unat lenIA"
  shows "receiver_payload r (ciphered r (be16 lenIA @ ia)) = (cipher_after r (be16 lenIA @ ia), replicate (unat lenIA) 0, [])"
proof -
  let ?r = "cipher_after r (be16 lenIA)"
  obtain e where "read_full (unat lenIA) (ciphered ?r ia) = Inl e"
    using assms by (cases "read_full (unat lenIA) (ciphered ?r ia)") (auto simp: read_full_def split: if_splits)
  then have "cipher_read (unat lenIA) ?r (ciphered ?r ia) = Inl e" by (simp add: cipher_read_def)
  then show ?thesis using assms by (simp add: receiver_payload_def cipher_read_ciphered Let_def)
qed

text \<open>
  C35. A payload that is cut off becomes zeros.  If the stream ends inside the initial payload, the receiver's handshake still succeeds, with as
  many zero bytes for a payload as the initiator announced.
\<close>

theorem truncated_payload_zeros:
  assumes "hConn h = pad @ mse_hash [req1, hS h] @ mse_xor (mse_hash [req2, key]) (mse_hash [req3, hS h]) @
      ciphered (newEncrypt True (hS h) key) (vc @ be32 provides @ be16 (word_of_nat n) @ replicate n 0 @ be16 lenIA @ ia)"
    "first_end (mse_hash [req1, hS h]) (pad @ mse_hash [req1, hS h]) = Some (length pad + 20)" "length pad \<le> 512" "n \<le> 512"
    "length ia < unat lenIA" "hSkeys h = [key]" "hChoose h provides \<in> {CryptoMethodPlaintext, CryptoMethodRC4}"
  shows "\<exists>h' st. receiverSteps m h = (h', Inr (st, hChoose h provides)) \<and> stream_read st [] = replicate (unat lenIA) 0"
proof -
  let ?x = "be16 lenIA @ ia" and ?r = "newEncrypt True (hS h) key" and ?v = "vc @ be32 provides @ be16 (word_of_nat n) @ replicate n 0"
  have c: "hConn h = pad @ mse_hash [req1, hS h] @ mse_xor (mse_hash [req2, key]) (mse_hash [req3, hS h]) @ ciphered ?r (?v @ ?x)"
    using assms(1) by simp
  have "receiver_key (hS h) (hSkeys h) (hConn h) = Inr (key, ciphered ?r (?v @ ?x))"
    unfolding c by (rule receiver_key_message) (use assms in auto)
  moreover have "receiver_provides ?r (ciphered ?r (?v @ ?x)) = Inr (vc, provides, cipher_after ?r ?v, ciphered (cipher_after ?r ?v) ?x)"
    using receiver_provides_message [OF assms(4), of ?r provides ?x "[]"] by (simp add: Let_def)
  moreover have "receiver_payload (cipher_after ?r ?v) (ciphered (cipher_after ?r ?v) ?x) =
      (cipher_after ?r (?v @ ?x), replicate (unat lenIA) 0, [])"
    using receiver_payload_cut [OF assms(5), of "cipher_after ?r ?v"] by simp
  ultimately show ?thesis
    using assms(7) unfolding receiverSteps_def by (auto simp: Let_def postWrite_def stream_read_def)
qed

theorem truncated_payload_zeros_witness:
  "let s = replicate 96 0; key = [1];
       h = \<lparr>hConn = [] @ mse_hash [req1, s] @ mse_xor (mse_hash [req2, key]) (mse_hash [req3, s]) @
              ciphered (newEncrypt True s key) (vc @ be32 3 @ be16 (word_of_nat 0) @ replicate 0 0 @ be16 5 @ [7]),
            hS = s, hIniter = False, hSkeys = [key], hSkey = [], hIa = [], hChoose = DefaultCryptoSelector, hProvides = 0, hWrites = []\<rparr>
   in \<exists>h' st. receiverSteps 0 h = (h', Inr (st, hChoose h 3)) \<and> stream_read st [] = replicate (unat (5 :: u16)) 0"
  unfolding Let_def
  by (rule truncated_payload_zeros [where pad = "[]" and key = "[1]" and n = 0 and ia = "[7]"])
    (simp_all add: first_end_self DefaultCryptoSelector_def)

end
