(* ===== verification/Spec2Isabelle.thy ===== *)
theory Spec2Isabelle
  imports Segments Pieces Bencode_Roundtrip Iplist Alloclim Metadata RequestOrder Mse
begin

text \<open>
  A verification library for ReliableBT, a BitTorrent client in Go (a fork of \<^verbatim>\<open>anacrolix/torrent\<close>, under \<^verbatim>\<open>src/\<close>) that
  knows a \<^emph>\<open>baseline provider\<close>: a peer the tracker names, which is always reachable and is to be asked only for what
  nobody else has.

  \<^bold>\<open>The program.\<close>  A \<^verbatim>\<open>Client\<close> holds torrents; a \<^verbatim>\<open>Torrent\<close> holds its pieces, a reserve of peers (\<^verbatim>\<open>prioritizedPeers\<close>), and its
  open connections (\<^verbatim>\<open>PeerConn\<close>, which embeds \<^verbatim>\<open>Peer\<close>).  A tracker's answer fills the reserve, the reserve is dialled, and
  every connection runs a loop that decodes messages and calls a handler with the client's lock held.  If the
  torrent is known by its hash only, the info dictionary is fetched from peers first.  Then the client keeps the
  pieces of all torrents in one order, derives from it the chunks each peer should be asked for, makes and cancels
  requests accordingly, writes the chunks that arrive, hashes complete pieces and announces them.

  \<^bold>\<open>Which theory models what.\<close>  Definitions have the names of the Go functions, with a suffix or prefix where
  a name is taken.

  \<^item> \<open>Torrent_Prelude\<close>: machine types, big-endian encodings, \<^verbatim>\<open>io\<close> reads, \<^verbatim>\<open>sort.Search\<close>.
  \<^item> \<open>Trees\<close>: the contract of the two B-tree packages that are imported, and a list that meets it.
  \<^item> \<open>Segments\<close> (\<^verbatim>\<open>segments/\<close>): \<open>Scan\<close> and the binary search \<open>Locate\<close>, both interpretations of the locale \<open>locater\<close>.
  \<^item> \<open>PeerProtocol\<close> (\<^verbatim>\<open>peer_protocol/\<close>): messages, the decoder with its wrapping length, the handshake.
  \<^item> \<open>Geometry\<close> (\<^verbatim>\<open>misc.go\<close>, \<^verbatim>\<open>file.go\<close> and the index methods of \<^verbatim>\<open>torrent.go\<close>): pieces, chunks, request indices.
  \<^item> \<open>Bitmaps\<close> (\<^verbatim>\<open>ordered-bitmap.go\<close>, \<^verbatim>\<open>roaring.go\<close>, \<^verbatim>\<open>undirtied-chunks-iter.go\<close>): the locale \<open>peer_requests\<close> is the interface
    \<^verbatim>\<open>PeerRequests\<close>, interpreted by the ordered bitmap.
  \<^item> \<open>Swarm\<close>: the records \<open>torrent_state\<close> and \<open>peer_state\<close>, the fields of \<^verbatim>\<open>Torrent\<close>, \<^verbatim>\<open>Peer\<close> and \<^verbatim>\<open>PeerConn\<close>, and the
    queries on them.  A connection is a number and the torrent holds the store of the connections.
  \<^item> \<open>Requests\<close> (\<^verbatim>\<open>peerconn.go\<close>, \<^verbatim>\<open>requesting.go\<close>): making, cancelling, rejecting and receiving chunks.
  \<^item> \<open>Availability\<close> (\<^verbatim>\<open>peerconn.go\<close>, \<^verbatim>\<open>torrent.go\<close>): have, bitfield, have-all and have-none, dropping connections, closing.
  \<^item> \<open>Pieces\<close> (\<^verbatim>\<open>piece.go\<close>, \<^verbatim>\<open>torrent.go\<close>): priorities, completion, the queue of hashers, the result of a hash.
  \<^item> \<open>PeerPool\<close> (\<^verbatim>\<open>prioritized_peers.go\<close>, \<^verbatim>\<open>bep40.go\<close>, \<^verbatim>\<open>tracker_scraper.go\<close>): the reserve, dialling, an announce.
  \<^item> \<open>RequestOrder\<close> (\<^verbatim>\<open>request-strategy/\<close>, \<^verbatim>\<open>requesting.go\<close>): the order of pieces and the requests a connection should have.
  \<^item> \<open>Bencode\<close>, \<open>Bencode_Reflect\<close>, \<open>Bencode_Roundtrip\<close> (\<^verbatim>\<open>bencode/\<close>): decoding into untyped and typed values, encoding.
  \<^item> \<open>Sha1\<close>, \<open>Metainfo\<close> (\<^verbatim>\<open>metainfo/\<close>), \<open>Metadata\<close> (\<^verbatim>\<open>torrent.go\<close>, \<^verbatim>\<open>peerconn.go\<close>): the info dictionary and its exchange.
  \<^item> \<open>Iplist\<close> (\<^verbatim>\<open>iplist/\<close>): block lists; the locale \<open>ranger\<close> is the interface \<^verbatim>\<open>Ranger\<close>, interpreted by the list and by the
    packed file.
  \<^item> \<open>Mse\<close> (\<^verbatim>\<open>mse/\<close>): the encrypted handshake, RC4 included, and the streams it leaves.
  \<^item> \<open>Alloclim\<close> (\<^verbatim>\<open>internal/alloclim/\<close>): the allocation limiter.

  \<^bold>\<open>What is shown.\<close>  The state of a torrent has an invariant in three layers: \<open>req_inv\<close> (every outstanding request
  has one owner, and the counters of the peers agree with it), \<open>avail_inv\<close> (the availability of a piece is the number of
  open connections that have it) and \<open>pipe_inv\<close> (a piece is pending exactly when it is wanted and not complete, and at
  most two hashers run).  Every handler keeps them and, as the Go code panics where they fail, does not panic.
  On top of them stand the composition results of \<open>RequestOrder\<close> and \<open>Metadata\<close>.  The codecs have round
  trips, the optimised routines are equal to plain ones, and the parsers are safe on every input.  Where
  the code does not do what it means to, a theorem states what it does on the inputs in question.

  \<^bold>\<open>Conventions and bounds.\<close>  A panic is \<open>None\<close> (or a constructor of its own); errors are values.  \<^verbatim>\<open>pp.Integer\<close> and \<^verbatim>\<open>RequestIndex\<close> are
  32 bit words and wrap; where an \<^verbatim>\<open>int64\<close> can overflow, \<open>int64\<close> wraps it.  The lock of the client makes handlers
  atomic, so that an execution is a sequence of them.  Iterating over a Go map is iterating over a list in
  some order.  The clock is a field of the state.  Loops are recursive functions; the fuel of the bencode
  decoder is a multiple of the input's length, and that of loops over the reserve is its size; that these are
  enough is part of the theorems.  Code of other modules (the B-trees, the hash table of roaring bitmaps, the storage)
  is an argument with named laws, or a set.

  \<^bold>\<open>Not modelled.\<close>  Sockets, timers and goroutine scheduling, the storage back ends,
  trackers' transports, web seeds, WebRTC, the DHT, the FUSE file system and the command line programs: they are
  input and output around the state above, or call libraries that are not in the repository.  Logging, statistics
  and text for status pages are left out of the handlers.
\<close>

end
